(* ===== verification/Prelude.thy ===== *)
theory Prelude
  imports Main "HOL-Library.Word" "HOL-Library.Char_ord" "HOL-Library.List_Lexorder"
    "HOL-Library.AList" "HOL-Library.Multiset"
begin

text \<open>
  The vocabulary the components share: Go's strings (sequences of bytes, compared bytewise) as
  \<^typ>\<open>string\<close>, byte slices as lists of 8-bit words, the wrap-around of Go's 64-bit
  \<^verbatim>\<open>int\<close>, slice expressions that panic out of range, and the errors the handlers return.
  A Go map is an association list without duplicate keys; the order of the list stands for the
  (unspecified) order in which \<^verbatim>\<open>range\<close> visits the map.
\<close>

section \<open>Bytes, strings and machine integers\<close>

type_synonym byte = "8 word"
type_synonym bytes = "byte list"

definition bytes_of :: "string \<Rightarrow> bytes" where
  "bytes_of s = map (\<lambda>c. word_of_nat (of_char c)) s"

definition string_of :: "bytes \<Rightarrow> string" where
  "string_of bs = map (\<lambda>b. char_of (unat b)) bs"

lemma string_of_bytes_of [simp]: "string_of (bytes_of s) = s"
proof -
  have "char_of (unat (word_of_nat (of_char c) :: byte)) = c" for c :: char
    by (simp add: unat_of_nat take_bit_eq_mod)
  then show ?thesis
    by (simp add: string_of_def bytes_of_def comp_def)
qed

lemma length_bytes_of [simp]: "length (bytes_of s) = length s"
  by (simp add: bytes_of_def)

lemma length_string_of [simp]: "length (string_of bs) = length bs"
  by (simp add: string_of_def)

text \<open>Go's \<^verbatim>\<open>int\<close> has 64 bits and wraps around.\<close>

definition go_int :: "int \<Rightarrow> int" where
  "go_int x = signed_take_bit 63 x"

lemma go_int_id: "- (2 ^ 63) \<le> x \<Longrightarrow> x < 2 ^ 63 \<Longrightarrow> go_int x = x"
  unfolding go_int_def by (rule signed_take_bit_int_eq_self)

lemma go_int_nat [simp]: "int n < 2 ^ 63 \<Longrightarrow> go_int (int n) = int n"
  by (rule go_int_id) auto

lemma go_int_add: "go_int (go_int x + y) = go_int (x + y)"
  unfolding go_int_def
  by (metis signed_take_bit_add signed_take_bit_signed_take_bit min.idem)

lemma go_int_idem [simp]: "go_int (go_int x) = go_int x"
  using go_int_add [of x 0] by simp

lemma go_int_bounds: "- (2 ^ 63) \<le> go_int x \<and> go_int x < 2 ^ 63"
  unfolding go_int_def
  by (metis signed_take_bit_int_greater_eq_minus_exp signed_take_bit_int_less_exp)

text \<open>
  The slice expression \<^verbatim>\<open>xs[lo:hi]\<close>: None where Go panics. (Go checks \<^verbatim>\<open>hi\<close> against the
  capacity; every use below has already compared \<^verbatim>\<open>hi\<close> with the length.)
\<close>

definition go_slice :: "'a list \<Rightarrow> int \<Rightarrow> int \<Rightarrow> 'a list option" where
  "go_slice xs lo hi =
     (if 0 \<le> lo \<and> lo \<le> hi \<and> hi \<le> int (length xs)
      then Some (take (nat (hi - lo)) (drop (nat lo) xs)) else None)"

text \<open>\<^verbatim>\<open>fmt.Sprintf("%d", n)\<close>.\<close>

fun show_nat :: "nat \<Rightarrow> string" where
  "show_nat n =
     (if n < 10 then [char_of (48 + n)] else show_nat (n div 10) @ [char_of (48 + n mod 10)])"

declare show_nat.simps [simp del]

definition show_int :: "int \<Rightarrow> string" where
  "show_int i = (if i < 0 then ''-'' @ show_nat (nat (- i)) else show_nat (nat i))"

text \<open>The value of a string of digits.\<close>

definition decimal :: "string \<Rightarrow> nat" where
  "decimal s = foldl (\<lambda>v c. 10 * v + (of_char c - 48)) 0 s"

lemma of_char_digit [simp]: "n < 10 \<Longrightarrow> of_char (char_of (48 + n) :: char) = 48 + n" for n :: nat
  by simp

lemma decimal_show_nat [simp]: "decimal (show_nat n) = n"
proof (induction n rule: show_nat.induct)
  case (1 n)
  show ?case
  proof (cases "n < 10")
    case True
    then show ?thesis by (subst show_nat.simps) (simp add: decimal_def)
  next
    case False
    then have "decimal (show_nat (n div 10)) = n div 10" by (rule "1.IH")
    then show ?thesis using False by (subst show_nat.simps) (simp add: decimal_def)
  qed
qed

section \<open>Errors\<close>

text \<open>
  The codes of connect errors the handlers use, and the errors themselves: a message, a message
  wrapping another error (\<^verbatim>\<open>fmt.Errorf("...: %w", err)\<close>), a connect error with its code, the two
  context errors, pgx's \<^verbatim>\<open>ErrNoRows\<close>, and a runtime panic.
\<close>

datatype rpc_code = CodeCanceled | CodeInvalidArgument | CodeNotFound | CodeInternal
  | CodeUnavailable | CodeUnimplemented

datatype go_error = ErrText string
  | ErrWrap string go_error
  | ErrRPC rpc_code go_error
  | ErrCanceled
  | ErrDeadlineExceeded
  | ErrNoRows
  | ErrPanic string

type_synonym 'a result = "go_error + 'a"

fun is_panic :: "go_error \<Rightarrow> bool" where
  "is_panic (ErrPanic _) = True"
| "is_panic _ = False"

section \<open>Shared lemmas on lists, maps and multisets\<close>

named_theorems model_defs \<open>definitions that witnesses unfold to evaluate the model\<close>

lemma map_of_eq_Some_iff_distinct:
  "distinct (map fst xs) \<Longrightarrow> map_of xs k = Some v \<longleftrightarrow> (k, v) \<in> set xs"
  by simp

lemma map_of_key_map:
  "map_of (map (\<lambda>r. (f r, g r)) xs) k = map_option g (find (\<lambda>r. f r = k) xs)"
  by (induction xs) auto

lemma distinct_mapD: "distinct (map f xs) \<Longrightarrow> distinct xs"
  by (simp add: distinct_map)

lemma sorted_distinct_strict:
  "sorted (map f xs) \<Longrightarrow> distinct (map f xs) \<Longrightarrow> sorted_wrt (\<lambda>a b. f a < f b) xs"
  by (induction xs) (auto simp: order.strict_iff_order)

lemma sorted_map_unique:
  assumes "mset xs = mset ys" and "sorted (map f xs)" and "sorted (map f ys)"
    and "distinct (map f xs)"
  shows "xs = ys"
proof -
  have inj: "inj_on f (set xs)" using assms(4) by (simp add: distinct_map)
  have "set xs = set ys" using assms(1) by (rule mset_eq_setD)
  moreover have "map f xs = map f ys"
  proof -
    have "mset (map f xs) = mset (map f ys)" using assms(1) by simp
    then show ?thesis
      using assms(2,3) by (metis sorted_sort_id properties_for_sort)
  qed
  ultimately show ?thesis using inj by (metis map_inj_on sup.idem)
qed

end
