(* ===== verification/Varint.thy ===== *)
theory Varint
  imports Prelude
begin

text \<open>
  The part of Go's \<^verbatim>\<open>encoding/binary\<close> that \<^verbatim>\<open>internal/sstable\<close> uses: the base-128
  varints written by \<^verbatim>\<open>AppendUvarint\<close> and \<^verbatim>\<open>PutUvarint\<close> and read by \<^verbatim>\<open>Uvarint\<close>, with its
  two ways of failing (0 when the buffer ends early, a negative count when the value overflows
  64 bits). The lemmas: an encoding has between 1 and 10 bytes, and decoding it gives the value
  back, whatever follows.
\<close>

unbundle bit_operations_syntax

type_synonym u64 = "64 word"

definition MaxVarintLen64 :: nat where
  "MaxVarintLen64 = 10"

section \<open>Encoding\<close>

lemma unat_drop_bit_7: "unat (drop_bit 7 v) = unat v div 128" for v :: u64
  by (simp add: drop_bit_eq_div unat_div_distrib)

lemma unat_u64_bound: "unat v < 2 ^ 64" for v :: u64
  using unsigned_less [of v] by simp

lemma drop_bit_7_decreases:
  fixes v :: u64
  assumes "\<not> v < 128"
  shows "unat (drop_bit 7 v) < unat v"
proof -
  have "128 \<le> unat v" using assms by (simp add: word_less_nat_alt)
  then show ?thesis unfolding unat_drop_bit_7 by simp
qed

function append_uvarint :: "u64 \<Rightarrow> bytes" where
  "append_uvarint v =
     (if v < 128 then [ucast v] else (ucast v OR 128) # append_uvarint (drop_bit 7 v))"
  by pat_completeness auto
termination
  by (relation "measure unat") (auto intro: drop_bit_7_decreases)

declare append_uvarint.simps [simp del]

text \<open>\<^verbatim>\<open>PutUvarint\<close> returns the number of bytes it wrote.\<close>

function put_uvarint :: "u64 \<Rightarrow> nat" where
  "put_uvarint v = (if v < 128 then 1 else Suc (put_uvarint (drop_bit 7 v)))"
  by pat_completeness auto
termination
  by (relation "measure unat") (auto intro: drop_bit_7_decreases)

declare put_uvarint.simps [simp del]

lemma put_uvarint_length: "put_uvarint v = length (append_uvarint v)"
proof (induction v rule: append_uvarint.induct)
  case (1 v)
  then show ?case
    by (cases "v < 128") (simp_all add: append_uvarint.simps [of v] put_uvarint.simps [of v])
qed

lemma append_uvarint_nonempty [simp]: "append_uvarint v \<noteq> []"
  by (simp add: append_uvarint.simps [of v])

lemma append_uvarint_le_fuel:
  "0 < n \<Longrightarrow> unat v < 2 ^ (7 * n) \<Longrightarrow> length (append_uvarint v) \<le> n"
proof (induction v arbitrary: n rule: append_uvarint.induct)
  case (1 v)
  show ?case
  proof (cases "v < 128")
    case True
    then show ?thesis using 1(2) by (simp add: append_uvarint.simps [of v])
  next
    case False
    then have "128 \<le> unat v" by (simp add: word_less_nat_alt)
    with 1(3) have "n \<noteq> 1" by auto
    with 1(2) obtain m where n: "n = Suc m" "0 < m" by (cases n) auto
    have "unat (drop_bit 7 v) < 2 ^ (7 * m)"
      using 1(3) n unfolding unat_drop_bit_7
      by (simp add: less_mult_imp_div_less power_add mult.commute)
    with 1(1)[OF False n(2)] show ?thesis
      using False n by (simp add: append_uvarint.simps [of v])
  qed
qed

text \<open>So \<^verbatim>\<open>PutUvarint\<close> never runs past a buffer of \<^verbatim>\<open>MaxVarintLen64\<close> bytes.\<close>

lemma append_uvarint_length_le: "length (append_uvarint v) \<le> MaxVarintLen64"
proof -
  have "unat v < 2 ^ (7 * 10)" using unat_u64_bound [of v] by simp
  then show ?thesis
    unfolding MaxVarintLen64_def by (intro append_uvarint_le_fuel) auto
qed

section \<open>Decoding\<close>

fun uvarint_loop :: "nat \<Rightarrow> nat \<Rightarrow> u64 \<Rightarrow> bytes \<Rightarrow> u64 \<times> int" where
  "uvarint_loop i s x [] = (0, 0)"
| "uvarint_loop i s x (b # bs) =
     (if i = MaxVarintLen64 then (0, - (int i + 1))
      else if b < 128 then
        (if i = MaxVarintLen64 - 1 \<and> b > 1 then (0, - (int i + 1))
         else (x OR push_bit s (ucast b), int i + 1))
      else uvarint_loop (i + 1) (s + 7) (x OR push_bit s (ucast (b AND 127))) bs)"

definition uvarint :: "bytes \<Rightarrow> u64 \<times> int" where
  "uvarint buf = uvarint_loop 0 0 0 buf"

lemma uvarint_loop_bound:
  "uvarint_loop i s x buf = (v, n) \<Longrightarrow> 0 < n \<Longrightarrow> int i < n \<and> n \<le> int i + int (length buf)"
  by (induction i s x buf rule: uvarint_loop.induct) (fastforce split: if_splits)+

lemma uvarint_bound: "uvarint buf = (v, n) \<Longrightarrow> 0 < n \<Longrightarrow> n \<le> int (length buf)"
  unfolding uvarint_def by (drule uvarint_loop_bound) auto

lemma uvarint_Nil [simp]: "uvarint [] = (0, 0)"
  by (simp add: uvarint_def)

section \<open>The round trip\<close>

lemma byte_less_128: "b < 128 \<longleftrightarrow> \<not> bit b 7" for b :: byte
proof -
  have "bit b 7 \<longleftrightarrow> bit (unat b) 7" by (simp add: bit_unsigned_iff)
  also have "\<dots> \<longleftrightarrow> odd (unat b div 128)" by (simp add: bit_iff_odd)
  also have "\<dots> \<longleftrightarrow> \<not> unat b < 128"
  proof -
    have "unat b < 256" using unsigned_less [of b] by simp
    then have "unat b div 128 = (if unat b < 128 then 0 else 1)" by auto
    then show ?thesis by simp
  qed
  finally show ?thesis by (simp add: word_less_nat_alt)
qed

lemma continuation_byte: "\<not> (b OR 128) < 128" for b :: byte
  unfolding byte_less_128 by (simp add: bit_or_iff)

lemma bit_127: "bit (127 :: int) n \<longleftrightarrow> n < 7"
proof -
  have "(127 :: int) = mask 7" by (simp add: mask_eq_exp_minus_1)
  then show ?thesis by (metis bit_mask_iff possible_bit_int)
qed

lemma bit_128: "bit (128 :: int) n \<longleftrightarrow> n = 7"
proof -
  have "(128 :: int) = 2 ^ 7" by simp
  then show ?thesis by (metis bit_exp_iff possible_bit_int)
qed

lemma low_bits_of_continuation:
  "ucast ((ucast v OR 128 :: byte) AND 127) = v AND 127" for v :: u64
  by (rule bit_eqI) (auto simp: bit_simps bit_127 bit_128)

lemma small_byte: "v < 128 \<Longrightarrow> ucast (ucast v :: byte) = v" for v :: u64
  by (simp add: word_unat_eq_iff unsigned_ucast_eq unsigned_take_bit_eq take_bit_nat_eq_self
      word_less_nat_alt)

lemma small_byte_less: "v < 128 \<Longrightarrow> (ucast v :: byte) < 128" for v :: u64
  by (simp add: word_less_nat_alt unsigned_ucast_eq unsigned_take_bit_eq take_bit_nat_eq_self)

lemma varint_group:
  "(x OR push_bit s (v AND 127)) OR push_bit (s + 7) (drop_bit 7 v) = x OR push_bit s v"
  for x v :: u64
proof (rule bit_eqI)
  fix n
  have "n - s < 7 \<or> 7 + (n - (s + 7)) = n - s" by arith
  then show "bit ((x OR push_bit s (v AND 127)) OR push_bit (s + 7) (drop_bit 7 v)) n =
      bit (x OR push_bit s v) n"
    by (auto simp: bit_simps bit_127)
qed

lemma uvarint_loop_append:
  "s = 7 * i \<Longrightarrow> i < 10 \<Longrightarrow> unat v < 2 ^ (64 - s) \<Longrightarrow>
   uvarint_loop i s x (append_uvarint v @ rest) =
     (x OR push_bit s v, int i + int (length (append_uvarint v)))"
proof (induction v arbitrary: i s x rule: append_uvarint.induct)
  case (1 v)
  show ?case
  proof (cases "v < 128")
    case True
    have "i = 9 \<Longrightarrow> unat v \<le> 1" using 1(2,4) by simp
    then have "\<not> (i = 9 \<and> 1 < (ucast v :: byte))"
      using True by (auto simp: word_less_nat_alt unsigned_ucast_eq unsigned_take_bit_eq
          take_bit_nat_eq_self)
    then show ?thesis
      using True 1(2,3)
      by (auto simp: append_uvarint.simps [of v] MaxVarintLen64_def small_byte small_byte_less)
  next
    case False
    then have big: "128 \<le> unat v" by (simp add: word_less_nat_alt)
    have "i \<noteq> 9"
    proof
      assume "i = 9"
      with 1(2,4) have "unat v < 2" by simp
      with big show False by simp
    qed
    with 1(3) have i: "i + 1 < 10" by simp
    have "unat (drop_bit 7 v) < 2 ^ (64 - 7 * (i + 1))"
    proof -
      have "64 - s = 7 + (64 - 7 * (i + 1))" using 1(2) i by simp
      then have "unat v < 2 ^ (7 + (64 - 7 * (i + 1)))" using 1(4) by (simp only:)
      then have "unat v < 128 * 2 ^ (64 - 7 * (i + 1))" by (simp only: power_add) simp
      then show ?thesis unfolding unat_drop_bit_7 by (simp add: less_mult_imp_div_less mult.commute)
    qed
    with i have "uvarint_loop (i + 1) (7 * (i + 1)) y (append_uvarint (drop_bit 7 v) @ rest) =
        (y OR push_bit (7 * (i + 1)) (drop_bit 7 v),
         int (i + 1) + int (length (append_uvarint (drop_bit 7 v))))" for y
      by (intro 1(1)[OF False]) auto
    then show ?thesis
      using False i 1(2) varint_group [of x s v]
      by (simp add: append_uvarint.simps [of v] MaxVarintLen64_def continuation_byte
          low_bits_of_continuation add.commute [of 7])
  qed
qed

lemma uvarint_append_uvarint [simp]:
  "uvarint (append_uvarint v @ rest) = (v, int (length (append_uvarint v)))"
proof -
  have "unat v < 2 ^ (64 - 0)" using unat_u64_bound [of v] by simp
  then show ?thesis by (simp add: uvarint_def uvarint_loop_append)
qed

section \<open>Truncated encodings\<close>

lemma uvarint_loop_truncated:
  "i + length (append_uvarint v) \<le> 10 \<Longrightarrow> k < length (append_uvarint v) \<Longrightarrow>
   uvarint_loop i s x (take k (append_uvarint v)) = (0, 0)"
proof (induction v arbitrary: i s x k rule: append_uvarint.induct)
  case (1 v)
  show ?case
  proof (cases k)
    case (Suc k')
    with 1(3) have big: "\<not> v < 128" by (auto simp: append_uvarint.simps [of v])
    with 1(2,3) Suc show ?thesis
      by (simp add: append_uvarint.simps [of v] MaxVarintLen64_def continuation_byte 1(1)[OF big])
  qed simp
qed

lemma uvarint_truncated: "k < length (append_uvarint v) \<Longrightarrow> uvarint (take k (append_uvarint v)) = (0, 0)"
  using append_uvarint_length_le [of v]
  by (simp add: uvarint_def uvarint_loop_truncated MaxVarintLen64_def)

end
