(* ===== verification/SSTable.thy ===== *)
theory SSTable
  imports Varint
begin

text \<open>
  \<^verbatim>\<open>internal/sstable\<close>: the file format of write-ahead logs and runs. \<open>Record\<close> is the Go
  struct; a nil and an empty \<^verbatim>\<open>Value\<close> are both the empty list, which no code in the repository
  tells apart. \<open>ComputeSize\<close> and \<open>WriteRecords\<close> follow \<^verbatim>\<open>writer.go\<close>; \<open>read_record\<close> is
  one turn of the loop of \<^verbatim>\<open>reader.go\<close> and \<open>Records\<close> the whole iterator, with the consumer's
  \<^verbatim>\<open>yield\<close> threaded through it. The lemmas: the size is the length of the output (modulo the
  wrap-around of \<^verbatim>\<open>int\<close>), reading what was written gives the records back, and an iteration
  with any consumer is that consumer run over the collected records.
\<close>

section \<open>Records and the writer\<close>

record Record =
  Key :: string
  Value :: bytes
  Tombstone :: bool

definition tombstoneBit :: u64 where
  "tombstoneBit = 1"

definition currentVersion :: u64 where
  "currentVersion = 1"

text \<open>\<^verbatim>\<open>keyLen := uint64(len(r.Key) << 1)\<close>, with the tombstone flag in the lowest bit.\<close>

definition key_len :: "Record \<Rightarrow> u64" where
  "key_len r =
     (let keyLen = push_bit 1 (word_of_nat (length (Key r)))
      in if Tombstone r then keyLen OR tombstoneBit else keyLen)"

definition value_len :: "Record \<Rightarrow> u64" where
  "value_len r = word_of_nat (length (Value r))"

fun compute_size_loop :: "int \<Rightarrow> Record list \<Rightarrow> int" where
  "compute_size_loop sz [] = sz"
| "compute_size_loop sz (r # rs) =
     (let sz = go_int (sz + int (put_uvarint (key_len r)));
          sz = go_int (sz + int (length (Key r)))
      in if Tombstone r then compute_size_loop sz rs
         else
           (let sz = go_int (sz + int (put_uvarint (value_len r)));
                sz = go_int (sz + int (length (Value r)))
            in compute_size_loop sz rs))"

definition ComputeSize :: "Record list \<Rightarrow> int" where
  "ComputeSize rs = compute_size_loop (int (put_uvarint currentVersion)) rs"

text \<open>The bytes one turn of the writer's loop appends.\<close>

definition write_record :: "Record \<Rightarrow> bytes" where
  "write_record r =
     append_uvarint (key_len r) @ bytes_of (Key r) @
     (if Tombstone r then [] else append_uvarint (value_len r) @ Value r)"

fun write_loop :: "bytes \<Rightarrow> Record list \<Rightarrow> bytes" where
  "write_loop buf [] = buf"
| "write_loop buf (r # rs) = write_loop (buf @ write_record r) rs"

definition WriteRecords :: "Record list \<Rightarrow> bytes" where
  "WriteRecords rs = write_loop (append_uvarint currentVersion) rs"

lemma write_loop_concat: "write_loop buf rs = buf @ concat (map write_record rs)"
  by (induction rs arbitrary: buf) auto

lemma WriteRecords_concat:
  "WriteRecords rs = append_uvarint currentVersion @ concat (map write_record rs)"
  by (simp add: WriteRecords_def write_loop_concat)

section \<open>The reader\<close>

datatype iter_end = Returned | Panicked

datatype read_step = Stop | Crash | Got Record nat

text \<open>
  One turn of the loop at offset \<open>pos\<close>: Stop where the iterator returns, Crash where a slice
  expression panics. Offsets are added with the wrap-around of \<^verbatim>\<open>int\<close>, so a huge length makes the
  sum negative and passes the bounds check.
\<close>

definition read_value :: "bytes \<Rightarrow> string \<Rightarrow> nat \<Rightarrow> read_step" where
  "read_value data key pos =
     (let (valueLen, bytesRead) = uvarint (drop pos data) in
      if bytesRead \<le> 0 then Stop
      else
        (let pos = pos + nat bytesRead;
             hi = go_int (int pos + sint valueLen) in
         if hi > int (length data) then Stop
         else (case go_slice data (int pos) hi of
                 None \<Rightarrow> Crash
               | Some v \<Rightarrow> Got \<lparr>Key = key, Value = v, Tombstone = False\<rparr> (nat hi))))"

definition read_record :: "bytes \<Rightarrow> nat \<Rightarrow> read_step" where
  "read_record data pos =
     (let (keyLen, bytesRead) = uvarint (drop pos data) in
      if bytesRead \<le> 0 then Stop
      else
        (let pos = pos + nat bytesRead;
             tombstone = (keyLen AND tombstoneBit \<noteq> 0);
             keyLenValue = sint (drop_bit 1 keyLen);
             hi = go_int (int pos + keyLenValue) in
         if hi > int (length data) then Stop
         else (case go_slice data (int pos) hi of
                 None \<Rightarrow> Crash
               | Some k \<Rightarrow>
                   if tombstone
                   then Got \<lparr>Key = string_of k, Value = [], Tombstone = True\<rparr> (nat hi)
                   else read_value data (string_of k) (nat hi))))"

lemma go_slice_SomeD: "go_slice xs lo hi = Some ys \<Longrightarrow> 0 \<le> lo \<and> lo \<le> hi \<and> hi \<le> int (length xs)"
  by (auto simp: go_slice_def split: if_splits)

lemma read_value_advances: "read_value data key pos = Got r pos' \<Longrightarrow> pos < pos'"
  unfolding read_value_def Let_def
  by (auto split: prod.splits if_splits option.splits dest!: go_slice_SomeD)

lemma read_record_advances: "read_record data pos = Got r pos' \<Longrightarrow> pos < pos'"
  unfolding read_record_def Let_def
  by (auto split: prod.splits if_splits option.splits dest!: go_slice_SomeD read_value_advances)

function records_loop ::
  "bytes \<Rightarrow> ('s \<Rightarrow> Record \<Rightarrow> 's \<times> bool) \<Rightarrow> nat \<Rightarrow> 's \<Rightarrow> 's \<times> iter_end"
where
  "records_loop data yield pos s =
     (if pos < length data then
        (case read_record data pos of
           Stop \<Rightarrow> (s, Returned)
         | Crash \<Rightarrow> (s, Panicked)
         | Got r pos' \<Rightarrow>
             (case yield s r of
                (s', continue) \<Rightarrow>
                  if continue then records_loop data yield pos' s' else (s', Returned)))
      else (s, Returned))"
  by pat_completeness auto
termination
  by (relation "measure (\<lambda>(data, yield, pos, s). length data - pos)")
    (auto dest!: read_record_advances)

declare records_loop.simps [simp del]

definition Records :: "bytes \<Rightarrow> ('s \<Rightarrow> Record \<Rightarrow> 's \<times> bool) \<Rightarrow> 's \<Rightarrow> 's \<times> iter_end" where
  "Records data yield s =
     (if length data = 0 then (s, Returned)
      else
        (let (version, n) = uvarint data in
         if n \<le> 0 then (s, Returned)
         else if version \<noteq> currentVersion then (s, Returned)
         else records_loop data yield (nat n) s))"

text \<open>\<^verbatim>\<open>for r := range Records(data)\<close> with a body that never breaks out, collecting the records.\<close>

definition collect :: "bytes \<Rightarrow> Record list \<times> iter_end" where
  "collect data = Records data (\<lambda>acc r. (acc @ [r], True)) []"

section \<open>Size of the output\<close>

lemma length_write_record:
  "length (write_record r) =
     put_uvarint (key_len r) + length (Key r) +
     (if Tombstone r then 0 else put_uvarint (value_len r) + length (Value r))"
  by (simp add: write_record_def put_uvarint_length)

lemma compute_size_loop_eq:
  "go_int (compute_size_loop sz rs) = go_int (sz + int (length (concat (map write_record rs))))"
proof (induction rs arbitrary: sz)
  case (Cons r rs)
  then show ?case
    by (simp add: Let_def length_write_record go_int_add add.assoc)
qed simp

lemma compute_size_loop_wrapped:
  "go_int sz = sz \<Longrightarrow> go_int (compute_size_loop sz rs) = compute_size_loop sz rs"
  by (induction rs arbitrary: sz) (auto simp: Let_def go_int_idem)

lemma put_uvarint_le: "put_uvarint v \<le> 10"
  using append_uvarint_length_le [of v] by (simp add: put_uvarint_length MaxVarintLen64_def)

lemma ComputeSize_wrapped_length: "ComputeSize rs = go_int (int (length (WriteRecords rs)))"
proof -
  have "int (put_uvarint currentVersion) < 2 ^ 63" using put_uvarint_le [of currentVersion] by simp
  then have "go_int (int (put_uvarint currentVersion)) = int (put_uvarint currentVersion)"
    by (rule go_int_nat)
  then show ?thesis
    using compute_size_loop_eq [of "int (put_uvarint currentVersion)" rs]
    by (simp add: ComputeSize_def compute_size_loop_wrapped WriteRecords_concat put_uvarint_length)
qed

section \<open>Iterating with any consumer\<close>

text \<open>A consumer run over a list of records, stopping when \<^verbatim>\<open>yield\<close> returns false.\<close>

fun run_yield :: "('s \<Rightarrow> Record \<Rightarrow> 's \<times> bool) \<Rightarrow> 's \<Rightarrow> Record list \<Rightarrow> 's \<times> bool" where
  "run_yield yield s [] = (s, True)"
| "run_yield yield s (r # rs) =
     (case yield s r of (s', continue) \<Rightarrow> if continue then run_yield yield s' rs else (s', False))"

text \<open>The records from offset \<open>pos\<close> on and how the reader ends, without a consumer.\<close>

function parse_from :: "bytes \<Rightarrow> nat \<Rightarrow> Record list \<times> iter_end" where
  "parse_from data pos =
     (if pos < length data then
        (case read_record data pos of
           Stop \<Rightarrow> ([], Returned)
         | Crash \<Rightarrow> ([], Panicked)
         | Got r pos' \<Rightarrow> (case parse_from data pos' of (rs, e) \<Rightarrow> (r # rs, e)))
      else ([], Returned))"
  by pat_completeness auto
termination
  by (relation "measure (\<lambda>(data, pos). length data - pos)") (auto dest!: read_record_advances)

declare parse_from.simps [simp del]

definition parse :: "bytes \<Rightarrow> Record list \<times> iter_end" where
  "parse data =
     (let (version, n) = uvarint data in
      if n \<le> 0 \<or> version \<noteq> currentVersion then ([], Returned) else parse_from data (nat n))"

lemma records_loop_parse_from:
  "records_loop data yield pos s =
     (case parse_from data pos of
        (rs, e) \<Rightarrow> (case run_yield yield s rs of (s', fin) \<Rightarrow> (s', if fin then e else Returned)))"
proof (induction data yield pos s rule: records_loop.induct)
  case (1 data yield pos s)
  then show ?case
    by (subst records_loop.simps, subst parse_from.simps)
      (auto split: read_step.splits prod.splits)
qed

lemma Records_parse:
  "Records data yield s =
     (case parse data of
        (rs, e) \<Rightarrow> (case run_yield yield s rs of (s', fin) \<Rightarrow> (s', if fin then e else Returned)))"
  by (cases data) (auto simp: Records_def parse_def records_loop_parse_from split: prod.splits)

lemma run_yield_append:
  "run_yield (\<lambda>acc r. (acc @ [r], True)) acc rs = (acc @ rs, True)"
  by (induction rs arbitrary: acc) auto

lemma run_yield_fold:
  "run_yield (\<lambda>s r. (f s r, True)) s rs = (foldl f s rs, True)"
  by (induction rs arbitrary: s) auto

lemma collect_parse: "collect data = parse data"
  by (auto simp: collect_def Records_parse run_yield_append split: prod.splits)

lemma Records_fold:
  "Records data (\<lambda>s r. (f s r, True)) s = (foldl f s (fst (collect data)), snd (collect data))"
  by (auto simp: Records_parse run_yield_fold collect_parse split: prod.splits)

section \<open>Reading what was written\<close>

text \<open>A tombstone's value is not written, so it reads back empty.\<close>

definition stored :: "Record \<Rightarrow> Record" where
  "stored r = (if Tombstone r then r\<lparr>Value := []\<rparr> else r)"

lemma sint_u64: "sint w = go_int (int (unat w))" for w :: u64
  by (simp add: sint_uint go_int_def)

lemma sint_of_length: "n < 2 ^ 63 \<Longrightarrow> sint (word_of_nat n :: u64) = int n"
  by (simp add: sint_u64 unat_of_nat take_bit_nat_eq_self)

lemma bit_key_len:
  "bit (key_len r) n \<longleftrightarrow>
     (if n = 0 then Tombstone r else n < 64 \<and> bit (length (Key r)) (n - 1))"
proof -
  have "push_bit 1 w = 2 * w" for w :: u64 by simp
  then have "key_len r =
      (if Tombstone r then 2 * word_of_nat (length (Key r)) OR 1
       else 2 * word_of_nat (length (Key r)))"
    by (simp only: key_len_def tombstoneBit_def Let_def)
  then show ?thesis
    by (auto simp: bit_or_iff bit_double_iff bit_1_iff bit_of_nat_iff)
qed

lemma key_len_tombstone: "key_len r AND tombstoneBit \<noteq> 0 \<longleftrightarrow> Tombstone r"
proof -
  have "bit (key_len r) 0 \<longleftrightarrow> Tombstone r"
    by (simp add: bit_key_len)
  moreover have "key_len r AND 1 = of_bool (bit (key_len r) 0)"
    by (simp add: and_one_eq bit_0 mod2_eq_if)
  ultimately show ?thesis by (simp add: tombstoneBit_def)
qed

lemma drop_bit_key_len:
  assumes "length (Key r) < 2 ^ 63"
  shows "drop_bit 1 (key_len r) = word_of_nat (length (Key r))"
proof (rule bit_eqI)
  fix n assume "possible_bit TYPE(u64) n"
  have "\<not> bit (length (Key r)) 63"
    using assms by (simp add: bit_iff_odd)
  then show "bit (drop_bit 1 (key_len r)) n = bit (word_of_nat (length (Key r)) :: u64) n"
    by (cases "n = 63") (auto simp: bit_drop_bit_eq bit_key_len bit_of_nat_iff)
qed

lemma key_len_value:
  "length (Key r) < 2 ^ 63 \<Longrightarrow> sint (drop_bit 1 (key_len r)) = int (length (Key r))"
  by (simp add: drop_bit_key_len sint_of_length del: One_nat_def)

lemma go_slice_middle:
  "go_slice (pre @ mid @ post) (int (length pre)) (int (length pre) + int (length mid)) = Some mid"
  by (simp add: go_slice_def)

lemma read_value_written:
  assumes "length data < 2 ^ 63"
    and "data = pre @ (append_uvarint (word_of_nat (length v)) @ v) @ post"
  shows "read_value data key (length pre) =
    Got \<lparr>Key = key, Value = v, Tombstone = False\<rparr>
      (length pre + length (append_uvarint (word_of_nat (length v))) + length v)"
proof -
  let ?u = "append_uvarint (word_of_nat (length v))"
  have bytes: "uvarint (drop (length pre) data) = (word_of_nat (length v), int (length ?u))"
    using assms(2) by simp
  have hi: "go_int (int (length (pre @ ?u)) + sint (word_of_nat (length v) :: u64)) =
      int (length (pre @ ?u)) + int (length v)"
    using assms by (simp add: sint_of_length go_int_id)
  have slice: "go_slice data (int (length (pre @ ?u))) (int (length (pre @ ?u)) + int (length v)) =
      Some v"
    using go_slice_middle [of "pre @ ?u" v post] assms(2) by simp
  show ?thesis
    using bytes hi slice assms by (simp add: read_value_def Let_def nat_add_distrib)
qed

lemma read_record_written:
  assumes len: "length data < 2 ^ 63" and data: "data = pre @ write_record r @ post"
  shows "read_record data (length pre) = Got (stored r) (length (pre @ write_record r))"
proof -
  let ?u = "append_uvarint (key_len r)" and ?k = "bytes_of (Key r)"
  let ?v = "if Tombstone r then [] else append_uvarint (value_len r) @ Value r"
  have d: "data = (pre @ ?u) @ ?k @ (?v @ post)"
    using data by (simp add: write_record_def)
  have key: "length (Key r) < 2 ^ 63"
    using len unfolding d by simp
  have bytes: "uvarint (drop (length pre) data) = (key_len r, int (length ?u))"
    using d by simp
  have hi: "go_int (int (length (pre @ ?u)) + sint (drop_bit 1 (key_len r))) =
      int (length (pre @ ?u)) + int (length ?k)"
    using key len unfolding d by (simp add: key_len_value go_int_id del: One_nat_def)
  have slice: "go_slice data (int (length (pre @ ?u))) (int (length (pre @ ?u)) + int (length ?k)) =
      Some ?k"
    unfolding d by (rule go_slice_middle)
  have step: "read_record data (length pre) =
      (if Tombstone r then Got \<lparr>Key = Key r, Value = [], Tombstone = True\<rparr>
         (length (pre @ ?u) + length ?k)
       else read_value data (Key r) (length ((pre @ ?u) @ ?k)))"
    using bytes hi slice d
    by (simp add: read_record_def Let_def key_len_tombstone nat_add_distrib add.assoc)
  show ?thesis
  proof (cases "Tombstone r")
    case True
    then show ?thesis using step by (simp add: stored_def write_record_def)
  next
    case False
    then have "read_value data (Key r) (length ((pre @ ?u) @ ?k)) =
      Got \<lparr>Key = Key r, Value = Value r, Tombstone = False\<rparr>
        (length ((pre @ ?u) @ ?k) + length (append_uvarint (value_len r)) + length (Value r))"
      unfolding value_len_def
      by (intro read_value_written [OF len, where post = post]) (simp add: d value_len_def)
    then show ?thesis
      using False step by (simp add: stored_def write_record_def)
  qed
qed

lemma parse_from_written:
  "length (pre @ concat (map write_record rs) @ post) < 2 ^ 63 \<Longrightarrow>
   parse_from (pre @ concat (map write_record rs) @ post) (length pre) =
     (case parse_from (pre @ concat (map write_record rs) @ post)
             (length (pre @ concat (map write_record rs))) of
        (rs', e) \<Rightarrow> (map stored rs @ rs', e))"
proof (induction rs arbitrary: pre)
  case Nil
  then show ?case by simp
next
  case (Cons r rs)
  let ?data = "pre @ concat (map write_record (r # rs)) @ post"
  have read: "read_record ?data (length pre) = Got (stored r) (length (pre @ write_record r))"
    using Cons.prems
    by (intro read_record_written [where post = "concat (map write_record rs) @ post"]) auto
  have "write_record r \<noteq> []" by (simp add: write_record_def)
  then have nonempty: "length pre < length ?data" by simp
  have "parse_from ?data (length (pre @ write_record r)) =
      (case parse_from ?data (length (pre @ concat (map write_record (r # rs)))) of
         (rs', e) \<Rightarrow> (map stored rs @ rs', e))"
    using Cons.IH [of "pre @ write_record r"] Cons.prems by simp
  then show ?case
    using read nonempty
    by (subst parse_from.simps) (simp split: prod.splits)
qed

lemma collect_written_append:
  assumes "length (WriteRecords rs @ post) < 2 ^ 63"
  shows "collect (WriteRecords rs @ post) =
    (case parse_from (WriteRecords rs @ post) (length (WriteRecords rs)) of
       (rs', e) \<Rightarrow> (map stored rs @ rs', e))"
proof -
  have "parse (WriteRecords rs @ post) =
      parse_from (WriteRecords rs @ post) (length (append_uvarint currentVersion))"
    by (simp add: parse_def WriteRecords_concat)
  then show ?thesis
    using parse_from_written [of "append_uvarint currentVersion" rs post] assms
    by (simp add: collect_parse WriteRecords_concat)
qed

lemma parse_from_end: "length data \<le> pos \<Longrightarrow> parse_from data pos = ([], Returned)"
  by (subst parse_from.simps) simp

lemma collect_WriteRecords:
  "length (WriteRecords rs) < 2 ^ 63 \<Longrightarrow> collect (WriteRecords rs) = (map stored rs, Returned)"
  using collect_written_append [of rs "[]"] by (simp add: parse_from_end)

lemma stored_simps [simp]:
  "Key (stored r) = Key r" "Tombstone (stored r) = Tombstone r"
  "Value (stored r) = (if Tombstone r then [] else Value r)"
  by (simp_all add: stored_def)

section \<open>Tables as maps\<close>

text \<open>What a table says of a key: nothing, that it is deleted, or its value.\<close>

definition entry :: "Record list \<Rightarrow> string \<Rightarrow> bytes option option" where
  "entry rs k =
     map_option (\<lambda>r. if Tombstone r then None else Some (Value r)) (find (\<lambda>r. Key r = k) rs)"

lemma entry_simps [simp]:
  "entry [] k = None"
  "entry (r # rs) k =
     (if Key r = k then Some (if Tombstone r then None else Some (Value r)) else entry rs k)"
  by (simp_all add: entry_def)

lemma entry_stored [simp]: "entry (map stored rs) k = entry rs k"
  by (induction rs) auto

lemma entry_None_iff: "entry rs k = None \<longleftrightarrow> k \<notin> Key ` set rs"
  by (induction rs) auto

lemma entry_member:
  "distinct (map Key rs) \<Longrightarrow> r \<in> set rs \<Longrightarrow>
   entry rs (Key r) = Some (if Tombstone r then None else Some (Value r))"
  by (induction rs) (auto simp: rev_image_eqI)

lemma entry_SomeD:
  "entry rs k = Some x \<Longrightarrow> \<exists>r \<in> set rs. Key r = k \<and> x = (if Tombstone r then None else Some (Value r))"
  by (induction rs) (auto split: if_splits)

text \<open>The table a file holds: its records, if reading ends normally and no key repeats.\<close>

definition table_of :: "bytes \<Rightarrow> Record list option" where
  "table_of data =
     (case collect data of
        (rs, Returned) \<Rightarrow> if distinct (map Key rs) then Some rs else None
      | (_, Panicked) \<Rightarrow> None)"

lemma table_of_WriteRecords:
  "length (WriteRecords rs) < 2 ^ 63 \<Longrightarrow> distinct (map Key rs) \<Longrightarrow>
   table_of (WriteRecords rs) = Some (map stored rs)"
  by (simp add: table_of_def collect_WriteRecords comp_def)

lemma table_of_SomeD:
  "table_of data = Some rs \<Longrightarrow> collect data = (rs, Returned) \<and> distinct (map Key rs)"
  by (auto simp: table_of_def split: prod.splits iter_end.splits if_splits)

section \<open>Truncated and corrupt files\<close>

lemma read_value_truncated:
  assumes "length (pre @ append_uvarint (word_of_nat (length v)) @ v) < 2 ^ 63"
    and "k < length (append_uvarint (word_of_nat (length v)) @ v)"
  shows "read_value (pre @ take k (append_uvarint (word_of_nat (length v)) @ v)) key (length pre) = Stop"
proof (cases "k < length (append_uvarint (word_of_nat (length v)))")
  case True
  then show ?thesis by (simp add: read_value_def uvarint_truncated)
next
  case False
  then show ?thesis
    using assms by (simp add: read_value_def Let_def sint_of_length go_int_id)
qed

lemma read_record_truncated:
  assumes len: "length (pre @ write_record r) < 2 ^ 63" and k: "k < length (write_record r)"
  shows "read_record (pre @ take k (write_record r)) (length pre) = Stop"
proof -
  let ?u = "append_uvarint (key_len r)" and ?k = "bytes_of (Key r)"
  let ?v = "if Tombstone r then [] else append_uvarint (value_len r) @ Value r"
  let ?data = "pre @ take k (write_record r)"
  have w: "write_record r = ?u @ ?k @ ?v" by (simp add: write_record_def)
  have key: "length (Key r) < 2 ^ 63" using len w by simp
  consider "k < length ?u" | "length ?u \<le> k" "k < length (?u @ ?k)" | "length (?u @ ?k) \<le> k"
    by linarith
  then show ?thesis
  proof cases
    case 1
    then show ?thesis by (simp add: read_record_def w uvarint_truncated)
  next
    case 2
    then show ?thesis
      using key len w
      by (simp add: read_record_def Let_def key_len_value go_int_id del: One_nat_def)
  next
    case 3
    with k w have live: "\<not> Tombstone r" by auto
    let ?w = "append_uvarint (value_len r) @ Value r"
    obtain j where j: "k = length (?u @ ?k) + j" using 3 le_Suc_ex by blast
    have d: "?data = (pre @ ?u) @ ?k @ take j ?w"
      using w j live by simp
    have j_less: "j < length ?w" using k w j live by simp
    have bytes: "uvarint (drop (length pre) ?data) = (key_len r, int (length ?u))"
      unfolding d by simp
    have hi: "go_int (int (length (pre @ ?u)) + sint (drop_bit 1 (key_len r))) =
        int (length (pre @ ?u)) + int (length ?k)"
      using key len w by (simp add: key_len_value go_int_id del: One_nat_def)
    have slice: "go_slice ?data (int (length (pre @ ?u)))
        (int (length (pre @ ?u)) + int (length ?k)) = Some ?k"
      unfolding d by (rule go_slice_middle)
    have "read_record ?data (length pre) = read_value ?data (Key r) (length ((pre @ ?u) @ ?k))"
      using bytes hi slice d live
      by (simp add: read_record_def Let_def key_len_tombstone nat_add_distrib add.assoc)
    also have "\<dots> = Stop"
      unfolding d append_assoc [symmetric] value_len_def
      by (rule read_value_truncated) (use len w live j_less in \<open>simp_all add: value_len_def\<close>)
    finally show ?thesis .
  qed
qed

lemma take_concat_records:
  "n < length (concat (map write_record rs)) \<Longrightarrow>
   \<exists>m k. m < length rs \<and> k < length (write_record (rs ! m)) \<and>
     take n (concat (map write_record rs)) =
       concat (map write_record (take m rs)) @ take k (write_record (rs ! m))"
proof (induction rs arbitrary: n)
  case (Cons r rs)
  show ?case
  proof (cases "n < length (write_record r)")
    case True
    then show ?thesis by (intro exI [of _ 0] exI [of _ n]) simp
  next
    case False
    with Cons.prems have "n - length (write_record r) < length (concat (map write_record rs))"
      by auto
    from Cons.IH [OF this] obtain m k where
      "m < length rs" "k < length (write_record (rs ! m))"
      "take (n - length (write_record r)) (concat (map write_record rs)) =
         concat (map write_record (take m rs)) @ take k (write_record (rs ! m))" by blast
    with False show ?thesis
      by (intro exI [of _ "Suc m"] exI [of _ k]) simp
  qed
qed simp

lemma collect_truncated_body:
  assumes "length (WriteRecords rs) < 2 ^ 63" and "m < length rs"
    and "k < length (write_record (rs ! m))"
  shows "collect (WriteRecords (take m rs) @ take k (write_record (rs ! m))) =
    (map stored (take m rs), Returned)"
proof -
  let ?pre = "WriteRecords (take m rs)" and ?r = "rs ! m"
  have split: "rs = take m rs @ ?r # drop (Suc m) rs"
    using assms(2) by (simp add: id_take_nth_drop)
  have "WriteRecords rs = ?pre @ write_record ?r @ concat (map write_record (drop (Suc m) rs))"
    by (subst split) (simp add: WriteRecords_concat)
  then have len: "length (?pre @ write_record ?r) < 2 ^ 63" using assms(1) by simp
  then have "length (?pre @ take k (write_record ?r)) < 2 ^ 63" by simp
  moreover have "parse_from (?pre @ take k (write_record ?r)) (length ?pre) = ([], Returned)"
    using read_record_truncated [OF len assms(3)]
    by (subst parse_from.simps) simp
  ultimately show ?thesis by (simp add: collect_written_append)
qed

lemma collect_truncated_header:
  assumes "n < length (append_uvarint currentVersion)"
  shows "collect (take n (append_uvarint currentVersion)) = ([], Returned)"
  using assms by (simp add: collect_parse parse_def uvarint_truncated)

lemma sstable_truncated_aux:
  assumes len: "length (WriteRecords rs) < 2 ^ 63"
  shows "\<exists>m. collect (take n (WriteRecords rs)) = (map stored (take m rs), Returned)"
proof -
  let ?h = "append_uvarint currentVersion" and ?body = "concat (map write_record rs)"
  consider "n < length ?h" | "length ?h \<le> n" "n - length ?h < length ?body"
    | "length (WriteRecords rs) \<le> n"
    by (fastforce simp: WriteRecords_concat)
  then show ?thesis
  proof cases
    case 1
    then show ?thesis
      by (intro exI [of _ 0]) (simp add: WriteRecords_concat collect_truncated_header)
  next
    case 2
    from take_concat_records [OF 2(2)] obtain m k where mk:
      "m < length rs" "k < length (write_record (rs ! m))"
      "take (n - length ?h) ?body =
         concat (map write_record (take m rs)) @ take k (write_record (rs ! m))" by blast
    have "take n (WriteRecords rs) = WriteRecords (take m rs) @ take k (write_record (rs ! m))"
      using 2(1) mk(3) by (simp add: WriteRecords_concat)
    then show ?thesis using collect_truncated_body [OF len mk(1,2)] by auto
  next
    case 3
    then show ?thesis using len by (intro exI [of _ "length rs"]) (simp add: collect_WriteRecords)
  qed
qed

text \<open>
  An empty key, then a value length of \<open>2^64 - 1\<close>, which \<^verbatim>\<open>int(valueLen)\<close> turns into -1.
\<close>

definition bad_length :: bytes where
  "bad_length = [0, 255, 255, 255, 255, 255, 255, 255, 255, 255, 1]"

lemma uvarint_zero: "uvarint (0 # rest) = (0, 1)"
  by (simp add: uvarint_def MaxVarintLen64_def)

lemma uvarint_all_ones: "uvarint [255, 255, 255, 255, 255, 255, 255, 255, 255, 1] = (- 1, 10)"
  by (simp add: uvarint_def MaxVarintLen64_def)

lemma read_record_bad_length:
  assumes "length (pre @ bad_length) < 2 ^ 63"
  shows "read_record (pre @ bad_length) (length pre) = Crash"
proof -
  have key: "read_record (pre @ bad_length) (length pre) =
      read_value (pre @ bad_length) [] (length pre + 1)"
    using assms
    by (simp add: read_record_def Let_def bad_length_def uvarint_zero tombstoneBit_def go_slice_def
        go_int_id string_of_def nat_add_distrib)
  have hi: "go_int (10 + int (length pre)) = 10 + int (length pre)"
    using assms by (intro go_int_id) (auto simp: bad_length_def)
  show ?thesis
    unfolding key using hi
    by (simp add: read_value_def Let_def bad_length_def uvarint_all_ones go_slice_def)
qed

section \<open>Properties\<close>

text \<open>C9. Reading a file that \<^verbatim>\<open>WriteRecords\<close> wrote yields exactly the records written, in
  their order and with duplicates, a tombstone's value being dropped, and the reader neither stops
  early nor panics. The bound is that of a Go slice.\<close>

theorem sstable_round_trip:
  "length (WriteRecords rs) < 2 ^ 63 \<Longrightarrow> collect (WriteRecords rs) = (map stored rs, Returned)"
  by (rule collect_WriteRecords)

definition example_records :: "Record list" where
  "example_records =
     [\<lparr>Key = ''k1'', Value = [7, 8], Tombstone = False\<rparr>,
      \<lparr>Key = ''k1'', Value = [9], Tombstone = True\<rparr>]"

lemma example_records_length: "length (WriteRecords example_records) < 2 ^ 63"
  by (simp add: example_records_def WriteRecords_concat length_write_record key_len_def
      value_len_def tombstoneBit_def currentVersion_def put_uvarint_length [symmetric]
      put_uvarint.simps)

theorem sstable_round_trip_witness:
  "collect (WriteRecords example_records) =
     ([\<lparr>Key = ''k1'', Value = [7, 8], Tombstone = False\<rparr>,
       \<lparr>Key = ''k1'', Value = [], Tombstone = True\<rparr>], Returned)"
  using sstable_round_trip [OF example_records_length]
  by (simp add: example_records_def stored_def)

text \<open>C29. \<^verbatim>\<open>ComputeSize\<close> is the length of what \<^verbatim>\<open>WriteRecords\<close> writes, in the 64-bit
  arithmetic of Go's \<^verbatim>\<open>int\<close>.\<close>

theorem compute_size_is_length: "ComputeSize rs = go_int (int (length (WriteRecords rs)))"
  by (rule ComputeSize_wrapped_length)

text \<open>Iterating a file with any consumer is running that consumer over the records the file
  holds until it declines; the reader's own end (return or panic) is reached only by a consumer
  that never declines.\<close>

lemma iterate_any_consumer:
  "Records data yield s =
     (case collect data of
        (rs, e) \<Rightarrow> (case run_yield yield s rs of (s', fin) \<Rightarrow> (s', if fin then e else Returned)))"
  by (simp add: collect_parse Records_parse)

text \<open>C28. A file cut short at any byte reads back, without an error, as the records that lie
  completely before the cut: truncation never yields a damaged record, and is never reported.\<close>

theorem truncated_file_reads_prefix:
  "length (WriteRecords rs) < 2 ^ 63 \<Longrightarrow>
   \<exists>m. collect (take n (WriteRecords rs)) = (map stored (take m rs), Returned)"
  by (rule sstable_truncated_aux)

theorem truncated_file_reads_prefix_witness:
  "\<exists>m. collect (take 4 (WriteRecords example_records)) =
     (map stored (take m example_records), Returned)"
  by (rule truncated_file_reads_prefix [OF example_records_length])

text \<open>C40. The reader is not safe on corrupt input: after any well-formed records, a value length
  that \<^verbatim>\<open>int\<close> turns negative passes the bounds check and the slice expression panics.\<close>

theorem corrupt_length_panics:
  "length (WriteRecords rs @ bad_length) < 2 ^ 63 \<Longrightarrow>
   collect (WriteRecords rs @ bad_length) = (map stored rs, Panicked)"
  by (subst collect_written_append, assumption, subst parse_from.simps)
    (simp add: read_record_bad_length, simp add: bad_length_def)

theorem corrupt_length_panics_witness:
  "collect (WriteRecords [] @ bad_length) = ([], Panicked)"
proof -
  have "length (WriteRecords [] @ bad_length) < 2 ^ 63"
    by (simp add: WriteRecords_concat bad_length_def currentVersion_def append_uvarint.simps)
  from corrupt_length_panics [OF this] show ?thesis by simp
qed

end
