(* ===== verification/GoSort.thy ===== *)
theory GoSort
  imports Prelude
begin

text \<open>
  Go's \<^verbatim>\<open>sort.Slice(x, less)\<close>, which the batcher, the index and the compaction worker call. Its
  documentation promises a permutation of \<^verbatim>\<open>x\<close> in which no element is smaller than an earlier one,
  for any strict weak ordering \<^verbatim>\<open>less\<close>, and says that equal elements may be reordered. This is
  the locale \<open>slice_sort\<close>; every component takes the sorting function as an argument and
  relies on that contract only. \<open>stable_slice_sort\<close> adds that equal elements keep their
  order, which \<^verbatim>\<open>sort.Slice\<close> does not promise. Two instances: insertion sort, which the
  standard library runs on slices of at most 12 elements and which is stable, and a sort that
  reverses equal elements, which the contract allows as well.
\<close>

section \<open>The contract\<close>

type_synonym 'a sorter = "('a \<Rightarrow> 'a \<Rightarrow> bool) \<Rightarrow> 'a list \<Rightarrow> 'a list"

definition strict_weak_on :: "'a set \<Rightarrow> ('a \<Rightarrow> 'a \<Rightarrow> bool) \<Rightarrow> bool" where
  "strict_weak_on A lt \<longleftrightarrow>
     (\<forall>a \<in> A. \<not> lt a a) \<and>
     (\<forall>a \<in> A. \<forall>b \<in> A. \<forall>c \<in> A. lt a b \<longrightarrow> lt b c \<longrightarrow> lt a c) \<and>
     (\<forall>a \<in> A. \<forall>b \<in> A. \<forall>c \<in> A. lt a b \<longrightarrow> lt a c \<or> lt c b)"

abbreviation strict_weak :: "('a \<Rightarrow> 'a \<Rightarrow> bool) \<Rightarrow> bool" where
  "strict_weak \<equiv> strict_weak_on UNIV"

lemma strict_weak_key [simp, intro]:
  "strict_weak_on A (\<lambda>a b. f a < (f b :: 'k::linorder))"
  unfolding strict_weak_on_def by (auto dest: less_trans)

lemma strict_weak_key_desc [simp, intro]:
  "strict_weak_on A (\<lambda>a b. f b < (f a :: 'k::linorder))"
  unfolding strict_weak_on_def by (auto dest: less_trans)

lemma strict_weak_on_subset: "strict_weak_on A lt \<Longrightarrow> B \<subseteq> A \<Longrightarrow> strict_weak_on B lt"
  unfolding strict_weak_on_def by blast

lemma strict_weak_on_cong:
  "(\<And>a b. a \<in> A \<Longrightarrow> b \<in> A \<Longrightarrow> lt a b \<longleftrightarrow> lt' a b) \<Longrightarrow> strict_weak_on A lt \<longleftrightarrow> strict_weak_on A lt'"
  unfolding strict_weak_on_def by (simp cong: ball_cong)

lemma strict_weak_asym: "strict_weak_on A lt \<Longrightarrow> a \<in> A \<Longrightarrow> b \<in> A \<Longrightarrow> lt a b \<Longrightarrow> \<not> lt b a"
  unfolding strict_weak_on_def by blast

lemma strict_weak_neg_trans:
  "strict_weak_on A lt \<Longrightarrow> a \<in> A \<Longrightarrow> b \<in> A \<Longrightarrow> c \<in> A \<Longrightarrow> \<not> lt a c \<Longrightarrow> \<not> lt c b \<Longrightarrow> \<not> lt a b"
  unfolding strict_weak_on_def by blast

locale slice_sort =
  fixes srt :: "'a sorter"
  assumes permutes: "mset (srt lt xs) = mset xs"
    and orders: "strict_weak_on (set xs) lt \<Longrightarrow> sorted_wrt (\<lambda>x y. \<not> lt y x) (srt lt xs)"
begin

lemma set_srt [simp]: "set (srt lt xs) = set xs"
  by (metis permutes set_mset_mset)

lemma length_srt [simp]: "length (srt lt xs) = length xs"
  by (metis permutes size_mset)

lemma srt_Nil_iff [simp]: "srt lt xs = [] \<longleftrightarrow> xs = []"
  by (metis length_0_conv length_srt)

lemma distinct_map_srt [simp]: "distinct (map f (srt lt xs)) \<longleftrightarrow> distinct (map f xs)"
  by (metis mset_map permutes mset_eq_imp_distinct_iff)

lemma sorted_map_srt:
  "sorted (map f (srt (\<lambda>a b. f a < f b) xs))" for f :: "'a \<Rightarrow> 'k::linorder"
  using orders [of xs "\<lambda>a b. f a < f b"] by (simp add: sorted_map not_less)

lemma sorted_map_srt_desc:
  "sorted_wrt (\<lambda>a b. f b \<le> f a) (srt (\<lambda>a b. f b < f a) xs)" for f :: "'a \<Rightarrow> 'k::linorder"
  using orders [of xs "\<lambda>a b. f b < f a"] by (simp add: not_less)

text \<open>A comparison that agrees with that of a key on the elements sorts by the key.\<close>

lemma sorted_map_srt_on:
  fixes f :: "'a \<Rightarrow> 'k::linorder"
  assumes "\<And>a b. a \<in> set xs \<Longrightarrow> b \<in> set xs \<Longrightarrow> lt a b \<longleftrightarrow> f a < f b"
  shows "sorted (map f (srt lt xs))"
proof -
  have "strict_weak_on (set xs) lt"
    using strict_weak_on_cong [of "set xs" lt "\<lambda>a b. f a < f b"] assms by simp
  from orders [OF this] have "sorted_wrt (\<lambda>x y. f x \<le> f y) (srt lt xs)"
    by (rule sorted_wrt_mono_rel [rotated]) (simp add: assms not_less)
  then show ?thesis by (simp add: sorted_map)
qed

text \<open>Where the keys are distinct, the contract leaves no choice.\<close>

lemma srt_distinct_keys:
  "distinct (map f xs) \<Longrightarrow> srt (\<lambda>a b. f a < f b) xs = sort_key f xs"
  for f :: "'a \<Rightarrow> 'k::linorder"
  by (rule sorted_map_unique [where f = f]) (auto simp: permutes sorted_map_srt)

lemma srt_distinct_keys_desc:
  fixes f :: "'a \<Rightarrow> 'k::linorder"
  assumes "distinct (map f xs)"
  shows "srt (\<lambda>a b. f b < f a) xs = rev (sort_key f xs)"
proof -
  have "sorted (map f (rev (srt (\<lambda>a b. f b < f a) xs)))"
    using sorted_map_srt_desc [of f xs] by (simp add: sorted_map sorted_wrt_rev)
  then have "rev (srt (\<lambda>a b. f b < f a) xs) = sort_key f xs"
    using assms by (intro sorted_map_unique [where f = f]) (auto simp: permutes rev_map [symmetric])
  then show ?thesis by (metis rev_rev_ident)
qed

end

locale stable_slice_sort = slice_sort +
  assumes stable: "strict_weak lt \<Longrightarrow>
    filter (\<lambda>y. \<not> lt x y \<and> \<not> lt y x) (srt lt xs) =
    filter (\<lambda>y. \<not> lt x y \<and> \<not> lt y x) xs"
begin

lemma filter_srt: "filter (\<lambda>y. f y = k) (srt (\<lambda>a b. f a < f b) xs) = filter (\<lambda>y. f y = k) xs"
  for f :: "'a \<Rightarrow> 'k::linorder"
proof (cases "\<exists>x \<in> set xs. f x = k")
  case True
  then obtain x where x: "f x = k" by blast
  have "(\<lambda>y. f y = k) = (\<lambda>y. \<not> f x < f y \<and> \<not> f y < f x)" using x by (auto simp: fun_eq_iff)
  then show ?thesis using stable [of "\<lambda>a b. f a < f b" x xs] by simp
next
  case False
  then show ?thesis by (simp add: filter_False)
qed

end

section \<open>Insertion sort\<close>

text \<open>
  The inner loop swaps the new element to the left while it is smaller than its neighbour. The
  sorted prefix is kept in reverse, so that its head is the new element's neighbour.
\<close>

fun sink :: "('a \<Rightarrow> 'a \<Rightarrow> bool) \<Rightarrow> 'a \<Rightarrow> 'a list \<Rightarrow> 'a list" where
  "sink lt x [] = [x]"
| "sink lt x (y # ys) = (if lt x y then y # sink lt x ys else x # y # ys)"

definition insertion_sort :: "'a sorter" where
  "insertion_sort lt xs = rev (fold (sink lt) xs [])"

lemma mset_sink [simp]: "mset (sink lt x ys) = add_mset x (mset ys)"
  by (induction ys) auto

lemma mset_fold_sink: "mset (fold (sink lt) xs r) = mset xs + mset r"
  by (induction xs arbitrary: r) auto

lemma set_sink [simp]: "set (sink lt x ys) = insert x (set ys)"
  by (induction ys) auto

lemma sink_sorted:
  assumes "strict_weak_on (insert x (set ys)) lt" and "sorted_wrt (\<lambda>a b. \<not> lt a b) ys"
  shows "sorted_wrt (\<lambda>a b. \<not> lt a b) (sink lt x ys)"
  using assms
proof (induction ys)
  case (Cons y ys)
  show ?case
  proof (cases "lt x y")
    case True
    have "strict_weak_on (insert x (set ys)) lt"
      using Cons.prems(1) by (rule strict_weak_on_subset) auto
    then show ?thesis
      using True Cons strict_weak_asym [OF Cons.prems(1), of x y] by auto
  next
    case False
    then have "\<forall>b \<in> set ys. \<not> lt x b"
      using Cons.prems(2) strict_weak_neg_trans [OF Cons.prems(1), of x _ y] by auto
    with False Cons.prems show ?thesis by simp
  qed
qed simp

lemma fold_sink_sorted:
  "strict_weak_on (set xs \<union> set r) lt \<Longrightarrow> sorted_wrt (\<lambda>a b. \<not> lt a b) r \<Longrightarrow>
   sorted_wrt (\<lambda>a b. \<not> lt a b) (fold (sink lt) xs r)"
proof (induction xs arbitrary: r)
  case (Cons x xs)
  have "strict_weak_on (insert x (set r)) lt"
    using Cons.prems(1) by (rule strict_weak_on_subset) auto
  from sink_sorted [OF this Cons.prems(2)] Cons show ?case by simp
qed simp

lemma filter_sink:
  assumes sw: "strict_weak lt"
  shows "filter (\<lambda>y. \<not> lt z y \<and> \<not> lt y z) (sink lt x ys) =
    filter (\<lambda>y. \<not> lt z y \<and> \<not> lt y z) (x # ys)"
proof (induction ys)
  case (Cons y ys)
  have "lt x y \<Longrightarrow> \<not> lt z y \<Longrightarrow> \<not> lt x z \<Longrightarrow> False"
    using strict_weak_neg_trans [OF sw, of x y z] by blast
  with Cons show ?case by (auto split: if_splits)
qed simp

lemma filter_fold_sink:
  assumes "strict_weak lt"
  shows "filter (\<lambda>y. \<not> lt z y \<and> \<not> lt y z) (fold (sink lt) xs r) =
    rev (filter (\<lambda>y. \<not> lt z y \<and> \<not> lt y z) xs) @ filter (\<lambda>y. \<not> lt z y \<and> \<not> lt y z) r"
  by (induction xs arbitrary: r) (auto simp: filter_sink [OF assms])

interpretation insertion: stable_slice_sort insertion_sort
proof
  show "mset (insertion_sort lt xs) = mset xs" for lt :: "'a \<Rightarrow> 'a \<Rightarrow> bool" and xs
    by (simp add: insertion_sort_def mset_fold_sink)
  show "strict_weak_on (set xs) lt \<Longrightarrow> sorted_wrt (\<lambda>x y. \<not> lt y x) (insertion_sort lt xs)"
    for lt :: "'a \<Rightarrow> 'a \<Rightarrow> bool" and xs
    by (simp add: insertion_sort_def sorted_wrt_rev fold_sink_sorted)
  show "strict_weak lt \<Longrightarrow>
    filter (\<lambda>y. \<not> lt x y \<and> \<not> lt y x) (insertion_sort lt xs) =
    filter (\<lambda>y. \<not> lt x y \<and> \<not> lt y x) xs" for lt :: "'a \<Rightarrow> 'a \<Rightarrow> bool" and x xs
    by (simp add: insertion_sort_def rev_filter [symmetric] filter_fold_sink)
qed

section \<open>A sort that reverses equal elements\<close>

definition reversing_sort :: "'a sorter" where
  "reversing_sort lt xs = insertion_sort lt (rev xs)"

interpretation reversing: slice_sort reversing_sort
  by standard (auto simp: reversing_sort_def insertion.permutes intro: insertion.orders)

end
