(* ===== verification/ObjStore.thy ===== *)
theory ObjStore
  imports Prelude
begin

text \<open>
  The object store, \<^verbatim>\<open>objstore.Bucket\<close> of a third-party package: the code uploads whole objects
  and reads them back, in two calls that can fail: \<^verbatim>\<open>Get\<close> opens a reader, which is then read to
  its end. The call \<open>fetch\<close> is both: its outer result is that of \<^verbatim>\<open>Get\<close>, the inner one that of
  reading. Components take the two calls as arguments; what they rely on is the locale
  \<open>object_store\<close>, where \<open>contents\<close> is what the store holds. A successful upload has stored
  the object, a failed one may or may not have, and a successful read returns the object stored.
  The instance is the in-memory bucket of the package (the tests use it), with a script of
  outcomes so that calls can fail.
\<close>

type_synonym 'b upload_fun = "string \<Rightarrow> bytes \<Rightarrow> 'b \<Rightarrow> go_error option \<times> 'b"
type_synonym 'b fetch_fun = "string \<Rightarrow> 'b \<Rightarrow> bytes result result \<times> 'b"

locale object_store =
  fixes upload :: "'b upload_fun"
    and fetch :: "'b fetch_fun"
    and contents :: "'b \<Rightarrow> string \<Rightarrow> bytes option"
  assumes upload_ok: "upload p x b = (None, b') \<Longrightarrow> contents b' = (contents b)(p \<mapsto> x)"
    and upload_error: "upload p x b = (Some e, b') \<Longrightarrow>
      contents b' = contents b \<or> contents b' = (contents b)(p \<mapsto> x)"
    and fetch_ok: "fetch p b = (Inr (Inr x), b') \<Longrightarrow> contents b p = Some x"
    and fetch_frame: "contents (snd (fetch p b)) = contents b"
begin

lemma upload_other: "q \<noteq> p \<Longrightarrow> contents (snd (upload p x b)) q = contents b q"
  using upload_ok [of p x b] upload_error [of p x b]
  by (cases "upload p x b"; cases "fst (upload p x b)") auto

lemma upload_stored: "upload p x b = (None, b') \<Longrightarrow> contents b' p = Some x"
  by (simp add: upload_ok)

lemma fetch_result:
  "fetch p b = (r, b') \<Longrightarrow> contents b' = contents b \<and> (\<forall>x. r = Inr (Inr x) \<longrightarrow> contents b p = Some x)"
  using fetch_ok fetch_frame [of p b] by auto

lemma upload_then_fetch:
  assumes "upload p x b = (None, b')" and "fetch p b' = (Inr (Inr y), b'')"
  shows "y = x"
  using upload_stored [OF assms(1)] fetch_ok [OF assms(2)] by simp

end

section \<open>The in-memory bucket\<close>

datatype store_outcome = StoreServed | StoreRefused go_error | StoreReplyLost go_error

record mem_bucket =
  script :: "store_outcome list"
  objects :: "(string \<times> bytes) list"

definition mem_upload :: "mem_bucket upload_fun" where
  "mem_upload p x b =
     (let b' = b\<lparr>objects := AList.update p x (objects b), script := tl (script b)\<rparr> in
      case script b of
        [] \<Rightarrow> (None, b')
      | StoreServed # _ \<Rightarrow> (None, b')
      | StoreRefused e # _ \<Rightarrow> (Some e, b\<lparr>script := tl (script b)\<rparr>)
      | StoreReplyLost e # _ \<Rightarrow> (Some e, b'))"

definition mem_fetch :: "mem_bucket fetch_fun" where
  "mem_fetch p b =
     (let b' = b\<lparr>script := tl (script b)\<rparr>;
          found = (case map_of (objects b) p of
                     None \<Rightarrow> Inl (ErrText ''inmem: object not found'')
                   | Some x \<Rightarrow> Inr (Inr x)) in
      case script b of
        [] \<Rightarrow> (found, b')
      | StoreServed # _ \<Rightarrow> (found, b')
      | StoreRefused e # _ \<Rightarrow> (Inl e, b')
      | StoreReplyLost e # _ \<Rightarrow> (Inr (Inl e), b'))"

definition mem_contents :: "mem_bucket \<Rightarrow> string \<Rightarrow> bytes option" where
  "mem_contents b = map_of (objects b)"

interpretation mem: object_store mem_upload mem_fetch mem_contents
proof
  fix p x e and b b' :: mem_bucket
  show "mem_upload p x b = (None, b') \<Longrightarrow> mem_contents b' = (mem_contents b)(p \<mapsto> x)"
    by (auto simp: mem_upload_def mem_contents_def update_conv' Let_def
        split: list.splits store_outcome.splits)
  show "mem_upload p x b = (Some e, b') \<Longrightarrow>
      mem_contents b' = mem_contents b \<or> mem_contents b' = (mem_contents b)(p \<mapsto> x)"
    by (auto simp: mem_upload_def mem_contents_def update_conv' Let_def
        split: list.splits store_outcome.splits)
  show "mem_fetch p b = (Inr (Inr x), b') \<Longrightarrow> mem_contents b p = Some x"
    by (auto simp: mem_fetch_def mem_contents_def Let_def
        split: list.splits store_outcome.splits option.splits)
  show "mem_contents (snd (mem_fetch p b)) = mem_contents b"
    by (auto simp: mem_fetch_def mem_contents_def Let_def
        split: list.splits store_outcome.splits)
qed

end
