(* ===== verification/Database.thy ===== *)
theory Database
  imports Prelude
begin

text \<open>
  \<^verbatim>\<open>internal/database\<close>: the rows, the queries of the \<^verbatim>\<open>.sql\<close> files (as \<^verbatim>\<open>sqlc\<close> compiled them
  into \<^verbatim>\<open>*.sql.go\<close>), the statement triggers of the migration and the notification loop of
  \<^verbatim>\<open>watch.go\<close>. A table is the list of its rows in physical order, which no query promises; a
  \<^verbatim>\<open>BIGSERIAL\<close> column has its sequence beside the table. A query that can fail because of the
  connection is failed by its caller, so the definitions here are the statements' effects.
\<close>

section \<open>Messages and rows\<close>

record WALAttrs =
  Path :: string
  CreatedAt :: int
  SizeBytes :: int
  MinKey :: string
  MaxKey :: string

record RunAttrs =
  RunPath :: string

record PartitionAttrs =
  Runs :: "RunAttrs list"

record WriteAheadLog =
  SeqNo :: int
  State :: string
  Attrs :: WALAttrs

record SharedRun =
  RunSeqNo :: int
  RunRowAttrs :: RunAttrs

record Partition =
  InclusiveStartKey :: string
  PartitionRowAttrs :: PartitionAttrs

record DB =
  write_ahead_logs :: "WriteAheadLog list"
  wal_seq :: int
  shared_runs :: "SharedRun list"
  run_seq :: int
  partitions :: "Partition list"

text \<open>The database after the migration: one partition, which starts at the empty key.\<close>

definition migrated :: DB where
  "migrated =
     \<lparr>write_ahead_logs = [], wal_seq = 1, shared_runs = [], run_seq = 1,
      partitions = [\<lparr>InclusiveStartKey = '''', PartitionRowAttrs = \<lparr>Runs = []\<rparr>\<rparr>]\<rparr>"

section \<open>Queries\<close>

definition AddWriteAheadLog :: "WALAttrs \<Rightarrow> DB \<Rightarrow> DB" where
  "AddWriteAheadLog attrs db =
     db\<lparr>write_ahead_logs :=
          write_ahead_logs db @ [\<lparr>SeqNo = wal_seq db, State = ''NEW'', Attrs = attrs\<rparr>],
        wal_seq := wal_seq db + 1\<rparr>"

definition GetWriteAheadLogs :: "DB \<Rightarrow> WriteAheadLog list" where
  "GetWriteAheadLogs db = write_ahead_logs db"

definition GetWriteAheadLogsToCompact :: "DB \<Rightarrow> WriteAheadLog list" where
  "GetWriteAheadLogsToCompact db = filter (\<lambda>w. State w = ''NEW'') (write_ahead_logs db)"

text \<open>
  \<^verbatim>\<open>COUNT(*) = array_length(seq_nos, 1)\<close>: the length of an empty array is NULL, which makes the
  comparison NULL (here None) and every \<^verbatim>\<open>WHERE\<close> on it fail.
\<close>

definition all_exist :: "'row list \<Rightarrow> int list \<Rightarrow> bool option" where
  "all_exist rows seq_nos = (if seq_nos = [] then None else Some (length rows = length seq_nos))"

definition MarkWriteAheadLogsAsCompacting :: "int list \<Rightarrow> DB \<Rightarrow> bool \<times> DB" where
  "MarkWriteAheadLogsAsCompacting seq_nos db =
     (let matches = (\<lambda>w. SeqNo w \<in> set seq_nos \<and> State w = ''NEW'');
          rows = filter matches (write_ahead_logs db);
          valid = all_exist rows seq_nos = Some True;
          updated = (if valid then rows else [])
      in (valid \<and> updated \<noteq> [],
          db\<lparr>write_ahead_logs :=
               map (\<lambda>w. if valid \<and> matches w then w\<lparr>State := ''COMPACTING''\<rparr> else w)
                 (write_ahead_logs db)\<rparr>))"

definition DeleteWriteAheadLogs :: "int list \<Rightarrow> DB \<Rightarrow> bool \<times> DB" where
  "DeleteWriteAheadLogs seq_nos db =
     (let matches = (\<lambda>w. SeqNo w \<in> set seq_nos \<and> State w = ''COMPACTING'');
          rows = filter matches (write_ahead_logs db);
          valid = all_exist rows seq_nos = Some True;
          deleted = (if valid then rows else [])
      in (valid \<and> deleted \<noteq> [],
          db\<lparr>write_ahead_logs :=
               filter (\<lambda>w. \<not> (valid \<and> matches w)) (write_ahead_logs db)\<rparr>))"

definition AddSharedRun :: "RunAttrs \<Rightarrow> DB \<Rightarrow> DB" where
  "AddSharedRun attrs db =
     db\<lparr>shared_runs := shared_runs db @ [\<lparr>RunSeqNo = run_seq db, RunRowAttrs = attrs\<rparr>],
        run_seq := run_seq db + 1\<rparr>"

definition GetSharedRuns :: "DB \<Rightarrow> SharedRun list" where
  "GetSharedRuns db = shared_runs db"

definition DeleteSharedRuns :: "int list \<Rightarrow> DB \<Rightarrow> bool \<times> DB" where
  "DeleteSharedRuns seq_nos db =
     (let matches = (\<lambda>r. RunSeqNo r \<in> set seq_nos);
          rows = filter matches (shared_runs db);
          valid = all_exist rows seq_nos = Some True;
          deleted = (if valid then rows else [])
      in (valid \<and> deleted \<noteq> [],
          db\<lparr>shared_runs := filter (\<lambda>r. \<not> (valid \<and> matches r)) (shared_runs db)\<rparr>))"

definition GetPartitions :: "DB \<Rightarrow> Partition list" where
  "GetPartitions db = partitions db"

section \<open>Triggers\<close>

text \<open>
  The statement triggers of the migration fire \<^verbatim>\<open>AFTER INSERT OR UPDATE\<close>, so a \<^verbatim>\<open>DELETE\<close>
  notifies no channel.
\<close>

datatype statement = StAddWAL | StMarkWAL | StDeleteWAL | StAddRun | StDeleteRun

datatype channel = new_write_ahead_log | shared_run_change | partition_change | job_change

fun notified :: "statement \<Rightarrow> channel option" where
  "notified StAddWAL = Some new_write_ahead_log"
| "notified StMarkWAL = Some new_write_ahead_log"
| "notified StDeleteWAL = None"
| "notified StAddRun = Some shared_run_change"
| "notified StDeleteRun = None"

section \<open>Watch\<close>

text \<open>
  What \<^verbatim>\<open>WaitForNotification\<close> delivers: a notification, with the environment the callback will
  see, or an error, with whether the context is cancelled by then. The callback updates the
  watcher's state and may fail.
\<close>

datatype 'env wait_result = Notification 'env | WaitError bool

fun watch_loop ::
  "('env \<Rightarrow> 's \<Rightarrow> go_error option \<times> 's) \<Rightarrow> 'env wait_result list \<Rightarrow> 's \<Rightarrow> 's"
where
  "watch_loop callback [] s = s"
| "watch_loop callback (WaitError cancelled # es) s =
     (if cancelled then s else watch_loop callback es s)"
| "watch_loop callback (Notification env # es) s = watch_loop callback es (snd (callback env s))"

definition Watch ::
  "('env \<Rightarrow> 's \<Rightarrow> go_error option \<times> 's) \<Rightarrow> 'env \<Rightarrow> go_error option \<Rightarrow> go_error option \<Rightarrow>
   'env wait_result list \<Rightarrow> 's \<Rightarrow> go_error option \<times> 's"
where
  "Watch callback env acquire_err listen_err events s =
     (case callback env s of
        (Some e, s) \<Rightarrow> (Some (ErrWrap ''failed to process initial state'' e), s)
      | (None, s) \<Rightarrow>
          (case acquire_err of
             Some e \<Rightarrow> (Some (ErrWrap ''failed to acquire db conn'' e), s)
           | None \<Rightarrow>
               (case listen_err of
                  Some e \<Rightarrow> (Some (ErrWrap ''failed to listen for notifications'' e), s)
                | None \<Rightarrow> (None, watch_loop callback events s))))"

section \<open>Well-formed tables\<close>

definition db_ok :: "DB \<Rightarrow> bool" where
  "db_ok db \<longleftrightarrow>
     distinct (map SeqNo (write_ahead_logs db)) \<and>
     list_all (\<lambda>w. SeqNo w < wal_seq db \<and> (State w = ''NEW'' \<or> State w = ''COMPACTING''))
       (write_ahead_logs db) \<and>
     distinct (map RunSeqNo (shared_runs db)) \<and>
     list_all (\<lambda>r. RunSeqNo r < run_seq db) (shared_runs db) \<and>
     distinct (map InclusiveStartKey (partitions db))"

lemma db_ok_migrated: "db_ok migrated"
  by (simp add: db_ok_def migrated_def)

lemma count_matching_rows:
  assumes "distinct (map f xs)"
  shows "length (filter (\<lambda>x. f x \<in> set ks \<and> P x) xs) = length ks \<longleftrightarrow>
    distinct ks \<and> (\<forall>k \<in> set ks. \<exists>x \<in> set xs. f x = k \<and> P x)"
proof -
  let ?rows = "filter (\<lambda>x. f x \<in> set ks \<and> P x) xs"
  have "distinct (map f ?rows)" using assms by (rule distinct_map_filter)
  then have "card (set (map f ?rows)) = length (map f ?rows)" by (rule distinct_card)
  then have len: "length ?rows = card (f ` set ?rows)"
    by (simp only: list.set_map length_map)
  have sub: "f ` set ?rows \<subseteq> set ks" by auto
  show ?thesis
  proof
    assume eq: "length ?rows = length ks"
    have "card (set ks) \<le> length ks" by (rule card_length)
    moreover have "length ?rows \<le> card (set ks)" unfolding len by (rule card_mono [OF _ sub]) simp
    ultimately have "card (set ks) = length ks" using eq by simp
    then have "distinct ks" by (rule card_distinct)
    moreover have "f ` set ?rows = set ks"
      using sub eq len \<open>card (set ks) = length ks\<close> by (intro card_subset_eq) auto
    ultimately show "distinct ks \<and> (\<forall>k \<in> set ks. \<exists>x \<in> set xs. f x = k \<and> P x)"
      by (auto simp: set_eq_iff image_iff) metis
  next
    assume all: "distinct ks \<and> (\<forall>k \<in> set ks. \<exists>x \<in> set xs. f x = k \<and> P x)"
    then have "f ` set ?rows = set ks" by (auto simp: image_iff)
    then show "length ?rows = length ks"
      using all len by (simp add: distinct_card)
  qed
qed

lemma same_seq_same_row:
  "db_ok db \<Longrightarrow> v \<in> set (write_ahead_logs db) \<Longrightarrow> w \<in> set (write_ahead_logs db) \<Longrightarrow>
   SeqNo v = SeqNo w \<Longrightarrow> v = w"
  by (auto simp: db_ok_def distinct_map inj_on_def)

text \<open>The logs a valid call addresses, all of them in the required state.\<close>

definition all_in_state :: "DB \<Rightarrow> int list \<Rightarrow> string \<Rightarrow> bool" where
  "all_in_state db ns st \<longleftrightarrow>
     ns \<noteq> [] \<and> distinct ns \<and>
     list_all (\<lambda>n. list_ex (\<lambda>w. SeqNo w = n \<and> State w = st) (write_ahead_logs db)) ns"

lemma all_in_state_iff:
  "all_in_state db ns st \<longleftrightarrow> ns \<noteq> [] \<and> distinct ns \<and>
     (\<forall>n \<in> set ns. \<exists>w \<in> set (write_ahead_logs db). SeqNo w = n \<and> State w = st)"
  by (simp add: all_in_state_def list_all_iff list_ex_iff)

lemma all_in_stateD:
  "db_ok db \<Longrightarrow> all_in_state db ns st \<Longrightarrow> w \<in> set (write_ahead_logs db) \<Longrightarrow> SeqNo w \<in> set ns \<Longrightarrow>
   State w = st"
  unfolding all_in_state_iff using same_seq_same_row by blast

lemma all_in_state_rows_nonempty:
  "all_in_state db ns st \<Longrightarrow>
   filter (\<lambda>w. SeqNo w \<in> set ns \<and> State w = st) (write_ahead_logs db) \<noteq> []"
  unfolding all_in_state_iff filter_empty_conv by (metis last_in_set)

lemma valid_iff:
  assumes "db_ok db"
  shows "all_exist (filter (\<lambda>w. SeqNo w \<in> set ns \<and> State w = st) (write_ahead_logs db)) ns = Some True
    \<longleftrightarrow> all_in_state db ns st"
  using assms count_matching_rows [of SeqNo "write_ahead_logs db" ns "\<lambda>w. State w = st"]
  by (auto simp: all_exist_def db_ok_def all_in_state_iff)

lemma Mark_eq:
  assumes "db_ok db"
  shows "MarkWriteAheadLogsAsCompacting ns db =
    (if all_in_state db ns ''NEW'' then
       (True, db\<lparr>write_ahead_logs :=
          map (\<lambda>w. if SeqNo w \<in> set ns then w\<lparr>State := ''COMPACTING''\<rparr> else w)
            (write_ahead_logs db)\<rparr>)
     else (False, db))"
proof (cases "all_in_state db ns ''NEW''")
  case True
  then have "map (\<lambda>w. if SeqNo w \<in> set ns \<and> State w = ''NEW'' then w\<lparr>State := ''COMPACTING''\<rparr> else w)
        (write_ahead_logs db) =
      map (\<lambda>w. if SeqNo w \<in> set ns then w\<lparr>State := ''COMPACTING''\<rparr> else w) (write_ahead_logs db)"
    using all_in_stateD [OF assms True] by (intro map_cong) auto
  then show ?thesis
    using True all_in_state_rows_nonempty [OF True]
    by (simp add: MarkWriteAheadLogsAsCompacting_def valid_iff [OF assms] Let_def)
qed (simp add: MarkWriteAheadLogsAsCompacting_def valid_iff [OF assms] Let_def)

lemma Delete_eq:
  assumes "db_ok db"
  shows "DeleteWriteAheadLogs ns db =
    (if all_in_state db ns ''COMPACTING'' then
       (True, db\<lparr>write_ahead_logs :=
          filter (\<lambda>w. SeqNo w \<notin> set ns) (write_ahead_logs db)\<rparr>)
     else (False, db))"
proof (cases "all_in_state db ns ''COMPACTING''")
  case True
  then have "filter (\<lambda>w. \<not> (SeqNo w \<in> set ns \<and> State w = ''COMPACTING'')) (write_ahead_logs db) =
      filter (\<lambda>w. SeqNo w \<notin> set ns) (write_ahead_logs db)"
    using all_in_stateD [OF assms True] by (intro filter_cong) auto
  then show ?thesis
    using True all_in_state_rows_nonempty [OF True]
    by (simp add: DeleteWriteAheadLogs_def valid_iff [OF assms] Let_def)
qed (simp add: DeleteWriteAheadLogs_def valid_iff [OF assms] Let_def)

section \<open>Statements and runs of statements\<close>

datatype db_call = AddWAL WALAttrs | MarkWALs "int list" | DeleteWALs "int list"
  | AddRun RunAttrs | DeleteRuns "int list"

fun exec :: "db_call \<Rightarrow> DB \<Rightarrow> DB" where
  "exec (AddWAL a) db = AddWriteAheadLog a db"
| "exec (MarkWALs ns) db = snd (MarkWriteAheadLogsAsCompacting ns db)"
| "exec (DeleteWALs ns) db = snd (DeleteWriteAheadLogs ns db)"
| "exec (AddRun a) db = AddSharedRun a db"
| "exec (DeleteRuns ns) db = snd (DeleteSharedRuns ns db)"

lemma db_ok_AddWriteAheadLog: "db_ok db \<Longrightarrow> db_ok (AddWriteAheadLog a db)"
  by (fastforce simp: db_ok_def AddWriteAheadLog_def list_all_iff)

lemma db_ok_AddSharedRun: "db_ok db \<Longrightarrow> db_ok (AddSharedRun a db)"
  by (fastforce simp: db_ok_def AddSharedRun_def list_all_iff)

lemma db_ok_Mark: "db_ok db \<Longrightarrow> db_ok (snd (MarkWriteAheadLogsAsCompacting ns db))"
  by (auto simp: Mark_eq) (auto simp: db_ok_def list_all_iff comp_def if_distrib cong: if_cong)

lemma db_ok_Delete: "db_ok db \<Longrightarrow> db_ok (snd (DeleteWriteAheadLogs ns db))"
  by (auto simp: Delete_eq) (auto simp: db_ok_def list_all_iff intro: distinct_map_filter)

lemma db_ok_DeleteRuns: "db_ok db \<Longrightarrow> db_ok (snd (DeleteSharedRuns ns db))"
  by (auto simp: DeleteSharedRuns_def Let_def db_ok_def list_all_iff intro: distinct_map_filter)

lemma db_ok_exec: "db_ok db \<Longrightarrow> db_ok (exec c db)"
  by (cases c) (simp_all add: db_ok_AddWriteAheadLog db_ok_AddSharedRun db_ok_Mark db_ok_Delete
      db_ok_DeleteRuns)

lemma db_ok_run: "db_ok db \<Longrightarrow> db_ok (fold exec cs db)"
  by (induction cs arbitrary: db) (auto intro: db_ok_exec)

section \<open>The interface of the batcher\<close>

text \<open>
  What the batcher relies on of \<^verbatim>\<open>database.Querier\<close>: a call that reports success has added one
  row, in state NEW, numbered above every row before it; a call that reports an error has added
  the row or has not. \<open>rows\<close> is the table as a query would see it.
\<close>

definition new_log :: "int \<Rightarrow> WALAttrs \<Rightarrow> WriteAheadLog" where
  "new_log n a = \<lparr>SeqNo = n, State = ''NEW'', Attrs = a\<rparr>"

locale wal_log =
  fixes add_wal :: "WALAttrs \<Rightarrow> 'd \<Rightarrow> go_error option \<times> 'd"
    and rows :: "'d \<Rightarrow> WriteAheadLog list"
    and valid :: "'d \<Rightarrow> bool"
  assumes add_wal_ok: "valid d \<Longrightarrow> add_wal a d = (None, d') \<Longrightarrow>
      \<exists>n. rows d' = rows d @ [new_log n a] \<and> list_all (\<lambda>w. SeqNo w < n) (rows d)"
    and add_wal_error: "valid d \<Longrightarrow> add_wal a d = (Some e, d') \<Longrightarrow>
      rows d' = rows d \<or> (\<exists>n. rows d' = rows d @ [new_log n a])"
    and add_wal_valid: "valid d \<Longrightarrow> valid (snd (add_wal a d))"
begin

lemma add_wal_rows_mono: "valid d \<Longrightarrow> set (rows d) \<subseteq> set (rows (snd (add_wal a d)))"
  using add_wal_ok add_wal_error by (cases "add_wal a d"; cases "fst (add_wal a d)") fastforce+

lemma add_wal_acknowledged:
  "valid d \<Longrightarrow> add_wal a d = (None, d') \<Longrightarrow> a \<in> Attrs ` set (rows d')"
  by (drule (1) add_wal_ok) (auto simp: new_log_def)

end

text \<open>
  The provider: a database behind a connection, whose next calls succeed, are refused, or take
  effect although the reply is lost.
\<close>

datatype call_outcome = Served | Refused go_error | ReplyLost go_error

record conn =
  outcomes :: "call_outcome list"
  database :: DB

definition Queries_AddWriteAheadLog :: "WALAttrs \<Rightarrow> conn \<Rightarrow> go_error option \<times> conn" where
  "Queries_AddWriteAheadLog a c =
     (let db = AddWriteAheadLog a (database c) in
      case outcomes c of
        [] \<Rightarrow> (None, c\<lparr>database := db\<rparr>)
      | Served # os \<Rightarrow> (None, c\<lparr>database := db, outcomes := os\<rparr>)
      | Refused e # os \<Rightarrow> (Some e, c\<lparr>outcomes := os\<rparr>)
      | ReplyLost e # os \<Rightarrow> (Some e, c\<lparr>database := db, outcomes := os\<rparr>))"

definition conn_rows :: "conn \<Rightarrow> WriteAheadLog list" where
  "conn_rows c = write_ahead_logs (database c)"

lemma Queries_AddWriteAheadLog_cases:
  obtains e where "Queries_AddWriteAheadLog a c = (Some e, c\<lparr>outcomes := tl (outcomes c)\<rparr>)"
  | r where "Queries_AddWriteAheadLog a c =
      (r, c\<lparr>database := AddWriteAheadLog a (database c), outcomes := tl (outcomes c)\<rparr>)"
  by (cases "outcomes c"; cases "hd (outcomes c)")
    (auto simp: Queries_AddWriteAheadLog_def Let_def)

interpretation querier: wal_log Queries_AddWriteAheadLog conn_rows "\<lambda>c :: conn. db_ok (database c)"
proof
  fix a e and c c' :: conn
  assume ok: "db_ok (database c)"
  show "db_ok (database (snd (Queries_AddWriteAheadLog a c)))"
    by (rule Queries_AddWriteAheadLog_cases [of a c]) (auto simp: ok db_ok_AddWriteAheadLog)
  show "Queries_AddWriteAheadLog a c = (None, c') \<Longrightarrow>
    \<exists>n. conn_rows c' = conn_rows c @ [new_log n a] \<and> list_all (\<lambda>w. SeqNo w < n) (conn_rows c)"
    using ok
    by (intro exI [of _ "wal_seq (database c)"], rule_tac Queries_AddWriteAheadLog_cases [of a c])
      (auto simp: conn_rows_def AddWriteAheadLog_def new_log_def db_ok_def list_all_iff)
  show "Queries_AddWriteAheadLog a c = (Some e, c') \<Longrightarrow>
    conn_rows c' = conn_rows c \<or> (\<exists>n. conn_rows c' = conn_rows c @ [new_log n a])"
    by (rule Queries_AddWriteAheadLog_cases [of a c])
      (auto simp: conn_rows_def AddWriteAheadLog_def new_log_def)
qed

section \<open>Properties\<close>

text \<open>C21. Marking and deleting are all or nothing: if every named log exists once in state NEW
  (COMPACTING for the deletion) and there is at least one name, without repetition, all of them
  become COMPACTING (are deleted) and the query returns true; otherwise it returns false and
  changes nothing.\<close>

theorem logs_all_or_nothing:
  "db_ok db \<Longrightarrow>
   MarkWriteAheadLogsAsCompacting ns db =
     (if all_in_state db ns ''NEW'' then
        (True, db\<lparr>write_ahead_logs :=
           map (\<lambda>w. if SeqNo w \<in> set ns then w\<lparr>State := ''COMPACTING''\<rparr> else w)
             (write_ahead_logs db)\<rparr>)
      else (False, db)) \<and>
   DeleteWriteAheadLogs ns db =
     (if all_in_state db ns ''COMPACTING'' then
        (True, db\<lparr>write_ahead_logs := filter (\<lambda>w. SeqNo w \<notin> set ns) (write_ahead_logs db)\<rparr>)
      else (False, db))"
  by (simp add: Mark_eq Delete_eq)

definition attrs_at :: "string \<Rightarrow> WALAttrs" where
  "attrs_at p = \<lparr>Path = p, CreatedAt = 0, SizeBytes = 1, MinKey = ''a'', MaxKey = ''b''\<rparr>"

definition two_logs :: DB where
  "two_logs = AddWriteAheadLog (attrs_at ''wal/2'') (AddWriteAheadLog (attrs_at ''wal/1'') migrated)"

lemma db_ok_two_logs: "db_ok two_logs"
  by (simp add: two_logs_def db_ok_AddWriteAheadLog db_ok_migrated)

lemma two_logs_rows:
  "write_ahead_logs two_logs = [new_log 1 (attrs_at ''wal/1''), new_log 2 (attrs_at ''wal/2'')]"
  by (simp add: two_logs_def AddWriteAheadLog_def migrated_def new_log_def)

theorem logs_all_or_nothing_witness:
  "fst (MarkWriteAheadLogsAsCompacting [1, 2, 3] two_logs) = False \<and>
   map State (write_ahead_logs (snd (MarkWriteAheadLogsAsCompacting [1] two_logs))) =
     [''COMPACTING'', ''NEW''] \<and> DeleteWriteAheadLogs [1] two_logs = (False, two_logs)"
  using logs_all_or_nothing [OF db_ok_two_logs]
  by (simp add: all_in_state_def two_logs_rows new_log_def)

text \<open>Whatever statements run, in whatever order, from the migrated database on, the tables stay
  well formed: sequence numbers and start keys are unique, the sequences are ahead of every row
  and every log is NEW or COMPACTING.\<close>

lemma tables_stay_well_formed: "db_ok (fold exec calls migrated)"
  by (rule db_ok_run [OF db_ok_migrated])

text \<open>C20. A log lives through NEW, then COMPACTING, then is gone: no statement changes its
  attributes, takes it back to NEW, or deletes it while it is NEW.\<close>

theorem log_lifecycle:
  assumes "db_ok db" and "w \<in> set (write_ahead_logs db)"
  shows "w \<in> set (write_ahead_logs (exec c db)) \<or>
    (State w = ''NEW'' \<and> w\<lparr>State := ''COMPACTING''\<rparr> \<in> set (write_ahead_logs (exec c db))) \<or>
    (State w = ''COMPACTING'' \<and> SeqNo w \<notin> SeqNo ` set (write_ahead_logs (exec c db)))"
proof (cases c)
  case (MarkWALs ns)
  then show ?thesis
    using assms all_in_stateD [OF assms(1), of ns "''NEW''", OF _ assms(2)]
    by (auto simp: Mark_eq)
next
  case (DeleteWALs ns)
  then show ?thesis
    using assms all_in_stateD [OF assms(1), of ns "''COMPACTING''", OF _ assms(2)]
    by (auto simp: Delete_eq)
qed (use assms(2) in \<open>auto simp: AddWriteAheadLog_def AddSharedRun_def DeleteSharedRuns_def Let_def\<close>)

theorem log_lifecycle_witness:
  "new_log 1 (attrs_at ''wal/1'') \<in> set (write_ahead_logs (exec (DeleteWALs [1]) two_logs))"
proof -
  have row: "new_log 1 (attrs_at ''wal/1'') \<in> set (write_ahead_logs two_logs)"
    by (simp add: two_logs_rows)
  show ?thesis
    using log_lifecycle [OF db_ok_two_logs row, of "DeleteWALs [1]"]
    by (auto simp: new_log_def Delete_eq [OF db_ok_two_logs] two_logs_rows all_in_state_def)
qed

end
