(* ===== verification/Batcher.thy ===== *)
theory Batcher
  imports SSTable GoSort ObjStore Database
begin

text \<open>
  \<^verbatim>\<open>internal/batcher/handler.go\<close>, the sequential part: the request messages, the checks of
  \<^verbatim>\<open>BatchWrite\<close>, the growth of a batch and \<^verbatim>\<open>writeBatch\<close> (sort, deduplicate in place, upload,
  add the log's row). The sort, the object store and the database call are arguments. The lemmas:
  the in-place deduplication is a simple recursive function; its result is strictly sorted and
  has the keys of the batch; with a stable sort the last write of a key survives; a successful
  \<^verbatim>\<open>writeBatch\<close> has stored the object before the row that names it.
\<close>

section \<open>Requests\<close>

datatype operation = NoOperation | Put bytes | Delete bool

record WriteRequest =
  wr_key :: string
  wr_op :: operation

definition GetKey :: "WriteRequest \<Rightarrow> string" where
  "GetKey w = wr_key w"

fun put_of :: "operation \<Rightarrow> bytes" where
  "put_of (Put v) = v"
| "put_of _ = []"

fun delete_of :: "operation \<Rightarrow> bool" where
  "delete_of (Delete d) = d"
| "delete_of _ = False"

definition GetPut :: "WriteRequest \<Rightarrow> bytes" where
  "GetPut w = put_of (wr_op w)"

definition GetDelete :: "WriteRequest \<Rightarrow> bool" where
  "GetDelete w = delete_of (wr_op w)"

text \<open>A request's writes are nil (None) or a slice.\<close>

record BatchWriteRequest =
  GetWrites :: "WriteRequest list option"

fun check_keys :: "WriteRequest list \<Rightarrow> go_error option" where
  "check_keys [] = None"
| "check_keys (w # ws) =
     (if GetKey w = '''' then Some (ErrRPC CodeInvalidArgument (ErrText ''key is required''))
      else check_keys ws)"

definition check_request :: "BatchWriteRequest \<Rightarrow> go_error option" where
  "check_request req =
     (case GetWrites req of
        None \<Rightarrow> Some (ErrRPC CodeInvalidArgument (ErrText ''writes is required''))
      | Some ws \<Rightarrow> check_keys ws)"

text \<open>
  The two selects of \<^verbatim>\<open>BatchWrite\<close>, with the case that fires as an argument: the request is sent,
  or the server's or the caller's context is done first; then the callback delivers, or the
  caller's context is done first.
\<close>

datatype send_case = Sent | ServerDone go_error | CallerDoneSending go_error

datatype wait_case = Callback "go_error option" | CallerDone go_error

definition BatchWrite :: "BatchWriteRequest \<Rightarrow> send_case \<Rightarrow> wait_case \<Rightarrow> unit result" where
  "BatchWrite req sent waited =
     (case check_request req of
        Some e \<Rightarrow> Inl e
      | None \<Rightarrow>
          (case sent of
             ServerDone e \<Rightarrow> Inl (ErrRPC CodeCanceled e)
           | CallerDoneSending e \<Rightarrow> Inl (ErrRPC CodeCanceled e)
           | Sent \<Rightarrow>
               (case waited of
                  Callback (Some e) \<Rightarrow> Inl (ErrRPC CodeInternal e)
                | Callback None \<Rightarrow> Inr ()
                | CallerDone e \<Rightarrow> Inl (ErrRPC CodeCanceled e))))"

section \<open>Batches\<close>

record batch =
  batch_records :: "Record list"
  callbacks :: "nat list"
  totalSize :: int

definition empty_batch :: batch where
  "empty_batch = \<lparr>batch_records = [], callbacks = [], totalSize = 0\<rparr>"

definition to_record :: "WriteRequest \<Rightarrow> Record" where
  "to_record w = \<lparr>Key = GetKey w, Value = GetPut w, Tombstone = GetDelete w\<rparr>"

definition recordSize :: "Record \<Rightarrow> int" where
  "recordSize r = int (length (Key r)) + int (length (Value r))"

fun add_writes :: "batch \<Rightarrow> WriteRequest list \<Rightarrow> batch" where
  "add_writes b [] = b"
| "add_writes b (w # ws) =
     add_writes (b\<lparr>batch_records := batch_records b @ [to_record w],
                   totalSize := go_int (totalSize b + recordSize (to_record w))\<rparr>) ws"

definition add_request :: "batch \<Rightarrow> nat \<Rightarrow> WriteRequest list \<Rightarrow> batch" where
  "add_request b cb ws = add_writes (b\<lparr>callbacks := callbacks b @ [cb]\<rparr>) ws"

lemma add_writes_simps [simp]:
  "batch_records (add_writes b ws) = batch_records b @ map to_record ws"
  "callbacks (add_writes b ws) = callbacks b"
  by (induction ws arbitrary: b) auto

lemma add_request_simps [simp]:
  "batch_records (add_request b cb ws) = batch_records b @ map to_record ws"
  "callbacks (add_request b cb ws) = callbacks b @ [cb]"
  by (simp_all add: add_request_def)

lemma totalSize_add_writes:
  "go_int (totalSize (add_writes b ws)) =
     go_int (totalSize b + sum_list (map (recordSize \<circ> to_record) ws))"
  by (induction ws arbitrary: b) (simp_all add: go_int_add add.assoc)

section \<open>Deduplication in place\<close>

text \<open>The loop over \<open>i\<close> with the last kept index \<open>j\<close>, writing into the slice.\<close>

function dedup_loop :: "Record list \<Rightarrow> nat \<Rightarrow> nat \<Rightarrow> Record list \<times> nat" where
  "dedup_loop rs j i =
     (if i < length rs then
        (if Key (rs ! i) \<noteq> Key (rs ! j) then
           (let j = j + 1 in dedup_loop (if i \<noteq> j then rs[j := rs ! i] else rs) j (i + 1))
         else dedup_loop (rs[j := rs ! i]) j (i + 1))
      else (rs, j))"
  by pat_completeness auto
termination
  by (relation "measure (\<lambda>(rs, j, i). length rs - i)") auto

declare dedup_loop.simps [simp del]

definition dedup :: "Record list \<Rightarrow> Record list" where
  "dedup rs =
     (if length rs > 1 then (case dedup_loop rs 0 1 of (rs', j) \<Rightarrow> take (j + 1) rs') else rs)"

text \<open>What it computes: of each group of neighbours with one key, the last.\<close>

fun keep_last :: "Record list \<Rightarrow> Record list" where
  "keep_last [] = []"
| "keep_last [r] = [r]"
| "keep_last (r # r' # rs) =
     (if Key r = Key r' then keep_last (r' # rs) else r # keep_last (r' # rs))"

lemma keep_last_Cons_Cons_neq:
  "Key r \<noteq> Key r' \<Longrightarrow> keep_last (r # r' # rs) = r # keep_last (r' # rs)"
  by simp

lemma dedup_loop_keep_last:
  "j < i \<Longrightarrow> i \<le> length rs \<Longrightarrow> dedup_loop rs j i = (rs', j') \<Longrightarrow>
   j' < length rs' \<and> take (j' + 1) rs' = take j rs @ keep_last (rs ! j # drop i rs)"
proof (induction rs j i rule: dedup_loop.induct)
  case (1 rs j i)
  show ?case
  proof (cases "i < length rs")
    case False
    with 1(5) have "rs' = rs" "j' = j" by (auto simp: dedup_loop.simps [of rs j i])
    with 1(3,4) False show ?thesis by (auto simp: take_Suc_conv_app_nth)
  next
    case True
    have rest: "drop i rs = rs ! i # drop (Suc i) rs" using True by (simp add: Cons_nth_drop_Suc)
    show ?thesis
    proof (cases "Key (rs ! i) = Key (rs ! j)")
      case same: True
      have "dedup_loop (rs[j := rs ! i]) j (i + 1) = (rs', j')"
        using 1(5) True same by (simp add: dedup_loop.simps [of rs j i])
      from 1(2)[OF True _ _ _ this] same True 1(3) rest show ?thesis by (simp add: drop_update_cancel)
    next
      case differ: False
      let ?rs = "if i \<noteq> j + 1 then rs[j + 1 := rs ! i] else rs"
      have upd: "?rs = rs[j + 1 := rs ! i]" using True by (auto simp: list_update_same_conv)
      have "dedup_loop ?rs (j + 1) (i + 1) = (rs', j')"
        using 1(5) True differ
        by (cases "i = j + 1")
          (simp_all add: dedup_loop.simps [of rs j i] dedup_loop.simps [of rs j "Suc j"])
      from 1(1)[OF True differ refl _ _ this] True 1(3) have
        "j' < length rs'" "take (j' + 1) rs' =
          take (j + 1) (rs[j + 1 := rs ! i]) @ keep_last (rs ! i # drop (Suc i) (rs[j + 1 := rs ! i]))"
        unfolding upd by auto
      then show ?thesis
        using True differ 1(3) rest
        by (simp add: drop_update_cancel take_Suc_conv_app_nth take_update_cancel)
    qed
  qed
qed

lemma dedup_keep_last: "dedup rs = keep_last rs"
proof (cases "length rs > 1")
  case True
  obtain rs' j where d: "dedup_loop rs 0 1 = (rs', j)" by fastforce
  have "take (j + 1) rs' = keep_last (rs ! 0 # drop 1 rs)"
    using dedup_loop_keep_last [OF _ _ d] True by simp
  moreover have "rs ! 0 # drop 1 rs = rs" using True by (cases rs) auto
  ultimately show ?thesis using True d by (simp add: dedup_def)
next
  case False
  then show ?thesis by (cases rs rule: keep_last.cases) (auto simp: dedup_def)
qed

lemma keep_last_nonempty [simp]: "keep_last rs = [] \<longleftrightarrow> rs = []"
  by (induction rs rule: keep_last.induct) auto

lemma keep_last_keys [simp]: "Key ` set (keep_last rs) = Key ` set rs"
  by (induction rs rule: keep_last.induct) auto

lemma keep_last_subset: "set (keep_last rs) \<subseteq> set rs"
  by (induction rs rule: keep_last.induct) auto

lemma keep_last_strict:
  "sorted (map Key rs) \<Longrightarrow> sorted_wrt (<) (map Key (keep_last rs))"
proof (induction rs rule: keep_last.induct)
  case (3 r r' rs)
  then show ?case
  proof (cases "Key r = Key r'")
    case False
    have "Key r < x" if "x \<in> Key ` set (keep_last (r' # rs))" for x
    proof -
      have "Key r \<le> Key r'" "Key r' \<le> x" using that 3(3) unfolding keep_last_keys by auto
      with False show ?thesis by (simp add: order.strict_iff_order order.trans)
    qed
    with False 3 show ?thesis by (simp del: keep_last.simps add: keep_last_Cons_Cons_neq)
  qed simp
qed simp_all

lemma last_filter_Cons: "filter P xs \<noteq> [] \<Longrightarrow> last (filter P (x # xs)) = last (filter P xs)"
  by simp

lemma keep_last_find:
  "sorted (map Key rs) \<Longrightarrow> k \<in> Key ` set rs \<Longrightarrow>
   last (filter (\<lambda>r. Key r = k) rs) \<in> set (keep_last rs)"
proof (induction rs rule: keep_last.induct)
  case (3 r r' rs)
  show ?case
  proof (cases "Key r = Key r'")
    case True
    with 3(4) have "k \<in> Key ` set (r' # rs)" by auto
    then have "filter (\<lambda>x. Key x = k) (r' # rs) \<noteq> []" by (auto simp: filter_empty_conv)
    then have "last (filter (\<lambda>x. Key x = k) (r # r' # rs)) = last (filter (\<lambda>x. Key x = k) (r' # rs))"
      by (rule last_filter_Cons)
    moreover have "last (filter (\<lambda>x. Key x = k) (r' # rs)) \<in> set (keep_last (r' # rs))"
      using 3(1)[OF True] 3(3) \<open>k \<in> Key ` set (r' # rs)\<close> by simp
    moreover have "keep_last (r # r' # rs) = keep_last (r' # rs)" using True by simp
    ultimately show ?thesis by (simp only:)
  next
    case False
    have none: "filter (\<lambda>x. Key x = Key r) (r' # rs) = []"
    proof -
      have "\<forall>x \<in> set (r' # rs). Key r < Key x"
        using 3(3) False by (auto simp: order.strict_iff_order)
      then show ?thesis by (auto simp: filter_empty_conv)
    qed
    show ?thesis
    proof (cases "k = Key r")
      case True
      with none False show ?thesis by simp
    next
      case k: False
      with 3(4) have "k \<in> Key ` set (r' # rs)" by auto
      with 3 False k show ?thesis by auto
    qed
  qed
qed auto

section \<open>writeBatch\<close>

definition key_less :: "Record \<Rightarrow> Record \<Rightarrow> bool" where
  "key_less a b \<longleftrightarrow> Key a < Key b"

text \<open>\<^verbatim>\<open>path.Join("wal", id+".sstable")\<close>, for an id without slashes or dots.\<close>

definition wal_path :: "string \<Rightarrow> string" where
  "wal_path uuid = ''wal/'' @ uuid @ ''.sstable''"

definition batch_table :: "Record sorter \<Rightarrow> Record list \<Rightarrow> Record list" where
  "batch_table srt records = dedup (srt key_less records)"

definition batch_attrs :: "string \<Rightarrow> int \<Rightarrow> Record list \<Rightarrow> WALAttrs" where
  "batch_attrs uuid now records =
     \<lparr>Path = wal_path uuid, CreatedAt = now, SizeBytes = ComputeSize records,
      MinKey = Key (records ! 0), MaxKey = Key (records ! (length records - 1))\<rparr>"

text \<open>
  Up to the upload, and from there on: between the two, other workers run. An empty batch panics
  at \<^verbatim>\<open>records[0]\<close>.
\<close>

definition upload_batch ::
  "Record sorter \<Rightarrow> 'b upload_fun \<Rightarrow> string \<Rightarrow> Record list \<Rightarrow> 'b \<Rightarrow> go_error option \<times> 'b"
where
  "upload_batch srt upload uuid records b =
     (let records = batch_table srt records in
      if records = [] then (Some (ErrPanic ''index out of range [0] with length 0''), b)
      else
        (case upload (wal_path uuid) (WriteRecords records) b of
           (Some e, b) \<Rightarrow> (Some (ErrWrap ''writing batch to storage'' e), b)
         | (None, b) \<Rightarrow> (None, b)))"

definition insert_batch ::
  "Record sorter \<Rightarrow> (WALAttrs \<Rightarrow> 'd \<Rightarrow> go_error option \<times> 'd) \<Rightarrow> string \<Rightarrow> int \<Rightarrow> Record list \<Rightarrow>
   'd \<Rightarrow> go_error option \<times> 'd"
where
  "insert_batch srt add_wal uuid now records d =
     (case add_wal (batch_attrs uuid now (batch_table srt records)) d of
        (Some e, d) \<Rightarrow> (Some (ErrWrap ''adding batch record'' e), d)
      | (None, d) \<Rightarrow> (None, d))"

definition writeBatch ::
  "Record sorter \<Rightarrow> 'b upload_fun \<Rightarrow> (WALAttrs \<Rightarrow> 'd \<Rightarrow> go_error option \<times> 'd) \<Rightarrow> string \<Rightarrow> int \<Rightarrow>
   Record list \<Rightarrow> 'b \<times> 'd \<Rightarrow> go_error option \<times> ('b \<times> 'd)"
where
  "writeBatch srt upload add_wal uuid now records w =
     (case upload_batch srt upload uuid records (fst w) of
        (Some e, b) \<Rightarrow> (Some e, (b, snd w))
      | (None, b) \<Rightarrow>
          (case insert_batch srt add_wal uuid now records (snd w) of
             (r, d) \<Rightarrow> (r, (b, d))))"

lemma key_less_eta: "key_less = (\<lambda>a b. Key a < Key b)"
  by (simp add: fun_eq_iff key_less_def)

text \<open>What every contract-abiding sort gives.\<close>

lemma batch_table_strict:
  "slice_sort srt \<Longrightarrow> sorted_wrt (<) (map Key (batch_table srt records))"
  unfolding batch_table_def dedup_keep_last key_less_eta
  by (intro keep_last_strict slice_sort.sorted_map_srt)

lemma batch_table_keys:
  "slice_sort srt \<Longrightarrow> Key ` set (batch_table srt records) = Key ` set records"
  unfolding batch_table_def dedup_keep_last by (simp add: slice_sort.set_srt)

lemma batch_table_subset: "slice_sort srt \<Longrightarrow> set (batch_table srt records) \<subseteq> set records"
  unfolding batch_table_def dedup_keep_last
  using keep_last_subset slice_sort.set_srt by blast

lemma batch_table_Nil_iff [simp]: "slice_sort srt \<Longrightarrow> batch_table srt records = [] \<longleftrightarrow> records = []"
  unfolding batch_table_def dedup_keep_last by (simp add: slice_sort.srt_Nil_iff)

lemma strict_distinct: "sorted_wrt (<) (map f xs) \<Longrightarrow> distinct (map f xs)"
  for f :: "'a \<Rightarrow> 'k::linorder"
  by (simp add: strict_sorted_iff)

lemma batch_table_last_write:
  assumes srt: "stable_slice_sort srt" and k: "k \<in> Key ` set records"
  shows "last (filter (\<lambda>r. Key r = k) records) \<in> set (batch_table srt records)"
proof -
  have sl: "slice_sort srt" using srt by (rule stable_slice_sort.axioms)
  let ?xs = "srt (\<lambda>a b. Key a < Key b) records"
  have "last (filter (\<lambda>r. Key r = k) ?xs) \<in> set (keep_last ?xs)"
    using k by (intro keep_last_find) (simp_all add: slice_sort.sorted_map_srt [OF sl] slice_sort.set_srt [OF sl])
  then show ?thesis
    by (simp add: batch_table_def dedup_keep_last key_less_eta stable_slice_sort.filter_srt [OF srt])
qed

text \<open>Bounds of the table: its first and last keys.\<close>

lemma sorted_bounds:
  assumes "sorted xs" and "x \<in> set xs"
  shows "xs ! 0 \<le> x \<and> x \<le> xs ! (length xs - 1)"
  using assms by (auto simp: in_set_conv_nth intro: sorted_nth_mono)

lemma batch_attrs_bounds:
  assumes "slice_sort srt" and "r \<in> set records"
  shows "MinKey (batch_attrs uuid now (batch_table srt records)) \<le> Key r \<and>
    Key r \<le> MaxKey (batch_attrs uuid now (batch_table srt records))"
proof -
  let ?t = "batch_table srt records"
  have "sorted (map Key ?t)" using batch_table_strict [OF assms(1)] by (simp add: strict_sorted_iff)
  moreover have mem: "Key r \<in> set (map Key ?t)" using batch_table_keys [OF assms(1), of records] assms(2) by auto
  ultimately have "map Key ?t ! 0 \<le> Key r \<and> Key r \<le> map Key ?t ! (length (map Key ?t) - 1)"
    by (rule sorted_bounds)
  moreover have "?t \<noteq> []" using mem by auto
  ultimately show ?thesis by (simp add: batch_attrs_def)
qed

text \<open>The two halves of \<^verbatim>\<open>writeBatch\<close>, case by case.\<close>

lemma upload_batch_ok:
  assumes "object_store upload fetch contents" and "upload_batch srt upload uuid records b = (None, b')"
  shows "contents b' = (contents b)(wal_path uuid \<mapsto> WriteRecords (batch_table srt records))"
proof -
  from assms(2) have "upload (wal_path uuid) (WriteRecords (batch_table srt records)) b = (None, b')"
    by (auto simp: upload_batch_def Let_def split: if_splits prod.splits option.splits)
  then show ?thesis by (rule object_store.upload_ok [OF assms(1)])
qed

lemma upload_batch_other:
  assumes "object_store upload fetch contents" and "q \<noteq> wal_path uuid"
  shows "contents (snd (upload_batch srt upload uuid records b)) q = contents b q"
  using object_store.upload_other [OF assms, of "WriteRecords (batch_table srt records)" b]
  by (auto simp: upload_batch_def Let_def split: prod.splits option.splits)

lemma upload_batch_panics_iff:
  assumes "slice_sort srt"
  shows "(\<exists>m. fst (upload_batch srt upload uuid records b) = Some (ErrPanic m)) \<longleftrightarrow> records = []"
  using assms by (auto simp: upload_batch_def Let_def split: prod.splits option.splits)

lemma insert_batch_ok:
  assumes "insert_batch srt add_wal uuid now records d = (None, d')"
  shows "add_wal (batch_attrs uuid now (batch_table srt records)) d = (None, d')"
  using assms by (auto simp: insert_batch_def split: prod.splits option.splits)

lemma insert_batch_snd:
  "snd (insert_batch srt add_wal uuid now records d) =
     snd (add_wal (batch_attrs uuid now (batch_table srt records)) d)"
  by (auto simp: insert_batch_def split: prod.splits option.splits)

section \<open>Properties\<close>

lemma check_keys_None: "check_keys ws = None \<longleftrightarrow> (\<forall>w \<in> set ws. GetKey w \<noteq> '''')"
  by (induction ws) auto

text \<open>\<^verbatim>\<open>BatchWrite\<close> reports success exactly when the writes are present and every key is
  non-empty, the request was handed to the batching goroutine, and its callback delivered nil.\<close>

lemma batch_write_succeeds_iff:
  "BatchWrite req sent waited = Inr () \<longleftrightarrow>
     (\<exists>ws. GetWrites req = Some ws \<and> list_all (\<lambda>w. GetKey w \<noteq> '''') ws) \<and>
     sent = Sent \<and> waited = Callback None"
  by (auto simp: BatchWrite_def check_request_def check_keys_None list_all_iff
      split: option.splits send_case.splits wait_case.splits) (metis check_keys_None option.discI)

text \<open>C19. Whatever permutation \<^verbatim>\<open>sort.Slice\<close> picks within its contract, the table of a batch is
  strictly sorted by key (so its keys are distinct), holds exactly the keys of the batch, and
  every record of it is a record of the batch.\<close>

theorem batch_table_sorted_and_complete:
  assumes "slice_sort srt"
  shows "sorted_wrt (<) (map Key (batch_table srt records)) \<and>
    Key ` set (batch_table srt records) = Key ` set records \<and>
    set (batch_table srt records) \<subseteq> set records"
  using assms by (simp add: batch_table_strict batch_table_keys batch_table_subset)

definition two_writes :: "Record list" where
  "two_writes =
     [\<lparr>Key = ''k'', Value = [1], Tombstone = False\<rparr>, \<lparr>Key = ''k'', Value = [2], Tombstone = False\<rparr>]"

theorem batch_table_sorted_and_complete_witness:
  "sorted_wrt (<) (map Key (batch_table insertion_sort two_writes)) \<and>
   Key ` set (batch_table insertion_sort two_writes) = Key ` set two_writes \<and>
   set (batch_table insertion_sort two_writes) \<subseteq> set two_writes"
  by (rule batch_table_sorted_and_complete [OF insertion.slice_sort_axioms])

text \<open>C18. With a stable sort (such as the insertion sort that runs on short slices) the last write
  of every key in the batch is the one kept.\<close>

theorem last_write_kept_if_stable:
  assumes "stable_slice_sort srt" and "k \<in> Key ` set records"
  shows "last (filter (\<lambda>r. Key r = k) records) \<in> set (batch_table srt records)"
  using assms by (rule batch_table_last_write)

theorem last_write_kept_if_stable_witness:
  "\<lparr>Key = ''k'', Value = [2], Tombstone = False\<rparr> \<in> set (batch_table insertion_sort two_writes)"
  using last_write_kept_if_stable [OF insertion.stable_slice_sort_axioms, of "''k''" two_writes]
  by (simp add: two_writes_def)

text \<open>C37. The contract of \<^verbatim>\<open>sort.Slice\<close> alone does not make the last write win: a sort that
  satisfies it makes \<^verbatim>\<open>writeBatch\<close> keep the first of two writes of one key and drop the last.\<close>

theorem last_write_lost_if_unstable:
  "slice_sort (reversing_sort :: Record sorter) \<and>
   batch_table reversing_sort two_writes = [hd two_writes] \<and>
   last (filter (\<lambda>r. Key r = ''k'') two_writes) \<notin> set (batch_table reversing_sort two_writes)"
  using reversing.slice_sort_axioms
  by (simp add: batch_table_def dedup_keep_last reversing_sort_def insertion_sort_def two_writes_def
      key_less_def)

text \<open>C15. When \<^verbatim>\<open>writeBatch\<close> returns nil, the object holds the encoded table of the batch, one
  row has been added, newest of all and in state NEW, which names that object, gives its size, and
  whose key bounds enclose every key of the batch.\<close>

theorem write_batch_success:
  assumes os: "object_store upload fetch contents" and wl: "wal_log add_wal rows valid"
    and srt: "slice_sort srt" and d: "valid d"
    and ok: "writeBatch srt upload add_wal uuid now records (b, d) = (None, (b', d'))"
  shows "contents b' (wal_path uuid) = Some (WriteRecords (batch_table srt records)) \<and>
    (\<exists>n a. rows d' = rows d @ [new_log n a] \<and> list_all (\<lambda>w. SeqNo w < n) (rows d) \<and>
       Path a = wal_path uuid \<and>
       SizeBytes a = go_int (int (length (WriteRecords (batch_table srt records)))) \<and>
       list_all (\<lambda>r. MinKey a \<le> Key r \<and> Key r \<le> MaxKey a) records)"
proof -
  from ok have up: "upload_batch srt upload uuid records b = (None, b')"
    and ins: "insert_batch srt add_wal uuid now records d = (None, d')"
    by (auto simp: writeBatch_def split: prod.splits option.splits)
  let ?a = "batch_attrs uuid now (batch_table srt records)"
  from wal_log.add_wal_ok [OF wl d insert_batch_ok [OF ins]] obtain n where
    "rows d' = rows d @ [new_log n ?a]" "list_all (\<lambda>w. SeqNo w < n) (rows d)" by blast
  moreover have "list_all (\<lambda>r. MinKey ?a \<le> Key r \<and> Key r \<le> MaxKey ?a) records"
    using batch_attrs_bounds [OF srt] by (auto simp: list_all_iff)
  moreover have "Path ?a = wal_path uuid"
    "SizeBytes ?a = go_int (int (length (WriteRecords (batch_table srt records))))"
    by (simp_all add: batch_attrs_def ComputeSize_wrapped_length)
  ultimately show ?thesis
    using upload_batch_ok [OF os up] by auto
qed

definition empty_bucket :: mem_bucket where
  "empty_bucket = \<lparr>script = [], objects = []\<rparr>"

definition fresh_conn :: conn where
  "fresh_conn = \<lparr>outcomes = [], database = migrated\<rparr>"

lemma db_ok_fresh_conn: "db_ok (database fresh_conn)"
  by (simp add: fresh_conn_def db_ok_migrated)

lemma two_writes_table:
  "batch_table insertion_sort two_writes = [\<lparr>Key = ''k'', Value = [2], Tombstone = False\<rparr>]"
  by (simp add: batch_table_def dedup_keep_last insertion_sort_def two_writes_def key_less_def)

lemmas run_writeBatch = writeBatch_def upload_batch_def insert_batch_def mem_upload_def
  empty_bucket_def fresh_conn_def Queries_AddWriteAheadLog_def Let_def two_writes_table

theorem write_batch_success_witness:
  "mem_contents (fst (snd (writeBatch insertion_sort mem_upload Queries_AddWriteAheadLog ''x'' 0
       two_writes (empty_bucket, fresh_conn)))) ''wal/x.sstable'' =
     Some (WriteRecords [\<lparr>Key = ''k'', Value = [2], Tombstone = False\<rparr>])"
proof -
  let ?run = "writeBatch insertion_sort mem_upload Queries_AddWriteAheadLog ''x'' 0
       two_writes (empty_bucket, fresh_conn)"
  have "fst ?run = None" by (simp add: run_writeBatch)
  then have w: "?run = (None, (fst (snd ?run), snd (snd ?run)))"
    by (metis prod.collapse)
  from write_batch_success [OF mem.object_store_axioms querier.wal_log_axioms
      insertion.slice_sort_axioms db_ok_fresh_conn w]
  have "mem_contents (fst (snd ?run)) (wal_path ''x'') =
      Some (WriteRecords (batch_table insertion_sort two_writes))"
    by blast
  then show ?thesis by (simp add: wal_path_def two_writes_table)
qed

text \<open>C14. A row is never visible without its object: whatever \<^verbatim>\<open>writeBatch\<close> returns, and
  whichever of its calls fail, every row it added names an object that holds the encoded table.\<close>

theorem no_row_without_object:
  assumes os: "object_store upload fetch contents" and wl: "wal_log add_wal rows valid"
    and d: "valid d"
    and w: "writeBatch srt upload add_wal uuid now records (b, d) = (r, (b', d'))"
    and new: "row \<in> set (rows d')" "row \<notin> set (rows d)"
  shows "contents b' (Path (Attrs row)) = Some (WriteRecords (batch_table srt records))"
proof -
  let ?a = "batch_attrs uuid now (batch_table srt records)"
  from w new have up: "upload_batch srt upload uuid records b = (None, b')"
    and ins: "snd (insert_batch srt add_wal uuid now records d) = d'"
    by (auto simp: writeBatch_def split: prod.splits option.splits)
  obtain e where "add_wal ?a d = (e, d')"
    using ins by (cases "add_wal ?a d") (auto simp: insert_batch_snd)
  then have "rows d' = rows d \<or> (\<exists>n. rows d' = rows d @ [new_log n ?a])"
    using wal_log.add_wal_ok [OF wl d] wal_log.add_wal_error [OF wl d] by (cases e) blast+
  with new have "Path (Attrs row) = wal_path uuid" by (auto simp: new_log_def batch_attrs_def)
  with upload_batch_ok [OF os up] show ?thesis by simp
qed

theorem no_row_without_object_witness:
  "mem_contents (fst (snd (writeBatch insertion_sort mem_upload Queries_AddWriteAheadLog ''x'' 0
       two_writes (empty_bucket, fresh_conn\<lparr>outcomes := [ReplyLost ErrCanceled]\<rparr>)))) ''wal/x.sstable'' =
     Some (WriteRecords (batch_table insertion_sort two_writes))"
proof -
  let ?c = "fresh_conn\<lparr>outcomes := [ReplyLost ErrCanceled]\<rparr>"
  let ?run = "writeBatch insertion_sort mem_upload Queries_AddWriteAheadLog ''x'' 0
       two_writes (empty_bucket, ?c)"
  let ?row = "new_log 1 (batch_attrs ''x'' 0 (batch_table insertion_sort two_writes))"
  have w: "?run = (fst ?run, (fst (snd ?run), snd (snd ?run)))" by simp
  have ok: "db_ok (database ?c)" using db_ok_fresh_conn by simp
  have "?row \<in> set (conn_rows (snd (snd ?run)))" "?row \<notin> set (conn_rows ?c)"
    by (simp_all add: run_writeBatch conn_rows_def AddWriteAheadLog_def migrated_def new_log_def)
  from no_row_without_object [OF mem.object_store_axioms querier.wal_log_axioms ok w this]
  show ?thesis by (simp add: new_log_def batch_attrs_def wal_path_def)
qed

end
