(* ===== verification/Cache.thy ===== *)
theory Cache
  imports SSTable ObjStore
begin

text \<open>
  \<^verbatim>\<open>internal/cache/handler.go\<close>: the cache with a limit in bytes on top of the LRU cache of a
  third-party package, and the handler that answers key lookups from a cached object. The LRU
  cache is a parameter, a record of its calls, with its documented behaviour in the locale
  \<open>lru_cache\<close>; the instance is the list of the entries, oldest first. Both mutexes of the code
  make the operations atomic, so they are plain functions of the state. Sizes are sums of the
  lengths of slices in memory, far from \<open>2 ^ 63\<close>, and are not wrapped.

  The lemmas: adding keeps the cached bytes within the limit; the size the cache keeps is exact
  until the LRU cache evicts by number of entries, and from then on too large by a surplus that
  never shrinks; and a lookup answers from what the object store holds.
\<close>

section \<open>The LRU cache\<close>

record 'c lru =
  New :: "nat \<Rightarrow> 'c result"
  Get :: "string \<Rightarrow> 'c \<Rightarrow> bytes option \<times> 'c"
  Add :: "string \<Rightarrow> bytes \<Rightarrow> 'c \<Rightarrow> 'c"
  Remove :: "string \<Rightarrow> 'c \<Rightarrow> 'c"
  GetOldest :: "'c \<Rightarrow> (string \<times> bytes) option"
  Len :: "'c \<Rightarrow> nat"

text \<open>\<open>entries\<close> lists the entries from the least to the most recently used.\<close>

definition without :: "string \<Rightarrow> (string \<times> bytes) list \<Rightarrow> (string \<times> bytes) list" where
  "without k es = filter (\<lambda>(k', v). k' \<noteq> k) es"

locale lru_cache =
  fixes L :: "'c lru"
    and entries :: "'c \<Rightarrow> (string \<times> bytes) list"
    and capacity :: nat
  assumes new_empty: "0 < capacity \<Longrightarrow> \<exists>c. New L capacity = Inr c \<and> entries c = []"
    and get_value: "fst (Get L k c) = map_of (entries c) k"
    and get_entries: "entries (snd (Get L k c)) =
      (case map_of (entries c) k of None \<Rightarrow> entries c | Some v \<Rightarrow> without k (entries c) @ [(k, v)])"
    and remove_entries: "entries (Remove L k c) = without k (entries c)"
    and oldest: "GetOldest L c = (case entries c of [] \<Rightarrow> None | e # _ \<Rightarrow> Some e)"
    and len: "Len L c = length (entries c)"
    and add_entries: "entries (Add L k v c) =
      (if k \<notin> fst ` set (entries c) \<and> length (entries c) \<ge> capacity
       then tl (entries c) @ [(k, v)] else without k (entries c) @ [(k, v)])"

section \<open>The cache with a limit in bytes\<close>

record CacheConfig =
  CacheEnabled :: bool
  MaxSizeBytes :: int

record 'c sizeAwareCache =
  cache :: 'c
  currentSize :: int
  maxSize :: int

text \<open>\<^verbatim>\<open>lru.New\<close> makes an empty cache for 1024 entries; it fails only for a size below 1.\<close>

definition max_items :: nat where
  "max_items = 1024"

definition newSizeAwareCache :: "'c lru \<Rightarrow> int \<Rightarrow> 'c sizeAwareCache result" where
  "newSizeAwareCache L maxSizeBytes =
     (case New L max_items of
        Inl e \<Rightarrow> Inl e
      | Inr c \<Rightarrow> Inr \<lparr>cache = c, currentSize = 0, maxSize = maxSizeBytes\<rparr>)"

text \<open>
  The loop of \<^verbatim>\<open>add\<close>. It stops because every turn removes an entry; as that is a law of the
  parameter, the definition does not assume it, and None would mean that the loop never ends.
  \<^verbatim>\<open>GetOldest\<close> on an empty cache returns zero values.
\<close>

partial_function (option) make_room ::
  "'c lru \<Rightarrow> nat \<Rightarrow> 'c sizeAwareCache \<Rightarrow> 'c sizeAwareCache option"
where
  "make_room L n c =
     (if currentSize c + int n > maxSize c \<and> Len L (cache c) > 0 then
        (let (oldestKey, oldestValue) =
               (case GetOldest L (cache c) of None \<Rightarrow> ([], []) | Some e \<Rightarrow> e)
         in make_room L n (c\<lparr>cache := Remove L oldestKey (cache c),
              currentSize := currentSize c - int (length oldestValue)\<rparr>))
      else Some c)"

definition add :: "'c lru \<Rightarrow> string \<Rightarrow> bytes \<Rightarrow> 'c sizeAwareCache \<Rightarrow> (bool \<times> 'c sizeAwareCache) option"
where
  "add L key val c =
     (if int (length val) > maxSize c then Some (False, c)
      else
        (let (oldValue, ch) = Get L key (cache c);
             c = c\<lparr>cache := ch\<rparr>;
             c = (case oldValue of
                    None \<Rightarrow> c
                  | Some old \<Rightarrow> c\<lparr>currentSize := currentSize c - int (length old)\<rparr>)
         in case make_room L (length val) c of
              None \<Rightarrow> None
            | Some c \<Rightarrow>
                Some (True, c\<lparr>cache := Add L key val (cache c),
                  currentSize := currentSize c + int (length val)\<rparr>)))"

definition get :: "'c lru \<Rightarrow> string \<Rightarrow> 'c sizeAwareCache \<Rightarrow> bytes option \<times> 'c sizeAwareCache" where
  "get L key c = (case Get L key (cache c) of (v, ch) \<Rightarrow> (v, c\<lparr>cache := ch\<rparr>))"

section \<open>The handler\<close>

text \<open>\<^verbatim>\<open>NewHandler\<close> panics if the cache cannot be made.\<close>

definition NewCacheHandler :: "'c lru \<Rightarrow> CacheConfig \<Rightarrow> 'c sizeAwareCache result" where
  "NewCacheHandler L cfg =
     (case newSizeAwareCache L (MaxSizeBytes cfg) of
        Inl e \<Rightarrow> Inl (ErrPanic ''failed to create cache'')
      | Inr c \<Rightarrow> Inr c)"

definition getObjectData ::
  "'c lru \<Rightarrow> 'b fetch_fun \<Rightarrow> string \<Rightarrow> 'c sizeAwareCache \<times> 'b \<Rightarrow>
   (bytes result \<times> 'c sizeAwareCache \<times> 'b) option"
where
  "getObjectData L fetch objPath s =
     (let (c, b) = s in
      case get L objPath c of
        (Some data, c) \<Rightarrow> Some (Inr data, c, b)
      | (None, c) \<Rightarrow>
          (case fetch objPath b of
             (Inl e, b) \<Rightarrow> Some (Inl (ErrWrap ''downloading object'' e), c, b)
           | (Inr (Inl e), b) \<Rightarrow> Some (Inl (ErrWrap ''reading object'' e), c, b)
           | (Inr (Inr data), b) \<Rightarrow>
               map_option (\<lambda>(_, c). (Inr data, c, b)) (add L objPath data c)))"

text \<open>
  The request's keys are a map to empty messages, of which only membership matters. The two maps
  of the response are an association list and a list of keys.
\<close>

record GetRequest =
  GetObjectPath :: string
  GetKeys :: "string list"

record GetResponse =
  Found :: "(string \<times> bytes) list"
  Deleted :: "string list"

definition collect_key :: "string list \<Rightarrow> GetResponse \<Rightarrow> Record \<Rightarrow> GetResponse \<times> bool" where
  "collect_key keys resp r =
     (if Key r \<in> set keys then
        (if Tombstone r then (resp\<lparr>Deleted := List.insert (Key r) (Deleted resp)\<rparr>, True)
         else (resp\<lparr>Found := AList.update (Key r) (Value r) (Found resp)\<rparr>, True))
      else (resp, True))"

definition lookup_object :: "string list \<Rightarrow> bytes \<Rightarrow> GetResponse result" where
  "lookup_object keys data =
     (case Records data (collect_key keys) \<lparr>Found = [], Deleted = []\<rparr> of
        (resp, Returned) \<Rightarrow> Inr resp
      | (_, Panicked) \<Rightarrow> Inl (ErrPanic ''slice bounds out of range''))"

definition CacheGet ::
  "'c lru \<Rightarrow> 'b fetch_fun \<Rightarrow> GetRequest \<Rightarrow> 'c sizeAwareCache \<times> 'b \<Rightarrow>
   (GetResponse result \<times> 'c sizeAwareCache \<times> 'b) option"
where
  "CacheGet L fetch req s =
     (if GetObjectPath req = [] then
        Some (Inl (ErrRPC CodeInvalidArgument (ErrText ''object_path is required'')), s)
      else if length (GetKeys req) = 0 then
        Some (Inl (ErrRPC CodeInvalidArgument (ErrText ''at least one key is required'')), s)
      else
        (case getObjectData L fetch (GetObjectPath req) s of
           None \<Rightarrow> None
         | Some (Inl e, s) \<Rightarrow> Some (Inl (ErrRPC CodeInternal (ErrWrap ''error retrieving object'' e)), s)
         | Some (Inr data, s) \<Rightarrow> Some (lookup_object (GetKeys req) data, s)))"

text \<open>
  The requests of a run, one after the other, each with the object store as it is at that time;
  None if a call never returns.
\<close>

fun serve where
  "serve L fetch [] c = Some c"
| "serve L fetch ((req, b) # reqs) c =
     (case CacheGet L fetch req (c, b) of
        None \<Rightarrow> None
      | Some (_, c, _) \<Rightarrow> serve L fetch reqs c)"

section \<open>The list of entries as an LRU cache\<close>

definition list_lru :: "nat \<Rightarrow> (string \<times> bytes) list lru" where
  "list_lru cap =
     \<lparr>New = (\<lambda>n. if 0 < n then Inr [] else Inl (ErrText ''must provide a positive size'')),
      Get = (\<lambda>k es. (map_of es k,
        case map_of es k of None \<Rightarrow> es | Some v \<Rightarrow> without k es @ [(k, v)])),
      Add = (\<lambda>k v es.
        if k \<notin> fst ` set es \<and> length es \<ge> cap then tl es @ [(k, v)] else without k es @ [(k, v)]),
      Remove = without,
      GetOldest = (\<lambda>es. case es of [] \<Rightarrow> None | e # _ \<Rightarrow> Some e),
      Len = length\<rparr>"

interpretation list_lru: lru_cache "list_lru n" "\<lambda>es. es" n for n
  by standard (auto simp: list_lru_def)

section \<open>Sizes\<close>

definition sum_bytes :: "(string \<times> bytes) list \<Rightarrow> int" where
  "sum_bytes es = int (sum_list (map (length \<circ> snd) es))"

lemma sum_bytes_simps [simp]:
  "sum_bytes [] = 0" "sum_bytes (e # es) = int (length (snd e)) + sum_bytes es"
  "sum_bytes (es @ fs) = sum_bytes es + sum_bytes fs" "0 \<le> sum_bytes es"
  by (simp_all add: sum_bytes_def)

lemma without_absent: "k \<notin> fst ` set es \<Longrightarrow> without k es = es"
  by (induction es) (auto simp: without_def)

lemma without_simps [simp]:
  "without k [] = []" "without k (es @ fs) = without k es @ without k fs"
  "set (without k es) = {e \<in> set es. fst e \<noteq> k}"
  "without k (e # es) = (if fst e = k then without k es else e # without k es)"
  by (auto simp: without_def)

lemma distinct_without [simp]:
  "distinct (map fst es) \<Longrightarrow> distinct (map fst (without k es @ [(k, v)]))"
  by (induction es) (auto simp: without_def)

lemma sum_bytes_without:
  "distinct (map fst es) \<Longrightarrow> map_of es k = Some v \<Longrightarrow> sum_bytes (without k es) = sum_bytes es - int (length v)"
proof (induction es)
  case (Cons e es)
  then show ?case by (cases e) (auto simp: without_absent rev_image_eqI)
qed simp

text \<open>The size kept is at least the size cached, and the cached bytes are within the limit.\<close>

definition cached :: "('c \<Rightarrow> (string \<times> bytes) list) \<Rightarrow> 'c sizeAwareCache \<Rightarrow> (string \<times> bytes) list" where
  "cached entries c = entries (cache c)"

definition cache_ok :: "('c \<Rightarrow> (string \<times> bytes) list) \<Rightarrow> 'c sizeAwareCache \<Rightarrow> bool" where
  "cache_ok entries c \<longleftrightarrow>
     distinct (map fst (cached entries c)) \<and>
     sum_bytes (cached entries c) \<le> currentSize c \<and>
     sum_bytes (cached entries c) \<le> max 0 (maxSize c)"

definition surplus :: "('c \<Rightarrow> (string \<times> bytes) list) \<Rightarrow> 'c sizeAwareCache \<Rightarrow> int" where
  "surplus entries c = currentSize c - sum_bytes (cached entries c)"

context lru_cache
begin

lemma make_room_drops:
  assumes "distinct (map fst (entries (cache c)))"
  shows "\<exists>c' k. make_room L n c = Some c' \<and>
    entries (cache c') = drop k (entries (cache c)) \<and> k \<le> length (entries (cache c)) \<and>
    currentSize c' = currentSize c - sum_bytes (take k (entries (cache c))) \<and> maxSize c' = maxSize c \<and>
    (currentSize c' + int n \<le> maxSize c \<or> k = length (entries (cache c))) \<and>
    (\<forall>j < k. currentSize c - sum_bytes (take j (entries (cache c))) + int n > maxSize c)"
  using assms
proof (induction "length (entries (cache c))" arbitrary: c)
  case 0
  then show ?case by (intro exI [of _ c] exI [of _ 0]) (simp add: make_room.simps [of L n c] len)
next
  case (Suc m)
  show ?case
  proof (cases "currentSize c + int n > maxSize c")
    case False
    then show ?thesis
      by (intro exI [of _ c] exI [of _ 0]) (simp add: make_room.simps [of L n c])
  next
    case True
    obtain e es where es: "entries (cache c) = e # es" using Suc.hyps(2) by (cases "entries (cache c)") auto
    let ?c = "c\<lparr>cache := Remove L (fst e) (cache c), currentSize := currentSize c - int (length (snd e))\<rparr>"
    have es': "entries (cache ?c) = es"
      using Suc.prems es by (auto simp: remove_entries without_absent)
    have step: "make_room L n c = make_room L n ?c"
      using True es by (simp add: make_room.simps [of L n c] len oldest split: prod.split)
    have hyps: "m = length (entries (cache ?c))" "distinct (map fst (entries (cache ?c)))"
      using Suc.hyps(2) Suc.prems es es' by auto
    from Suc.hyps(1) [OF hyps] obtain c' k where IH: "make_room L n ?c = Some c'"
      "entries (cache c') = drop k es" "k \<le> length es"
      "currentSize c' = currentSize ?c - sum_bytes (take k es)" "maxSize c' = maxSize c"
      "currentSize c' + int n \<le> maxSize c \<or> k = length es"
      "\<forall>j < k. currentSize ?c - sum_bytes (take j es) + int n > maxSize c"
      unfolding es' by auto
    have "currentSize c - sum_bytes (take j (e # es)) + int n > maxSize c" if "j < Suc k" for j
      using that True IH(7) by (cases j) auto
    with IH step show ?thesis
      by (intro exI [of _ c'] exI [of _ "Suc k"]) (auto simp: es)
  qed
qed

lemma sum_bytes_tl: "sum_bytes (tl es) = sum_bytes es - (case es of [] \<Rightarrow> 0 | e # _ \<Rightarrow> int (length (snd e)))"
  by (cases es) auto

lemma sum_bytes_take_drop: "sum_bytes (take k es) + sum_bytes (drop k es) = sum_bytes es"
  by (metis append_take_drop_id sum_bytes_simps(3))

lemma add_absent:
  assumes ok: "cache_ok entries c" and absent: "map_of (entries (cache c)) key = None"
  shows "\<exists>b c'. add L key v c = Some (b, c') \<and> cache_ok entries c' \<and> maxSize c' = maxSize c \<and>
    surplus entries c \<le> surplus entries c' \<and>
    set (entries (cache c')) \<subseteq> set (entries (cache c)) \<union> {(key, v)}"
proof (cases "int (length v) > maxSize c")
  case True
  then show ?thesis using ok by (intro exI [of _ False] exI [of _ c]) (auto simp: add_def)
next
  case False
  let ?c = "c\<lparr>cache := snd (Get L key (cache c))\<rparr>"
  have es: "entries (cache ?c) = entries (cache c)" using absent by (simp add: get_entries)
  have d: "distinct (map fst (entries (cache ?c)))" using ok es by (simp add: cache_ok_def cached_def)
  from make_room_drops [OF d, of "length v"] obtain c1 k where c1:
    "make_room L (length v) ?c = Some c1" "entries (cache c1) = drop k (entries (cache c))"
    "k \<le> length (entries (cache c))"
    "currentSize c1 = currentSize c - sum_bytes (take k (entries (cache c)))" "maxSize c1 = maxSize c"
    "currentSize c1 + int (length v) \<le> maxSize c \<or> k = length (entries (cache c))"
    unfolding es by auto
  let ?c' = "c1\<lparr>cache := Add L key v (cache c1), currentSize := currentSize c1 + int (length v)\<rparr>"
  have add: "add L key v c = Some (True, ?c')"
    using False absent c1(1) by (simp add: add_def get_value split_beta)
  have fresh: "key \<notin> fst ` set (entries (cache c1))"
    using absent c1(2) set_drop_subset [of k "entries (cache c)"] by (auto simp: map_of_eq_None_iff)
  have es': "entries (cache ?c') =
      (if length (entries (cache c1)) \<ge> capacity then tl (entries (cache c1)) else entries (cache c1)) @
      [(key, v)]"
    using fresh by (simp add: add_entries without_absent)
  have tot: "sum_bytes (entries (cache c1)) \<le> currentSize c1"
    "sum_bytes (entries (cache c1)) + int (length v) \<le> maxSize c"
    using ok c1(2-6) False sum_bytes_take_drop [of k "entries (cache c)"] by (auto simp: cache_ok_def cached_def)
  have kept: "sum_bytes (entries (cache ?c')) \<le> sum_bytes (entries (cache c1)) + int (length v)"
    using es' by (simp add: sum_bytes_tl split: list.split)
  have "distinct (map fst (entries (cache c1)))"
    using ok c1(2) by (simp add: cache_ok_def cached_def drop_map [symmetric] distinct_drop)
  moreover have tl: "set (tl xs) \<subseteq> set xs" for xs :: "(string \<times> bytes) list" by (cases xs) auto
  ultimately have dist: "distinct (map fst (entries (cache ?c')))"
    using fresh es' by (auto simp: map_tl distinct_tl dest!: subsetD [OF tl])
  have sub: "set (entries (cache ?c')) \<subseteq> set (entries (cache c)) \<union> {(key, v)}"
    using es' c1(2) by (auto dest: in_set_dropD subsetD [OF tl] split: if_splits)
  have "surplus entries c = surplus entries c1"
    using c1(2,4) sum_bytes_take_drop [of k "entries (cache c)"] by (simp add: surplus_def cached_def)
  also have "\<dots> \<le> surplus entries ?c'" using kept by (simp add: surplus_def cached_def)
  finally show ?thesis
    using add dist tot kept sub c1(5) by (auto simp: cache_ok_def cached_def)
qed

text \<open>While the LRU cache has room for another entry, or the key is cached, the size stays exact.\<close>

lemma add_exact:
  assumes d: "distinct (map fst (entries (cache c)))"
    and exact: "surplus entries c = 0" and within: "sum_bytes (entries (cache c)) \<le> maxSize c"
    and room: "key \<in> fst ` set (entries (cache c)) \<or> length (entries (cache c)) < capacity"
    and fits: "int (length v) \<le> maxSize c"
  shows "\<exists>c' k. add L key v c = Some (True, c') \<and> surplus entries c' = 0 \<and>
    sum_bytes (entries (cache c')) \<le> maxSize c \<and> maxSize c' = maxSize c \<and>
    entries (cache c') = drop k (without key (entries (cache c))) @ [(key, v)]"
proof -
  let ?rest = "without key (entries (cache c))"
  obtain c0 tail where c0: "entries (cache c0) = ?rest @ tail" "tail = [] \<or> (\<exists>old. tail = [(key, old)])"
    "currentSize c0 = sum_bytes ?rest" "maxSize c0 = maxSize c" "tail = [] \<longrightarrow> length ?rest < capacity"
    "add L key v c = map_option (\<lambda>c. (True, c\<lparr>cache := Add L key v (cache c),
       currentSize := currentSize c + int (length v)\<rparr>)) (make_room L (length v) c0)"
  proof (cases "map_of (entries (cache c)) key")
    case None
    then have "key \<notin> fst ` set (entries (cache c))" by (simp add: map_of_eq_None_iff)
    then show ?thesis
      using None exact fits room without_absent [of key "entries (cache c)"]
      by (intro that [of "c\<lparr>cache := snd (Get L key (cache c))\<rparr>" "[]"])
        (auto simp: get_entries surplus_def cached_def add_def get_value split_beta Let_def
          split: option.split)
  next
    case (Some old)
    then show ?thesis
      using exact fits sum_bytes_without [OF d Some]
      by (intro that [of "c\<lparr>cache := snd (Get L key (cache c)),
            currentSize := currentSize c - int (length old)\<rparr>" "[(key, old)]"])
        (auto simp: get_entries surplus_def cached_def add_def get_value split_beta Let_def
          split: option.split)
  qed
  have d0: "distinct (map fst (entries (cache c0)))"
    using d c0(1,2) by (auto simp: distinct_map_filter without_def)
  from make_room_drops [OF d0, of "length v"] obtain c1 k where c1:
    "make_room L (length v) c0 = Some c1" "entries (cache c1) = drop k (?rest @ tail)"
    "k \<le> length (?rest @ tail)" "currentSize c1 = sum_bytes ?rest - sum_bytes (take k (?rest @ tail))"
    "maxSize c1 = maxSize c" "currentSize c1 + int (length v) \<le> maxSize c \<or> k = length (?rest @ tail)"
    "\<forall>j < k. sum_bytes ?rest - sum_bytes (take j (?rest @ tail)) + int (length v) > maxSize c"
    unfolding c0(1,3,4) by auto
  have k: "k \<le> length ?rest"
  proof (rule ccontr)
    assume "\<not> k \<le> length ?rest"
    then have "length ?rest < k" by simp
    with c1(7) fits show False by fastforce
  qed
  let ?c' = "c1\<lparr>cache := Add L key v (cache c1), currentSize := currentSize c1 + int (length v)\<rparr>"
  have es': "entries (cache ?c') = drop k ?rest @ [(key, v)]"
  proof (cases "tail = []")
    case True
    have "key \<notin> fst ` set (drop k ?rest)" by (auto dest: in_set_dropD)
    then show ?thesis using True c1(2) c0(5) k by (auto simp: add_entries without_absent)
  next
    case False
    then obtain old where "tail = [(key, old)]" using c0(2) by blast
    moreover have "without key (drop k ?rest) = drop k ?rest"
      by (rule without_absent) (auto dest: in_set_dropD)
    ultimately show ?thesis using c1(2) k by (auto simp: add_entries)
  qed
  moreover have "sum_bytes (take k ?rest) + sum_bytes (drop k ?rest) = sum_bytes ?rest" by (rule sum_bytes_take_drop)
  ultimately have "surplus entries ?c' = 0" "sum_bytes (entries (cache ?c')) = currentSize c1 + int (length v)"
    using c1(4) k by (simp_all add: surplus_def cached_def)
  moreover have "currentSize c1 + int (length v) \<le> maxSize c"
    using c1(4,6) k fits by (auto simp: sum_bytes_def)
  ultimately show ?thesis
    using c0(6) c1(1,5) es' by (intro exI [of _ ?c'] exI [of _ k]) simp
qed

end

section \<open>Requests\<close>

text \<open>Every cached object is what the store holds.\<close>

definition coherent where
  "coherent entries contents c b \<longleftrightarrow>
     list_all (\<lambda>(p, data). contents b p = Some data) (cached entries c)"

lemma coherent_iff:
  "coherent entries contents c b \<longleftrightarrow> (\<forall>p data. (p, data) \<in> set (cached entries c) \<longrightarrow> contents b p = Some data)"
  by (auto simp: coherent_def list_all_iff)

context lru_cache
begin

lemma get_miss:
  "map_of (cached entries c) k = None \<Longrightarrow>
   \<exists>c'. get L k c = (None, c') \<and> cached entries c' = cached entries c \<and>
     currentSize c' = currentSize c \<and> maxSize c' = maxSize c"
  by (auto simp: get_def cached_def get_entries get_value prod_eq_iff split: prod.split)

lemma get_hit:
  "map_of (cached entries c) k = Some v \<Longrightarrow>
   \<exists>c'. get L k c = (Some v, c') \<and> cached entries c' = without k (cached entries c) @ [(k, v)] \<and>
     currentSize c' = currentSize c \<and> maxSize c' = maxSize c"
  using get_value [of k "cache c"] get_entries [of k "cache c"]
  by (cases "Get L k (cache c)") (auto simp: get_def cached_def)

lemma getObjectData_ok:
  assumes os: "object_store upload fetch contents" and ok: "cache_ok entries c"
    and coh: "coherent entries contents c b"
  shows "\<exists>r c' b'. getObjectData L fetch p (c, b) = Some (r, c', b') \<and>
    cache_ok entries c' \<and> maxSize c' = maxSize c \<and> surplus entries c \<le> surplus entries c' \<and>
    coherent entries contents c' b \<and> contents b' = contents b \<and>
    (\<forall>data. r = Inr data \<longrightarrow> contents b p = Some data)"
proof (cases "map_of (cached entries c) p")
  case (Some v)
  from get_hit [OF this] obtain c' where c': "get L p c = (Some v, c')"
    "cached entries c' = without p (cached entries c) @ [(p, v)]"
    "currentSize c' = currentSize c" "maxSize c' = maxSize c" by blast
  have d: "distinct (map fst (cached entries c))" using ok by (simp add: cache_ok_def)
  have "sum_bytes (cached entries c') = sum_bytes (cached entries c)"
    using sum_bytes_without [OF d Some] c'(2) by simp
  then have "cache_ok entries c'" "surplus entries c' = surplus entries c"
    using ok c' distinct_without [OF d] by (simp_all add: cache_ok_def surplus_def)
  moreover have v: "contents b p = Some v" using coh map_of_SomeD [OF Some] by (auto simp: coherent_iff)
  moreover have "coherent entries contents c' b" using coh c'(2) v by (auto simp: coherent_iff)
  ultimately show ?thesis
    using c' by (intro exI [of _ "Inr v"] exI [of _ c'] exI [of _ b]) (simp add: getObjectData_def)
next
  case None
  from get_miss [OF this] obtain c1 where c1: "get L p c = (None, c1)"
    "cached entries c1 = cached entries c" "currentSize c1 = currentSize c" "maxSize c1 = maxSize c"
    by blast
  have ok1: "cache_ok entries c1" "surplus entries c1 = surplus entries c"
    "coherent entries contents c1 b"
    using ok coh c1 by (simp_all add: cache_ok_def surplus_def coherent_def)
  obtain r b' where f: "fetch p b = (r, b')" by fastforce
  note fr = object_store.fetch_result [OF os f]
  show ?thesis
  proof (cases "\<exists>data. r = Inr (Inr data)")
    case False
    then show ?thesis
      using c1 ok1 f fr by (cases r; cases "projr r") (auto simp: getObjectData_def)
  next
    case True
    then obtain data where r: "r = Inr (Inr data)" by blast
    then have data: "contents b p = Some data" using fr by blast
    have "map_of (entries (cache c1)) p = None" using None c1(2) by (simp add: cached_def)
    from add_absent [OF ok1(1) this, of data] obtain x c' where c': "add L p data c1 = Some (x, c')"
      "cache_ok entries c'" "maxSize c' = maxSize c1" "surplus entries c1 \<le> surplus entries c'"
      "set (entries (cache c')) \<subseteq> set (entries (cache c1)) \<union> {(p, data)}" by blast
    have "coherent entries contents c' b"
      using ok1(3) c'(5) data by (auto simp: coherent_iff cached_def)
    then show ?thesis
      using c1 c' ok1 f fr r data
      by (intro exI [of _ "Inr data"] exI [of _ c'] exI [of _ b']) (simp add: getObjectData_def)
  qed
qed

lemma CacheGet_ok:
  assumes os: "object_store upload fetch contents" and ok: "cache_ok entries c"
    and coh: "coherent entries contents c b"
  shows "\<exists>r c' b'. CacheGet L fetch req (c, b) = Some (r, c', b') \<and>
    cache_ok entries c' \<and> maxSize c' = maxSize c \<and> surplus entries c \<le> surplus entries c' \<and>
    coherent entries contents c' b \<and> contents b' = contents b \<and>
    (\<forall>resp. r = Inr resp \<longrightarrow> GetObjectPath req \<noteq> [] \<and> GetKeys req \<noteq> [] \<and>
       (\<exists>data. contents b (GetObjectPath req) = Some data \<and>
         lookup_object (GetKeys req) data = Inr resp))"
proof (cases "GetObjectPath req = [] \<or> GetKeys req = []")
  case True
  then show ?thesis using ok coh by (auto simp: CacheGet_def)
next
  case False
  from getObjectData_ok [OF os ok coh, of "GetObjectPath req"] obtain r c' b' where
    g: "getObjectData L fetch (GetObjectPath req) (c, b) = Some (r, c', b')" and
    rest: "cache_ok entries c'" "maxSize c' = maxSize c" "surplus entries c \<le> surplus entries c'"
    "coherent entries contents c' b" "contents b' = contents b"
    "\<forall>data. r = Inr data \<longrightarrow> contents b (GetObjectPath req) = Some data" by blast
  then show ?thesis using False by (cases r) (auto simp: CacheGet_def)
qed

text \<open>Objects are never changed or deleted, so the store only grows between requests.\<close>

lemma coherent_mono:
  "coherent entries contents c b \<Longrightarrow> contents b \<subseteq>\<^sub>m contents b' \<Longrightarrow> coherent entries contents c b'"
  by (force simp: coherent_iff map_le_def)

end

context lru_cache
begin

lemma serve_ok:
  assumes os: "object_store upload fetch contents"
  shows "cache_ok entries c \<Longrightarrow>
    sorted_wrt (\<lambda>b b'. contents b \<subseteq>\<^sub>m contents b') (map snd hist @ [b]) \<Longrightarrow>
    \<forall>b' \<in> set (map snd hist @ [b]). coherent entries contents c b' \<Longrightarrow>
    \<exists>c'. serve L fetch hist c = Some c' \<and> cache_ok entries c' \<and> maxSize c' = maxSize c \<and>
      surplus entries c \<le> surplus entries c' \<and> coherent entries contents c' b"
proof (induction hist arbitrary: c)
  case (Cons x hist)
  obtain req b1 where x: "x = (req, b1)" by fastforce
  have "coherent entries contents c b1" using Cons.prems(3) x by simp
  from CacheGet_ok [OF os Cons.prems(1) this, of req] obtain r c1 b2 where
    g: "CacheGet L fetch req (c, b1) = Some (r, c1, b2)" and ok1: "cache_ok entries c1"
    and c1: "maxSize c1 = maxSize c" "surplus entries c \<le> surplus entries c1"
    and coh1: "coherent entries contents c1 b1" by blast
  have "\<forall>b' \<in> set (map snd hist @ [b]). coherent entries contents c1 b'"
    using Cons.prems(2) x coherent_mono [OF coh1] by auto
  from Cons.IH [OF ok1 _ this] Cons.prems(2) obtain c' where
    "serve L fetch hist c1 = Some c'" "cache_ok entries c'" "maxSize c' = maxSize c1"
    "surplus entries c1 \<le> surplus entries c'" "coherent entries contents c' b" by auto
  with g c1 x show ?case by auto
qed simp

lemma NewCacheHandler_ok:
  assumes "capacity = max_items"
  shows "\<exists>c. NewCacheHandler L cfg = Inr c \<and> cache_ok entries c \<and> cached entries c = [] \<and>
    maxSize c = MaxSizeBytes cfg \<and> surplus entries c = 0"
proof -
  obtain c where "New L max_items = Inr c" "entries c = []"
    using new_empty assms by (auto simp: max_items_def)
  then show ?thesis
    by (simp add: NewCacheHandler_def newSizeAwareCache_def cache_ok_def cached_def surplus_def)
qed

lemma serve_from_new:
  assumes os: "object_store upload fetch contents" and cap: "capacity = max_items"
    and new: "NewCacheHandler L cfg = Inr c0"
    and grows: "sorted_wrt (\<lambda>b b'. contents b \<subseteq>\<^sub>m contents b') (map snd hist @ [b])"
  shows "\<exists>c. serve L fetch hist c0 = Some c \<and> cache_ok entries c \<and>
    maxSize c = MaxSizeBytes cfg \<and> coherent entries contents c b"
proof -
  have ok: "cache_ok entries c0" "cached entries c0 = []" "maxSize c0 = MaxSizeBytes cfg"
    using NewCacheHandler_ok [OF cap, of cfg] new by auto
  have "\<forall>b' \<in> set (map snd hist @ [b]). coherent entries contents c0 b'"
    using ok(2) by (simp add: coherent_def)
  from serve_ok [OF os ok(1) grows this] ok(3) show ?thesis by auto
qed

end

text \<open>The answer for a well-formed table.\<close>

definition collected :: "string list \<Rightarrow> GetResponse \<Rightarrow> Record list \<Rightarrow> GetResponse" where
  "collected keys resp rs = foldl (\<lambda>s r. fst (collect_key keys s r)) resp rs"

lemma collected_Found:
  "distinct (map Key rs) \<Longrightarrow>
   map_of (Found (collected keys resp rs)) k =
     (case entry rs k of Some (Some v) \<Rightarrow> if k \<in> set keys then Some v else map_of (Found resp) k
      | _ \<Rightarrow> map_of (Found resp) k)"
proof (induction rs arbitrary: resp)
  case (Cons r rs)
  have "Key r = k \<Longrightarrow> entry rs k = None" using Cons.prems by (auto simp: entry_None_iff)
  with Cons show ?case
    by (auto simp: collected_def collect_key_def update_conv' split: option.splits)
qed (simp add: collected_def)

lemma collected_Deleted:
  "distinct (map Key rs) \<Longrightarrow>
   set (Deleted (collected keys resp rs)) =
     set (Deleted resp) \<union> {k \<in> set keys. entry rs k = Some None}"
proof (induction rs arbitrary: resp)
  case (Cons r rs)
  have "entry rs (Key r) = None" using Cons.prems by (auto simp: entry_None_iff)
  with Cons show ?case by (auto simp: collected_def collect_key_def)
qed (simp add: collected_def)

lemma Records_collect_key:
  "Records data (collect_key keys) resp =
     (collected keys resp (fst (collect data)), snd (collect data))"
proof -
  have "collect_key keys = (\<lambda>s r. (fst (collect_key keys s r), True))"
    by (auto simp: fun_eq_iff collect_key_def)
  then show ?thesis
    using Records_fold [of data "\<lambda>s r. fst (collect_key keys s r)"] by (metis collected_def)
qed

lemma lookup_object_collect:
  "collect data = (rs, Returned) \<Longrightarrow>
   lookup_object keys data = Inr (collected keys \<lparr>Found = [], Deleted = []\<rparr> rs)"
  by (simp add: lookup_object_def Records_collect_key)

lemma lookup_object_table:
  "length (WriteRecords rs) < 2 ^ 63 \<Longrightarrow>
   lookup_object keys (WriteRecords rs) =
     Inr (collected keys \<lparr>Found = [], Deleted = []\<rparr> (map stored rs))"
  by (simp add: lookup_object_collect collect_WriteRecords)

lemma lookup_object_entry:
  assumes "table_of data = Some rs" and "lookup_object keys data = Inr resp"
  shows "map_of (Found resp) k = Some v \<longleftrightarrow> k \<in> set keys \<and> entry rs k = Some (Some v)"
    and "k \<in> set (Deleted resp) \<longleftrightarrow> k \<in> set keys \<and> entry rs k = Some None"
proof -
  from table_of_SomeD [OF assms(1)] have c: "collect data = (rs, Returned)"
    and d: "distinct (map Key rs)" by auto
  show "map_of (Found resp) k = Some v \<longleftrightarrow> k \<in> set keys \<and> entry rs k = Some (Some v)"
    using assms(2) by (auto simp: lookup_object_collect [OF c] collected_Found [OF d] split: option.splits if_splits)
  show "k \<in> set (Deleted resp) \<longleftrightarrow> k \<in> set keys \<and> entry rs k = Some None"
    using assms(2) by (auto simp: lookup_object_collect [OF c] collected_Deleted [OF d])
qed

section \<open>The item limit\<close>

context lru_cache
begin

text \<open>
  At the LRU cache's own limit, adding a new key makes it evict the oldest entry by itself; the
  cache does not learn of it and keeps counting its bytes.
\<close>

lemma add_at_item_limit:
  assumes full: "length (cached entries c) = capacity" "0 < capacity"
    and absent: "map_of (cached entries c) key = None"
    and fits: "currentSize c + int (length v) \<le> maxSize c" "0 \<le> currentSize c"
  shows "\<exists>c'. add L key v c = Some (True, c') \<and>
    cached entries c' = tl (cached entries c) @ [(key, v)] \<and>
    currentSize c' = currentSize c + int (length v) \<and>
    surplus entries c' = surplus entries c + int (length (snd (hd (cached entries c))))"
proof -
  let ?c = "c\<lparr>cache := snd (Get L key (cache c))\<rparr>"
  have es: "cached entries ?c = cached entries c"
    using absent by (simp add: get_entries cached_def)
  have room: "make_room L (length v) ?c = Some ?c"
    using fits by (simp add: make_room.simps [of L "length v" ?c])
  let ?c' = "?c\<lparr>cache := Add L key v (cache ?c), currentSize := currentSize c + int (length v)\<rparr>"
  have "add L key v c = Some (True, ?c')"
    using fits absent room by (simp add: add_def get_value split_beta cached_def)
  moreover have "key \<notin> fst ` set (entries (cache ?c))"
    using absent es by (simp add: cached_def map_of_eq_None_iff)
  then have es': "cached entries ?c' = tl (cached entries c) @ [(key, v)]"
    using full es by (simp add: cached_def add_entries)
  ultimately show ?thesis
    using full es' by (cases "cached entries c") (auto simp: surplus_def)
qed

end

section \<open>Properties\<close>

text \<open>C16. The cache answers from what is stored: whatever requests came before, with the object
  store only growing between them, a successful answer for an object that holds a table lists
  exactly the requested keys the table has a value for, with that value, as found and exactly the
  requested keys it has a tombstone for as deleted.\<close>

theorem cache_get_correct:
  assumes lru: "lru_cache L entries max_items" and os: "object_store upload fetch contents"
    and new: "NewCacheHandler L cfg = Inr c0" and run: "serve L fetch hist c0 = Some c"
    and grows: "sorted_wrt (\<lambda>b b'. contents b \<subseteq>\<^sub>m contents b') (map snd hist @ [b])"
    and get: "CacheGet L fetch req (c, b) = Some (Inr resp, c', b')"
    and table: "contents b (GetObjectPath req) = Some (WriteRecords rs)"
    and rs: "length (WriteRecords rs) < 2 ^ 63" "distinct (map Key rs)"
  shows "(map_of (Found resp) k = Some v \<longleftrightarrow> k \<in> set (GetKeys req) \<and> entry rs k = Some (Some v)) \<and>
    (k \<in> set (Deleted resp) \<longleftrightarrow> k \<in> set (GetKeys req) \<and> entry rs k = Some None)"
proof -
  from lru_cache.serve_from_new [OF lru os refl new grows] run have
    c: "cache_ok entries c" "coherent entries contents c b" by auto
  from lru_cache.CacheGet_ok [OF lru os c, of req] get table have
    "lookup_object (GetKeys req) (WriteRecords rs) = Inr resp" by auto
  from lookup_object_entry [OF table_of_WriteRecords [OF rs] this] show ?thesis by simp
qed

text \<open>C17. A run of requests never gets stuck in the eviction loop, and whatever is requested the
  cached objects together stay within \<^verbatim>\<open>MaxSizeBytes\<close> (for a limit that is not negative).\<close>

theorem cache_within_limit:
  assumes lru: "lru_cache L entries max_items" and os: "object_store upload fetch contents"
    and new: "NewCacheHandler L cfg = Inr c0"
    and grows: "sorted_wrt (\<lambda>b b'. contents b \<subseteq>\<^sub>m contents b') (map snd hist)"
  shows "\<exists>c. serve L fetch hist c0 = Some c \<and>
    sum_bytes (cached entries c) \<le> max 0 (MaxSizeBytes cfg) \<and>
    sum_bytes (cached entries c) \<le> currentSize c"
proof (cases hist rule: rev_cases)
  case Nil
  then show ?thesis
    using lru_cache.NewCacheHandler_ok [OF lru refl, of cfg] new by (auto simp: cache_ok_def)
next
  case (snoc hist' x)
  have "sorted_wrt (\<lambda>b b'. contents b \<subseteq>\<^sub>m contents b') (map snd hist @ [snd x])"
    using grows snoc by (auto simp: sorted_wrt_append)
  from lru_cache.serve_from_new [OF lru os refl new this] show ?thesis by (auto simp: cache_ok_def)
qed

text \<open>While the size is exact and the LRU cache has room for another entry (or holds the key),
  adding a value that fits stores it as the newest entry, keeps a suffix of the other entries, and
  keeps the size exact and within the limit.\<close>

lemma add_keeps_size_exact:
  assumes "lru_cache L entries capacity" and "distinct (map fst (cached entries c))"
    and "currentSize c = sum_bytes (cached entries c)" and "currentSize c \<le> maxSize c"
    and "key \<in> fst ` set (cached entries c) \<or> length (cached entries c) < capacity"
    and "int (length v) \<le> maxSize c"
  shows "\<exists>c' k. add L key v c = Some (True, c') \<and>
    cached entries c' = drop k (without key (cached entries c)) @ [(key, v)] \<and>
    currentSize c' = sum_bytes (cached entries c') \<and> currentSize c' \<le> maxSize c'"
  using lru_cache.add_exact [OF assms(1), of c key v] assms(2-6)
  by (fastforce simp: surplus_def cached_def)

text \<open>C30. The size drifts: when the LRU cache is at its own limit of entries, adding a value that fits
  evicts the oldest entry without subtracting its size, so the size kept exceeds the bytes cached
  by that entry's size more than before.\<close>

theorem size_drifts_at_item_limit:
  assumes "lru_cache L entries capacity" and "0 < capacity"
    and "length (cached entries c) = capacity" and "map_of (cached entries c) key = None"
    and "0 \<le> currentSize c" and "currentSize c + int (length v) \<le> maxSize c"
  shows "\<exists>c'. add L key v c = Some (True, c') \<and>
    currentSize c' - sum_bytes (cached entries c') =
      currentSize c - sum_bytes (cached entries c) + int (length (snd (hd (cached entries c))))"
  using lru_cache.add_at_item_limit [OF assms(1,3,2,4,6,5)] by (auto simp: surplus_def)

text \<open>The drift is never repaired: no run of requests makes the excess of the size kept over the
  bytes cached smaller, so the cache's effective limit only shrinks.\<close>

lemma size_drift_never_shrinks:
  assumes lru: "lru_cache L entries capacity" and os: "object_store upload fetch contents"
    and ok: "cache_ok entries c" and coh: "\<forall>b' \<in> set (map snd hist @ [b]). coherent entries contents c b'"
    and grows: "sorted_wrt (\<lambda>b b'. contents b \<subseteq>\<^sub>m contents b') (map snd hist @ [b])"
    and run: "serve L fetch hist c = Some c'"
  shows "currentSize c - sum_bytes (cached entries c) \<le> currentSize c' - sum_bytes (cached entries c')"
  using lru_cache.serve_ok [OF lru os ok grows coh] run by (auto simp: surplus_def)

section \<open>Witnesses\<close>

definition one_record :: "Record list" where
  "one_record = [\<lparr>Key = ''k'', Value = [1], Tombstone = False\<rparr>]"

lemma one_record_length: "length (WriteRecords one_record) < 2 ^ 63"
  by (simp add: one_record_def WriteRecords_concat length_write_record key_len_def
      value_len_def tombstoneBit_def currentVersion_def put_uvarint_length [symmetric]
      put_uvarint.simps)

definition one_object :: mem_bucket where
  "one_object = \<lparr>script = [], objects = [(''wal/x'', WriteRecords one_record)]\<rparr>"

definition small_cache :: "(string \<times> bytes) list sizeAwareCache" where
  "small_cache = projr (NewCacheHandler (list_lru max_items) \<lparr>CacheEnabled = True, MaxSizeBytes = 100\<rparr>)"

definition demo_get :: GetRequest where
  "demo_get = \<lparr>GetObjectPath = ''wal/x'', GetKeys = [''k'', ''other'']\<rparr>"

lemma small_cache: "NewCacheHandler (list_lru max_items) \<lparr>CacheEnabled = True, MaxSizeBytes = 100\<rparr> = Inr small_cache"
  "small_cache = \<lparr>cache = [], currentSize = 0, maxSize = 100\<rparr>"
  by (simp_all add: small_cache_def NewCacheHandler_def newSizeAwareCache_def list_lru_def max_items_def)

lemma demo_object: "mem_contents one_object (GetObjectPath demo_get) = Some (WriteRecords one_record)"
  by (simp add: mem_contents_def one_object_def demo_get_def)

lemma demo_CacheGet:
  "\<exists>c. CacheGet (list_lru max_items) mem_fetch demo_get (small_cache, one_object) =
     Some (Inr (collected [''k'', ''other''] \<lparr>Found = [], Deleted = []\<rparr> (map stored one_record)), c)"
proof -
  from lru_cache.serve_from_new [OF list_lru.lru_cache_axioms mem.object_store_axioms refl
      small_cache(1), of "[]" one_object] have
    c: "cache_ok (\<lambda>es. es) small_cache" "coherent (\<lambda>es. es) mem_contents small_cache one_object"
    by auto
  have get: "get (list_lru max_items) ''wal/x'' small_cache = (None, small_cache)"
    by (simp add: get_def small_cache(2) list_lru_def)
  have "fst (mem_fetch ''wal/x'' one_object) = Inr (Inr (WriteRecords one_record))"
    by (simp add: mem_fetch_def one_object_def)
  moreover obtain x c' where "add (list_lru max_items) ''wal/x'' (WriteRecords one_record) small_cache =
      Some (x, c')"
    using lru_cache.add_absent [OF list_lru.lru_cache_axioms c(1), of "''wal/x''"]
    by (fastforce simp: small_cache(2))
  ultimately show ?thesis
    using get one_record_length
    by (cases "mem_fetch ''wal/x'' one_object")
      (auto simp: CacheGet_def getObjectData_def demo_get_def lookup_object_table)
qed

theorem cache_get_correct_witness:
  "map_of (Found (collected [''k'', ''other''] \<lparr>Found = [], Deleted = []\<rparr> (map stored one_record)))
     ''k'' = Some [1]"
proof -
  obtain c' b' where g: "CacheGet (list_lru max_items) mem_fetch demo_get (small_cache, one_object) =
      Some (Inr (collected [''k'', ''other''] \<lparr>Found = [], Deleted = []\<rparr> (map stored one_record)), c', b')"
    using demo_CacheGet by fastforce
  have s: "serve (list_lru max_items) mem_fetch [] small_cache = Some small_cache"
    "sorted_wrt (\<lambda>b b'. mem_contents b \<subseteq>\<^sub>m mem_contents b') (map snd [] @ [one_object])"
    "distinct (map Key one_record)" by (simp_all add: one_record_def)
  show ?thesis
    using cache_get_correct [OF list_lru.lru_cache_axioms mem.object_store_axioms small_cache(1) s(1,2) g
        demo_object one_record_length s(3), of "''k''" "[1]"]
    by (simp add: demo_get_def one_record_def)
qed

theorem cache_within_limit_witness:
  "\<exists>c. serve (list_lru max_items) mem_fetch [(demo_get, one_object), (demo_get, one_object)]
     small_cache = Some c \<and> sum_bytes (cached (\<lambda>es. es) c) \<le> 100"
  using cache_within_limit [OF list_lru.lru_cache_axioms mem.object_store_axioms small_cache(1),
      of "[(demo_get, one_object), (demo_get, one_object)]"]
  by auto

definition full_cache :: "(string \<times> bytes) list sizeAwareCache" where
  "full_cache = \<lparr>cache = [(''a'', [1, 2]), (''b'', [3])], currentSize = 3, maxSize = 4\<rparr>"

lemma add_keeps_size_exact_example:
  "\<exists>c' k. add (list_lru max_items) ''c'' [4, 5, 6] full_cache = Some (True, c') \<and>
    cached (\<lambda>es. es) c' = drop k [(''a'', [1, 2]), (''b'', [3])] @ [(''c'', [4, 5, 6])] \<and>
    currentSize c' = sum_bytes (cached (\<lambda>es. es) c') \<and> currentSize c' \<le> maxSize c'"
  using add_keeps_size_exact [OF list_lru.lru_cache_axioms, where c = full_cache
        and key = "''c''" and v = "[4, 5, 6]"]
  by (simp add: full_cache_def cached_def max_items_def)

definition crowded_cache :: "(string \<times> bytes) list sizeAwareCache" where
  "crowded_cache =
     \<lparr>cache = map (\<lambda>i. (replicate i (CHR ''a''), [0])) [0..<max_items], currentSize = 1024,
      maxSize = 4096\<rparr>"

theorem size_drifts_at_item_limit_witness:
  "\<exists>c'. add (list_lru max_items) ''b'' [4] crowded_cache = Some (True, c') \<and>
    currentSize c' - sum_bytes (cached (\<lambda>es. es) c') =
      1024 - sum_bytes (cached (\<lambda>es. es) crowded_cache) + 1"
proof -
  have "replicate i (CHR ''a'') \<noteq> ''b''" for i by (cases i) auto
  then have "map_of (cached (\<lambda>es. es) crowded_cache) ''b'' = None"
    by (force simp: map_of_eq_None_iff crowded_cache_def cached_def)
  moreover have "length (cached (\<lambda>es. es) crowded_cache) = max_items"
    "length (snd (hd (cached (\<lambda>es. es) crowded_cache))) = 1"
    by (simp_all add: crowded_cache_def cached_def hd_map max_items_def)
  ultimately show ?thesis
    using size_drifts_at_item_limit [OF list_lru.lru_cache_axioms, where c = crowded_cache
        and key = "''b''" and v = "[4]"]
    by (simp add: max_items_def crowded_cache_def)
qed

end
