(* ===== verification/Index.thy ===== *)
theory Index
  imports Cache GoSort Database
begin

text \<open>
  \<^verbatim>\<open>internal/index/handler.go\<close>: the ring of cache services that pod events maintain, the lists
  of logs, shared runs and partitions that the database's watchers maintain, and \<^verbatim>\<open>BatchGet\<close>, which
  asks the logs, then the shared runs, then the partitions, newest first. The hash function is a
  parameter; so are the calls of the cache services, with what \<^verbatim>\<open>BatchGet\<close> relies on in the locale
  \<open>cache_service\<close>, whose instance is a fleet of the cache handlers of the theory Cache behind
  a network that can fail. A Go map is an association list or a list of keys without duplicates, in
  the order in which \<^verbatim>\<open>range\<close> visits it.

  The lemmas: the ring and the clients stay in step; a lookup needs one of two services; the
  answer of \<^verbatim>\<open>BatchGet\<close> is the newest entry of each key in the lists it was given; and exactly when
  it fails although every service answers.
\<close>

section \<open>The ring\<close>

record IndexConfig =
  IndexEnabled :: bool
  Namespace :: string
  Instance :: string
  CachePort :: int

record consistentRing =
  members :: "string list"

definition newConsistentRing :: consistentRing where
  "newConsistentRing = \<lparr>members = []\<rparr>"

definition ring_add :: "string \<Rightarrow> consistentRing \<Rightarrow> consistentRing" where
  "ring_add m r = r\<lparr>members := members r @ [m]\<rparr>"

fun remove_loop :: "string \<Rightarrow> string list \<Rightarrow> string list" where
  "remove_loop m [] = []"
| "remove_loop m (x # xs) = (if x = m then xs else x # remove_loop m xs)"

definition ring_remove :: "string \<Rightarrow> consistentRing \<Rightarrow> consistentRing" where
  "ring_remove m r = r\<lparr>members := remove_loop m (members r)\<rparr>"

definition locateKey :: "(bytes \<Rightarrow> 64 word) \<Rightarrow> bytes \<Rightarrow> consistentRing \<Rightarrow> string list" where
  "locateKey sum64 key r =
     (if length (members r) = 0 then []
      else
        (let n = word_of_nat (length (members r));
             hash = sum64 key mod n;
             fallbackHash = (hash + 1) mod n;
             ms = [members r ! unat hash]
         in if members r ! unat fallbackHash \<noteq> members r ! unat hash
            then ms @ [members r ! unat fallbackHash] else ms))"

section \<open>The handler's state\<close>

text \<open>
  A client is named by the URL it was made for. The three lists are behind pointers, None while
  they are nil.
\<close>

record index_handler =
  config :: IndexConfig
  ring :: consistentRing
  cacheClients :: "(string \<times> string) list"
  wals :: "WriteAheadLog list option"
  sharedRuns :: "SharedRun list option"
  parts :: "Partition list option"

definition addCacheServiceLocked :: "string \<Rightarrow> index_handler \<Rightarrow> index_handler" where
  "addCacheServiceLocked endpoint h =
     h\<lparr>ring := ring_add endpoint (ring h),
       cacheClients := AList.update endpoint (''http://'' @ endpoint) (cacheClients h)\<rparr>"

definition removeCacheService :: "string \<Rightarrow> index_handler \<Rightarrow> index_handler" where
  "removeCacheService endpoint h =
     h\<lparr>ring := ring_remove endpoint (ring h), cacheClients := AList.delete endpoint (cacheClients h)\<rparr>"

record Pod =
  PodIP :: string
  Phase :: string

datatype event_type = Added | Modified | PodDeleted | OtherType string

datatype watch_event = PodEvent event_type Pod
  | NonPodObject
  | ChannelClosed "go_error option"  \<comment> \<open>with the error of making a new watcher, if any\<close>
  | WatchContextDone

definition pod_endpoint :: "IndexConfig \<Rightarrow> Pod \<Rightarrow> string" where
  "pod_endpoint cfg pod = PodIP pod @ '':'' @ show_int (CachePort cfg)"

definition handle_pod :: "event_type \<Rightarrow> Pod \<Rightarrow> index_handler \<Rightarrow> index_handler" where
  "handle_pod typ pod h =
     (let endpoint = pod_endpoint (config h) pod;
          exists = (map_of (cacheClients h) endpoint \<noteq> None) in
      case typ of
        PodDeleted \<Rightarrow> if exists then removeCacheService endpoint h else h
      | OtherType _ \<Rightarrow> h
      | _ \<Rightarrow>
          (if Phase pod = ''Running'' then
             (if \<not> exists then addCacheServiceLocked endpoint h else h)
           else if exists then removeCacheService endpoint h else h))"

fun watchCacheServices :: "watch_event list \<Rightarrow> index_handler \<Rightarrow> index_handler" where
  "watchCacheServices [] h = h"
| "watchCacheServices (WatchContextDone # es) h = h"
| "watchCacheServices (ChannelClosed (Some e) # es) h = h"
| "watchCacheServices (ChannelClosed None # es) h = watchCacheServices es h"
| "watchCacheServices (NonPodObject # es) h = watchCacheServices es h"
| "watchCacheServices (PodEvent typ pod # es) h = watchCacheServices es (handle_pod typ pod h)"

text \<open>The callbacks of the three database watchers, given what the query returns.\<close>

definition updateWALs ::
  "WriteAheadLog sorter \<Rightarrow> WriteAheadLog list result \<Rightarrow> index_handler \<Rightarrow> go_error option \<times> index_handler"
where
  "updateWALs srt queried h =
     (case queried of
        Inl e \<Rightarrow> (Some (ErrWrap ''failed to get WALs'' e), h)
      | Inr ws \<Rightarrow> (None, h\<lparr>wals := Some (srt (\<lambda>a b. SeqNo a > SeqNo b) ws)\<rparr>))"

definition updateSharedRuns ::
  "SharedRun sorter \<Rightarrow> SharedRun list result \<Rightarrow> index_handler \<Rightarrow> go_error option \<times> index_handler"
where
  "updateSharedRuns srt queried h =
     (case queried of
        Inl e \<Rightarrow> (Some (ErrWrap ''failed to get shared runs'' e), h)
      | Inr rs \<Rightarrow> (None, h\<lparr>sharedRuns := Some (srt (\<lambda>a b. RunSeqNo a > RunSeqNo b) rs)\<rparr>))"

definition updatePartitions ::
  "Partition sorter \<Rightarrow> Partition list result \<Rightarrow> index_handler \<Rightarrow> go_error option \<times> index_handler"
where
  "updatePartitions srt queried h =
     (case queried of
        Inl e \<Rightarrow> (Some (ErrWrap ''failed to get partitions'' e), h)
      | Inr ps \<Rightarrow>
          (None, h\<lparr>parts := Some (srt (\<lambda>a b. InclusiveStartKey a < InclusiveStartKey b) ps)\<rparr>))"

text \<open>How the start of a watcher goes: the first query, and the two calls that can fail.\<close>

record 'row watch_start =
  initial_rows :: "'row list result"
  acquire_error :: "go_error option"
  listen_error :: "go_error option"

definition start_watch where
  "start_watch update what ws h =
     (case Watch update (initial_rows ws) (acquire_error ws) (listen_error ws) [] h of
        (Some e, h) \<Rightarrow> (Some (ErrWrap what e), h)
      | (None, h) \<Rightarrow> (None, h))"

definition newIndexHandler :: "IndexConfig \<Rightarrow> index_handler" where
  "newIndexHandler cfg =
     \<lparr>config = cfg, ring = newConsistentRing, cacheClients = [], wals = None, sharedRuns = None,
      parts = None\<rparr>"

definition NewIndexHandler ::
  "WriteAheadLog sorter \<Rightarrow> SharedRun sorter \<Rightarrow> Partition sorter \<Rightarrow> IndexConfig \<Rightarrow> go_error option \<Rightarrow>
   go_error option \<Rightarrow> go_error option \<Rightarrow> WriteAheadLog watch_start \<Rightarrow> SharedRun watch_start \<Rightarrow>
   Partition watch_start \<Rightarrow> index_handler result"
where
  "NewIndexHandler srtW srtR srtP cfg cluster_err client_err pods_err ws rs ps =
     (case cluster_err of Some e \<Rightarrow> Inl (ErrWrap ''failed to create in-cluster config'' e) | None \<Rightarrow>
     (case client_err of Some e \<Rightarrow> Inl (ErrWrap ''failed to create Kubernetes client'' e) | None \<Rightarrow>
     (case pods_err of
        Some e \<Rightarrow> Inl (ErrWrap ''failed to watch cache services''
          (ErrWrap ''failed to watch cache service pods'' e))
      | None \<Rightarrow>
     (case start_watch (updateWALs srtW) ''failed to watch WALs'' ws (newIndexHandler cfg) of
        (Some e, _) \<Rightarrow> Inl (ErrWrap ''failed to watch WALs'' e) | (None, h) \<Rightarrow>
     (case start_watch (updateSharedRuns srtR) ''failed to watch shared runs'' rs h of
        (Some e, _) \<Rightarrow> Inl (ErrWrap ''failed to watch shared runs'' e) | (None, h) \<Rightarrow>
     (case start_watch (updatePartitions srtP) ''failed to watch partitions'' ps h of
        (Some e, _) \<Rightarrow> Inl (ErrWrap ''failed to watch partitions'' e)
      | (None, h) \<Rightarrow> Inr h))))))"

section \<open>Lookups\<close>

definition no_cache_service :: go_error where
  "no_cache_service = ErrRPC CodeUnavailable (ErrText ''no cache service available'')"

fun collect_clients :: "(string \<times> string) list \<Rightarrow> string list \<Rightarrow> string list \<Rightarrow> string list result" where
  "collect_clients cs [] acc = Inr acc"
| "collect_clients cs (m # ms) acc =
     (case map_of cs m of
        None \<Rightarrow> Inl no_cache_service
      | Some c \<Rightarrow> collect_clients cs ms (acc @ [c]))"

definition getClients :: "(bytes \<Rightarrow> 64 word) \<Rightarrow> string \<Rightarrow> index_handler \<Rightarrow> string list result" where
  "getClients sum64 path h =
     (let ms = locateKey sum64 (bytes_of path) (ring h) in
      if length ms = 0 then Inl no_cache_service else collect_clients (cacheClients h) ms [])"

type_synonym 'w cache_call = "string \<Rightarrow> GetRequest \<Rightarrow> 'w \<Rightarrow> GetResponse result \<times> 'w"

text \<open>The loop over the clients; \<open>lastErr\<close> is the error of the client before, if there was one.\<close>

fun try_clients ::
  "'w cache_call \<Rightarrow> GetRequest \<Rightarrow> string list \<Rightarrow> go_error option \<Rightarrow> 'w \<Rightarrow>
   (go_error option + GetResponse) \<times> 'w"
where
  "try_clients call req [] lastErr w = (Inl lastErr, w)"
| "try_clients call req (c # cs) lastErr w =
     (case call c req w of
        (Inl e, w) \<Rightarrow> try_clients call req cs (Some e) w
      | (Inr resp, w) \<Rightarrow> (Inr resp, w))"

definition lookupSSTable ::
  "(bytes \<Rightarrow> 64 word) \<Rightarrow> 'w cache_call \<Rightarrow> index_handler \<Rightarrow> string list \<Rightarrow> string \<Rightarrow> 'w \<Rightarrow>
   GetResponse result \<times> 'w"
where
  "lookupSSTable sum64 call h keys path w =
     (case getClients sum64 path h of
        Inl e \<Rightarrow> (Inl e, w)
      | Inr clients \<Rightarrow>
          (case try_clients call \<lparr>GetObjectPath = path, GetKeys = keys\<rparr> clients None w of
             (Inl (Some e), w) \<Rightarrow>
               (Inl (ErrRPC CodeUnavailable
                  (ErrWrap (''cache services unavailable for path '' @ path) e)), w)
           | (Inl None, w) \<Rightarrow> (Inl (ErrPanic ''nil pointer dereference''), w)
           | (Inr resp, w) \<Rightarrow> (Inr resp, w)))"

section \<open>BatchGet\<close>

text \<open>Taking over the answer of one table: the results so far and the keys still to be found.\<close>

definition absorb ::
  "GetResponse \<Rightarrow> (string \<times> bytes) list \<times> string list \<Rightarrow> (string \<times> bytes) list \<times> string list"
where
  "absorb pr s =
     (let (resp, remaining) =
            fold (\<lambda>(key, val) (resp, remaining). (AList.update key val resp, removeAll key remaining))
              (Found pr) s
      in (resp, fold removeAll (Deleted pr) remaining))"

fun wal_loop where
  "wal_loop look [] s w = (Inr s, w)"
| "wal_loop look (wal # ws) s w =
     (if length (snd s) = 0 then (Inr s, w)
      else
        (case look (snd s) (Path (Attrs wal)) w of
           (Inl e, w) \<Rightarrow> (Inl e, w)
         | (Inr pr, w) \<Rightarrow> wal_loop look ws (absorb pr s) w))"

text \<open>The loop over runs does not look at the number of remaining keys.\<close>

fun run_loop where
  "run_loop look [] s w = (Inr s, w)"
| "run_loop look (run # rs) s w =
     (case look (snd s) (RunPath run) w of
        (Inl e, w) \<Rightarrow> (Inl e, w)
      | (Inr pr, w) \<Rightarrow> run_loop look rs (absorb pr s) w)"

text \<open>Go's \<^verbatim>\<open>sort.Search(n, f)\<close>, a binary search.\<close>

function search_loop :: "(nat \<Rightarrow> bool) \<Rightarrow> nat \<Rightarrow> nat \<Rightarrow> nat" where
  "search_loop f i j =
     (if i < j then
        (let h = (i + j) div 2 in
         if \<not> f h then search_loop f (h + 1) j else search_loop f i h)
      else i)"
  by pat_completeness auto
termination
  by (relation "measure (\<lambda>(f, i, j). j - i)") auto

declare search_loop.simps [simp del]

definition partition_index :: "Partition list \<Rightarrow> string \<Rightarrow> nat" where
  "partition_index ps key = search_loop (\<lambda>i. InclusiveStartKey (ps ! i) > key) 0 (length ps)"

fun group_keys ::
  "Partition list \<Rightarrow> string list \<Rightarrow> (nat \<times> string list) list \<Rightarrow> (nat \<times> string list) list result"
where
  "group_keys ps [] reqs = Inr reqs"
| "group_keys ps (key # keys) reqs =
     (let i = partition_index ps key in
      if i = 0 then Inl (ErrRPC CodeNotFound (ErrText (key @ '' not found in any partition'')))
      else
        (let old = (case map_of reqs (i - 1) of None \<Rightarrow> [] | Some ks \<Rightarrow> ks) in
         group_keys ps keys (AList.update (i - 1) (old @ [key]) reqs)))"

text \<open>The runs of one partition: every run is asked for all the keys of the partition.\<close>

fun partition_runs where
  "partition_runs look keys [] s w = (Inr s, w)"
| "partition_runs look keys (run # rs) s w =
     (case look keys (RunPath run) w of
        (Inl e, w) \<Rightarrow> (Inl e, w)
      | (Inr pr, w) \<Rightarrow> partition_runs look keys rs (absorb pr s) w)"

fun partition_loop where
  "partition_loop look ps [] s w = (Inr s, w)"
| "partition_loop look ps ((idx, keys) # reqs) s w =
     (case partition_runs look keys (Runs (PartitionRowAttrs (ps ! idx))) s w of
        (Inl e, w) \<Rightarrow> (Inl e, w)
      | (Inr s, w) \<Rightarrow> partition_loop look ps reqs s w)"

text \<open>A nil list is dereferenced.\<close>

definition nil_deref :: go_error where
  "nil_deref = ErrPanic ''nil pointer dereference''"

definition get_shared_runs where
  "get_shared_runs look runs s w =
     (if length (snd s) > 0 then
        (case runs of
           None \<Rightarrow> (Inl nil_deref, w)
         | Some rs \<Rightarrow> run_loop look (map RunRowAttrs rs) s w)
      else (Inr s, w))"

definition get_partitions where
  "get_partitions look ps s w =
     (if length (snd s) > 0 then
        (case ps of
           None \<Rightarrow> (Inl nil_deref, w)
         | Some ps \<Rightarrow>
             (case group_keys ps (snd s) [] of
                Inl e \<Rightarrow> (Inl e, w)
              | Inr reqs \<Rightarrow> partition_loop look ps reqs s w))
      else (Inr s, w))"

definition BatchGet ::
  "(bytes \<Rightarrow> 64 word) \<Rightarrow> 'w cache_call \<Rightarrow> index_handler \<Rightarrow> string list \<Rightarrow> 'w \<Rightarrow>
   (string \<times> bytes) list result \<times> 'w"
where
  "BatchGet sum64 call h keys w =
     (let look = lookupSSTable sum64 call h in
      case wals h of
        None \<Rightarrow> (Inl nil_deref, w)
      | Some ws \<Rightarrow>
          (case wal_loop look ws ([], fold List.insert keys []) w of
             (Inl e, w) \<Rightarrow> (Inl e, w)
           | (Inr s, w) \<Rightarrow>
               (case get_shared_runs look (sharedRuns h) s w of
                  (Inl e, w) \<Rightarrow> (Inl e, w)
                | (Inr s, w) \<Rightarrow>
                    (case get_partitions look (parts h) s w of
                       (Inl e, w) \<Rightarrow> (Inl e, w)
                     | (Inr s, w) \<Rightarrow> (Inr (fst s), w)))))"

section \<open>The ring and the clients\<close>

definition ring_ok :: "index_handler \<Rightarrow> bool" where
  "ring_ok h \<longleftrightarrow>
     distinct (members (ring h)) \<and> distinct (map fst (cacheClients h)) \<and>
     set (members (ring h)) = fst ` set (cacheClients h) \<and>
     list_all (\<lambda>(e, c). c = ''http://'' @ e) (cacheClients h)"

lemma remove_loop_remove1: "remove_loop m xs = remove1 m xs"
  by (induction xs) auto

lemma ring_ok_new: "ring_ok (newIndexHandler cfg)"
  by (simp add: ring_ok_def newIndexHandler_def newConsistentRing_def)

lemma update_absent: "k \<notin> fst ` set xs \<Longrightarrow> AList.update k v xs = xs @ [(k, v)]"
  by (induction xs) auto

lemma ring_ok_add:
  "ring_ok h \<Longrightarrow> map_of (cacheClients h) e = None \<Longrightarrow> ring_ok (addCacheServiceLocked e h)"
  by (auto simp: ring_ok_def addCacheServiceLocked_def ring_add_def map_of_eq_None_iff update_absent)

lemma ring_ok_remove: "ring_ok h \<Longrightarrow> ring_ok (removeCacheService e h)"
  by (auto simp: ring_ok_def removeCacheService_def ring_remove_def remove_loop_remove1
      list_all_iff AList.delete_eq intro!: distinct_map_filter)

lemma ring_ok_pod: "ring_ok h \<Longrightarrow> ring_ok (handle_pod typ pod h)"
  by (auto simp: handle_pod_def Let_def ring_ok_add ring_ok_remove split: event_type.split)

lemma ring_ok_watch: "ring_ok h \<Longrightarrow> ring_ok (watchCacheServices es h)"
  by (induction es h rule: watchCacheServices.induct) (auto intro: ring_ok_pod)

lemma locateKey_cases:
  assumes "length (members r) < 2 ^ 64"
  shows "locateKey sum64 key r = [] \<and> members r = [] \<or>
    (\<exists>i j. i < length (members r) \<and> j < length (members r) \<and>
      j = (i + 1) mod length (members r) \<and> i = unat (sum64 key) mod length (members r) \<and>
      locateKey sum64 key r =
        (if members r ! j \<noteq> members r ! i then [members r ! i, members r ! j] else [members r ! i]))"
proof (cases "members r = []")
  case False
  let ?n = "length (members r)" and ?w = "word_of_nat (length (members r)) :: 64 word"
  have n: "unat ?w = ?n" using assms by (simp add: unat_of_nat take_bit_nat_eq_self)
  let ?i = "unat (sum64 key mod ?w)" and ?j = "unat ((sum64 key mod ?w + 1) mod ?w)"
  have i: "?i = unat (sum64 key) mod ?n" by (simp add: unat_mod_distrib n)
  then have lt: "?i < ?n" using False by simp
  have "?i + 1 < 2 ^ 64 \<or> ?i + 1 = 2 ^ 64" using lt assms by linarith
  then have "unat (sum64 key mod ?w + 1) = ?i + 1"
    using lt assms by (subst unat_add_lem [THEN iffD1]) auto
  then have j: "?j = (?i + 1) mod ?n" by (simp add: unat_mod_distrib n)
  then have "?j < ?n" using False by simp
  then show ?thesis
    using lt i j False by (intro disjI2 exI [of _ ?i] exI [of _ ?j]) (simp add: locateKey_def Let_def)
qed (simp add: locateKey_def)

lemma collect_clients_all:
  "set ms \<subseteq> fst ` set cs \<Longrightarrow> collect_clients cs ms acc = Inr (acc @ map (the \<circ> map_of cs) ms)"
proof (induction ms arbitrary: acc)
  case (Cons m ms)
  then obtain c where "map_of cs m = Some c" by (auto dest: weak_map_of_SomeI)
  with Cons show ?case by simp
qed simp

lemma ring_ok_client: "ring_ok h \<Longrightarrow> m \<in> set (members (ring h)) \<Longrightarrow>
    map_of (cacheClients h) m = Some (''http://'' @ m)"
  by (fastforce simp: ring_ok_def list_all_iff)

section \<open>What a lookup promises\<close>

locale table_lookup =
  fixes look :: "string list \<Rightarrow> string \<Rightarrow> 'w \<Rightarrow> GetResponse result \<times> 'w"
    and tbl :: "'w \<Rightarrow> string \<Rightarrow> Record list option"
    and valid :: "'w \<Rightarrow> bool"
  assumes look_found: "valid w \<Longrightarrow> look keys p w = (Inr resp, w') \<Longrightarrow> tbl w p = Some rs \<Longrightarrow>
      map_of (Found resp) k = Some v \<longleftrightarrow> k \<in> set keys \<and> entry rs k = Some (Some v)"
    and look_deleted: "valid w \<Longrightarrow> look keys p w = (Inr resp, w') \<Longrightarrow> tbl w p = Some rs \<Longrightarrow>
      k \<in> set (Deleted resp) \<longleftrightarrow> k \<in> set keys \<and> entry rs k = Some None"
    and look_distinct: "valid w \<Longrightarrow> look keys p w = (Inr resp, w') \<Longrightarrow> distinct (map fst (Found resp))"
    and look_empty: "valid w \<Longrightarrow> look [] p w = (r, w') \<Longrightarrow> \<exists>e. r = Inl e"
    and look_keeps: "valid w \<Longrightarrow> valid (snd (look keys p w)) \<and> tbl (snd (look keys p w)) = tbl w"

locale cache_service =
  fixes call :: "'w cache_call"
    and tbl :: "'w \<Rightarrow> string \<Rightarrow> Record list option"
    and valid :: "'w \<Rightarrow> bool"
  assumes answer_found: "valid w \<Longrightarrow> call c req w = (Inr resp, w') \<Longrightarrow>
      tbl w (GetObjectPath req) = Some rs \<Longrightarrow>
      map_of (Found resp) k = Some v \<longleftrightarrow> k \<in> set (GetKeys req) \<and> entry rs k = Some (Some v)"
    and answer_deleted: "valid w \<Longrightarrow> call c req w = (Inr resp, w') \<Longrightarrow>
      tbl w (GetObjectPath req) = Some rs \<Longrightarrow>
      k \<in> set (Deleted resp) \<longleftrightarrow> k \<in> set (GetKeys req) \<and> entry rs k = Some None"
    and answer_distinct: "valid w \<Longrightarrow> call c req w = (Inr resp, w') \<Longrightarrow> distinct (map fst (Found resp))"
    and empty_refused: "valid w \<Longrightarrow> GetKeys req = [] \<Longrightarrow> call c req w = (r, w') \<Longrightarrow> \<exists>e. r = Inl e"
    and call_keeps: "valid w \<Longrightarrow> valid (snd (call c req w)) \<and> tbl (snd (call c req w)) = tbl w"
begin

lemma try_clients_keeps:
  "valid w \<Longrightarrow> valid (snd (try_clients call req cs e w)) \<and> tbl (snd (try_clients call req cs e w)) = tbl w"
proof (induction cs arbitrary: e w)
  case (Cons c cs)
  obtain r w1 where c: "call c req w = (r, w1)" by fastforce
  then have "valid w1" "tbl w1 = tbl w" using call_keeps [OF Cons.prems, of c req] by auto
  then show ?case using Cons.IH c by (cases r) auto
qed simp

lemma try_clients_answer:
  assumes "valid w" and "try_clients call req cs e w = (Inr resp, w')"
  shows "\<exists>c w1 w2. call c req w1 = (Inr resp, w2) \<and> valid w1 \<and> tbl w1 = tbl w"
  using assms
proof (induction cs arbitrary: e w)
  case (Cons c cs)
  obtain r w1 where c: "call c req w = (r, w1)" by fastforce
  then have w1: "valid w1" "tbl w1 = tbl w" using call_keeps [OF Cons.prems(1), of c req] by auto
  show ?case
  proof (cases r)
    case (Inl e')
    then show ?thesis using Cons.IH [OF w1(1)] Cons.prems(2) c w1(2) by simp
  next
    case (Inr resp')
    then show ?thesis using Cons.prems c by auto
  qed
qed simp

lemma lookup_tries:
  "lookupSSTable sum64 call h keys p w = (Inr resp, w') \<Longrightarrow>
   \<exists>cs. try_clients call \<lparr>GetObjectPath = p, GetKeys = keys\<rparr> cs None w = (Inr resp, w')"
  by (auto simp: lookupSSTable_def split: sum.splits prod.splits option.splits)

lemma lookup_answer:
  assumes "valid w" and "lookupSSTable sum64 call h keys p w = (Inr resp, w')"
  shows "\<exists>c w1 w2. call c \<lparr>GetObjectPath = p, GetKeys = keys\<rparr> w1 = (Inr resp, w2) \<and> valid w1 \<and>
    tbl w1 = tbl w"
  using lookup_tries [OF assms(2)] try_clients_answer [OF assms(1)] by blast

lemma lookup_world:
  "\<exists>cs. snd (lookupSSTable sum64 call h keys p w) = w \<or>
    snd (lookupSSTable sum64 call h keys p w) =
      snd (try_clients call \<lparr>GetObjectPath = p, GetKeys = keys\<rparr> cs None w)"
proof (cases "getClients sum64 p h")
  case (Inl e)
  then show ?thesis by (simp add: lookupSSTable_def)
next
  case (Inr cs)
  then show ?thesis
    by (intro exI [of _ cs]) (simp add: lookupSSTable_def split: sum.split prod.split option.split)
qed

end

sublocale cache_service \<subseteq> look: table_lookup "lookupSSTable sum64 call h" tbl valid for sum64 h
proof
  fix w keys p resp w' rs k v r
  assume w: "valid w"
  show "(map_of (Found resp) k = Some v) = (k \<in> set keys \<and> entry rs k = Some (Some v))"
    if "lookupSSTable sum64 call h keys p w = (Inr resp, w')" "tbl w p = Some rs"
  proof -
    from lookup_answer [OF w that(1)] obtain c w1 w2 where
      "call c \<lparr>GetObjectPath = p, GetKeys = keys\<rparr> w1 = (Inr resp, w2)" "valid w1" "tbl w1 = tbl w"
      by blast
    with that(2) answer_found [OF this(2,1), of rs] show ?thesis by simp
  qed
  show "(k \<in> set (Deleted resp)) = (k \<in> set keys \<and> entry rs k = Some None)"
    if "lookupSSTable sum64 call h keys p w = (Inr resp, w')" "tbl w p = Some rs"
  proof -
    from lookup_answer [OF w that(1)] obtain c w1 w2 where
      "call c \<lparr>GetObjectPath = p, GetKeys = keys\<rparr> w1 = (Inr resp, w2)" "valid w1" "tbl w1 = tbl w"
      by blast
    with that(2) answer_deleted [OF this(2,1), of rs] show ?thesis by simp
  qed
  show "lookupSSTable sum64 call h keys p w = (Inr resp, w') \<Longrightarrow> distinct (map fst (Found resp))"
    using lookup_answer [OF w] answer_distinct by blast
  show "\<exists>e. r = Inl e" if l: "lookupSSTable sum64 call h [] p w = (r, w')"
  proof (cases r)
    case (Inr resp)
    from lookup_answer [OF w l [unfolded Inr]] obtain c w1 w2 where
      "call c \<lparr>GetObjectPath = p, GetKeys = []\<rparr> w1 = (Inr resp, w2)" "valid w1" by blast
    with empty_refused [OF this(2) _ this(1)] show ?thesis by simp
  qed simp
  obtain cs where "snd (lookupSSTable sum64 call h keys p w) = w \<or>
      snd (lookupSSTable sum64 call h keys p w) =
        snd (try_clients call \<lparr>GetObjectPath = p, GetKeys = keys\<rparr> cs None w)"
    using lookup_world by blast
  then show "valid (snd (lookupSSTable sum64 call h keys p w)) \<and>
      tbl (snd (lookupSSTable sum64 call h keys p w)) = tbl w"
    using w try_clients_keeps [OF w] by auto
qed

context cache_service
begin

lemma lookup_contract: "table_lookup (lookupSSTable sum64 call h) tbl valid"
  by (rule look.table_lookup_axioms)

end

section \<open>The newest entry\<close>

fun newest :: "Record list list \<Rightarrow> string \<Rightarrow> bytes option option" where
  "newest [] k = None"
| "newest (t # ts) k = (case entry t k of None \<Rightarrow> newest ts k | Some x \<Rightarrow> Some x)"

text \<open>In the runs of a partition, the last value counts and tombstones do not.\<close>

fun last_found :: "Record list list \<Rightarrow> string \<Rightarrow> bytes option" where
  "last_found [] k = None"
| "last_found (t # ts) k =
     (case last_found ts k of
        Some v \<Rightarrow> Some v
      | None \<Rightarrow> (case entry t k of Some (Some v) \<Rightarrow> Some v | _ \<Rightarrow> None))"

definition value_of :: "bytes option option \<Rightarrow> bytes option" where
  "value_of x = (case x of Some y \<Rightarrow> y | None \<Rightarrow> None)"

lemma value_of_simps [simp]: "value_of None = None" "value_of (Some y) = y"
  by (simp_all add: value_of_def)

lemma newest_append:
  "newest (xs @ ys) k = (case newest xs k of None \<Rightarrow> newest ys k | Some x \<Rightarrow> Some x)"
  by (induction xs) (auto split: option.split)

definition progress ::
  "string set \<Rightarrow> Record list list \<Rightarrow> (string \<times> bytes) list \<times> string list \<Rightarrow> bool"
where
  "progress keys ts s \<longleftrightarrow>
     set (snd s) = {k \<in> keys. newest ts k = None} \<and>
     (\<forall>k. map_of (fst s) k = (if k \<in> keys then value_of (newest ts k) else None))"

lemma absorb_found:
  "distinct (map fst fs) \<Longrightarrow>
   fold (\<lambda>(key, val) (resp, remaining). (AList.update key val resp, removeAll key remaining)) fs s =
     (resp', rem') \<Longrightarrow>
   map_of resp' k = (case map_of fs k of Some v \<Rightarrow> Some v | None \<Rightarrow> map_of (fst s) k) \<and>
   set rem' = set (snd s) - fst ` set fs"
proof (induction fs arbitrary: s)
  case (Cons f fs)
  obtain key val resp rem where f: "f = (key, val)" "s = (resp, rem)" by (cases f; cases s)
  with Cons.IH [of "(AList.update key val resp, removeAll key rem)"] Cons.prems show ?case
    by (auto simp: update_conv' map_of_eq_None_iff rev_image_eqI split: option.splits)
qed auto

lemma set_fold_removeAll: "set (fold removeAll ds rem) = set rem - set ds"
  by (induction ds arbitrary: rem) auto

lemma absorb_eq:
  assumes "distinct (map fst (Found pr))"
  shows "map_of (fst (absorb pr s)) k =
      (case map_of (Found pr) k of Some v \<Rightarrow> Some v | None \<Rightarrow> map_of (fst s) k)"
    and "set (snd (absorb pr s)) = set (snd s) - fst ` set (Found pr) - set (Deleted pr)"
  using absorb_found [OF assms, of s]
  by (auto simp: absorb_def set_fold_removeAll split: prod.splits)

text \<open>The tables at a list of paths, where all of them hold one.\<close>

definition tables :: "('w \<Rightarrow> string \<Rightarrow> Record list option) \<Rightarrow> 'w \<Rightarrow> string list \<Rightarrow> Record list list" where
  "tables tbl w ps = map (\<lambda>p. the (tbl w p)) ps"

definition all_tables :: "('w \<Rightarrow> string \<Rightarrow> Record list option) \<Rightarrow> 'w \<Rightarrow> string list \<Rightarrow> bool" where
  "all_tables tbl w ps \<longleftrightarrow> list_all (\<lambda>p. tbl w p \<noteq> None) ps"

lemma tables_simps [simp]:
  "tables tbl w [] = []" "tables tbl w (p # ps) = the (tbl w p) # tables tbl w ps"
  "tables tbl w (ps @ qs) = tables tbl w ps @ tables tbl w qs"
  "all_tables tbl w [] = True" "all_tables tbl w (p # ps) = (tbl w p \<noteq> None \<and> all_tables tbl w ps)"
  "all_tables tbl w (ps @ qs) = (all_tables tbl w ps \<and> all_tables tbl w qs)"
  by (simp_all add: tables_def all_tables_def)

lemma tables_cong: "tbl w = tbl w' \<Longrightarrow> tables tbl w = tables tbl w' \<and> all_tables tbl w = all_tables tbl w'"
  by (simp add: fun_eq_iff tables_def all_tables_def)

context table_lookup
begin

lemma look_step:
  assumes "valid w" and "look keys p w = (r, w')"
  shows "valid w'" "tbl w' = tbl w" "tables tbl w' = tables tbl w" "all_tables tbl w' = all_tables tbl w"
  using look_keeps [OF assms(1), of keys p] assms(2) tables_cong [of tbl w' w] by auto

lemma look_found_value:
  assumes "valid w" and "look keys p w = (Inr resp, w')" and "tbl w p = Some rs"
  shows "map_of (Found resp) k = (if k \<in> set keys then value_of (entry rs k) else None)"
proof (cases "map_of (Found resp) k")
  case (Some v)
  then show ?thesis using look_found [OF assms, of k v] by simp
next
  case None
  then have "\<not> (k \<in> set keys \<and> entry rs k = Some (Some v))" for v
    using look_found [OF assms, of k v] by simp
  then show ?thesis using None by (auto simp: value_of_def split: option.split) (metis not_Some_eq)
qed

lemma absorb_progress:
  assumes w: "valid w" and look: "look (snd s) p w = (Inr pr, w')" and t: "tbl w p = Some t"
    and s: "progress keys ts s"
  shows "progress keys (ts @ [t]) (absorb pr s)"
proof -
  note f = look_found [OF w look t] and d = look_deleted [OF w look t]
  note a = absorb_eq [OF look_distinct [OF w look], of s]
  have rem: "set (snd s) = {k \<in> keys. newest ts k = None}"
    and resp: "map_of (fst s) k = (if k \<in> keys then value_of (newest ts k) else None)" for k
    using s by (simp_all add: progress_def)
  have fst_Found: "k \<in> fst ` set (Found pr) \<longleftrightarrow> k \<in> keys \<and> newest ts k = None \<and> (\<exists>v. entry t k = Some (Some v))" for k
    using f [of k] rem by (auto simp: dom_map_of_conv_image_fst [symmetric] dom_def)
  have "k \<in> set (snd (absorb pr s)) \<longleftrightarrow> k \<in> keys \<and> newest (ts @ [t]) k = None" for k
    unfolding a(2) Diff_iff fst_Found d rem using rem
    by (cases "entry t k") (auto simp: newest_append split: option.splits)
  then have "set (snd (absorb pr s)) = {k \<in> keys. newest (ts @ [t]) k = None}" by blast
  moreover have "map_of (fst (absorb pr s)) k = (if k \<in> keys then value_of (newest (ts @ [t]) k) else None)" for k
  proof (cases "map_of (Found pr) k")
    case (Some v)
    then show ?thesis using f [of k v] rem a(1) [of k] by (simp add: newest_append)
  next
    case None
    then have "\<not> (k \<in> keys \<and> newest ts k = None \<and> entry t k = Some (Some v))" for v
      using f [of k v] rem by auto
    then show ?thesis
      using None a(1) [of k] resp [of k]
      by (auto simp: newest_append value_of_def split: option.splits) (metis not_Some_eq)
  qed
  ultimately show ?thesis by (simp add: progress_def)
qed

lemma progress_done: "progress keys ts s \<Longrightarrow> snd s = [] \<Longrightarrow> progress keys (ts @ ts') s"
  by (auto simp: progress_def newest_append split: option.split)

lemma wal_loop_ok:
  "valid w \<Longrightarrow> all_tables tbl w (map (Path \<circ> Attrs) ws) \<Longrightarrow> progress keys ts s \<Longrightarrow>
   wal_loop look ws s w = (r, w') \<Longrightarrow>
   valid w' \<and> tbl w' = tbl w \<and>
   (\<forall>s'. r = Inr s' \<longrightarrow> progress keys (ts @ tables tbl w (map (Path \<circ> Attrs) ws)) s')"
proof (induction ws arbitrary: ts s w)
  case (Cons wal ws)
  show ?case
  proof (cases "snd s = []")
    case True
    then show ?thesis using Cons.prems progress_done by auto
  next
    case False
    obtain q w1 where look: "look (snd s) (Path (Attrs wal)) w = (q, w1)" by fastforce
    note w1 = look_step [OF Cons.prems(1) look]
    show ?thesis
    proof (cases q)
      case (Inl e)
      then show ?thesis using Cons.prems(4) False look w1 by auto
    next
      case (Inr pr)
      obtain t where t: "tbl w (Path (Attrs wal)) = Some t" using Cons.prems(2) by auto
      from absorb_progress [OF Cons.prems(1) look [unfolded Inr] t Cons.prems(3)]
      have p: "progress keys (ts @ [t]) (absorb pr s)" .
      have "wal_loop look ws (absorb pr s) w1 = (r, w')"
        using Cons.prems(4) False look Inr by simp
      from Cons.IH [OF w1(1) _ p this] show ?thesis using Cons.prems(2) t w1 by simp
    qed
  qed
qed auto

lemma run_loop_ok:
  "valid w \<Longrightarrow> all_tables tbl w (map RunPath rs) \<Longrightarrow> progress keys ts s \<Longrightarrow>
   run_loop look rs s w = (r, w') \<Longrightarrow>
   valid w' \<and> tbl w' = tbl w \<and>
   (\<forall>s'. r = Inr s' \<longrightarrow> progress keys (ts @ tables tbl w (map RunPath rs)) s')"
proof (induction rs arbitrary: ts s w)
  case (Cons run rs)
  obtain q w1 where look: "look (snd s) (RunPath run) w = (q, w1)" by fastforce
  note w1 = look_step [OF Cons.prems(1) look]
  show ?case
  proof (cases q)
    case (Inl e)
    then show ?thesis using Cons.prems(4) look w1 by auto
  next
    case (Inr pr)
    obtain t where t: "tbl w (RunPath run) = Some t" using Cons.prems(2) by auto
    from absorb_progress [OF Cons.prems(1) look [unfolded Inr] t Cons.prems(3)]
    have p: "progress keys (ts @ [t]) (absorb pr s)" .
    have "run_loop look rs (absorb pr s) w1 = (r, w')" using Cons.prems(4) look Inr by simp
    from Cons.IH [OF w1(1) _ p this] show ?thesis using Cons.prems(2) t w1 by simp
  qed
qed auto

lemma partition_runs_ok:
  "valid w \<Longrightarrow> all_tables tbl w (map RunPath rs) \<Longrightarrow>
   partition_runs look keys rs s w = (r, w') \<Longrightarrow>
   valid w' \<and> tbl w' = tbl w \<and>
   (\<forall>s' k. r = Inr s' \<longrightarrow> map_of (fst s') k =
      (if k \<in> set keys then
         (case last_found (tables tbl w (map RunPath rs)) k of
            Some v \<Rightarrow> Some v | None \<Rightarrow> map_of (fst s) k)
       else map_of (fst s) k))"
proof (induction rs arbitrary: s w)
  case (Cons run rs)
  obtain q w1 where look: "look keys (RunPath run) w = (q, w1)" by fastforce
  note w1 = look_step [OF Cons.prems(1) look]
  show ?case
  proof (cases q)
    case (Inl e)
    then show ?thesis using Cons.prems(3) look w1 by auto
  next
    case (Inr pr)
    obtain t where t: "tbl w (RunPath run) = Some t" using Cons.prems(2) by auto
    note a = absorb_eq(1) [OF look_distinct [OF Cons.prems(1) look [unfolded Inr]], of s]
    have abs: "map_of (fst (absorb pr s)) k =
        (if k \<in> set keys then (case entry t k of Some (Some v) \<Rightarrow> Some v | _ \<Rightarrow> map_of (fst s) k)
         else map_of (fst s) k)" for k
      unfolding a look_found_value [OF Cons.prems(1) look [unfolded Inr] t]
      by (auto split: option.split)
    have "partition_runs look keys rs (absorb pr s) w1 = (r, w')" using Cons.prems(3) look Inr by simp
    from Cons.IH [OF w1(1) _ this] have IH: "valid w'" "tbl w' = tbl w"
      "\<And>s' k. r = Inr s' \<Longrightarrow> map_of (fst s') k =
        (if k \<in> set keys then
           (case last_found (tables tbl w (map RunPath rs)) k of
              Some v \<Rightarrow> Some v | None \<Rightarrow> map_of (fst (absorb pr s)) k)
         else map_of (fst (absorb pr s)) k)"
      using Cons.prems(2) w1 by simp_all
    have "map_of (fst s') k =
        (if k \<in> set keys then
           (case last_found (tables tbl w (map RunPath (run # rs))) k of
              Some v \<Rightarrow> Some v | None \<Rightarrow> map_of (fst s) k)
         else map_of (fst s) k)" if "r = Inr s'" for s' k
      unfolding IH(3) [OF that, of k] abs
      by (cases "last_found (tables tbl w (map RunPath rs)) k"; cases "entry t k") (auto simp: t split: option.splits)
    then show ?thesis using IH(1,2) by blast
  qed
qed auto

end

section \<open>Partitions\<close>

lemma search_loop_spec:
  assumes "\<And>a b. f a \<Longrightarrow> i \<le> a \<Longrightarrow> a \<le> b \<Longrightarrow> b < j \<Longrightarrow> f b" and "i \<le> j"
  shows "i \<le> search_loop f i j \<and> search_loop f i j \<le> j \<and>
    (\<forall>x. i \<le> x \<longrightarrow> x < search_loop f i j \<longrightarrow> \<not> f x) \<and>
    (\<forall>x. search_loop f i j \<le> x \<longrightarrow> x < j \<longrightarrow> f x)"
  using assms
proof (induction f i j rule: search_loop.induct)
  case (1 f i j)
  show ?case
  proof (cases "i < j")
    case False
    then have "i = j" using 1(4) by simp
    moreover have "search_loop f j j = j" by (simp add: search_loop.simps [of f j j])
    ultimately show ?thesis by simp
  next
    case True
    let ?h = "(i + j) div 2"
    have h: "i \<le> ?h" "?h < j" using True by auto
    show ?thesis
    proof (cases "f ?h")
      case mid: True
      let ?r = "search_loop f i ?h"
      have "i \<le> ?r \<and> ?r \<le> ?h \<and> (\<forall>x. i \<le> x \<longrightarrow> x < ?r \<longrightarrow> \<not> f x) \<and>
          (\<forall>x. ?r \<le> x \<longrightarrow> x < ?h \<longrightarrow> f x)"
        using 1(2) [OF True refl] mid 1(3) h by force
      then have r: "i \<le> ?r" "?r \<le> j" "\<And>x. i \<le> x \<Longrightarrow> x < ?r \<Longrightarrow> \<not> f x"
        "\<And>x. ?r \<le> x \<Longrightarrow> x < ?h \<Longrightarrow> f x" using h by auto
      have "f x" if "?r \<le> x" "x < j" for x
        using 1(3) [OF mid h(1) _ that(2)] r(4) [OF that(1)] by (cases "x < ?h") auto
      moreover have "search_loop f i j = ?r"
        using True mid by (simp add: search_loop.simps [of f i j])
      ultimately show ?thesis using r by auto
    next
      case mid: False
      let ?r = "search_loop f (?h + 1) j"
      have "?h + 1 \<le> ?r \<and> ?r \<le> j \<and> (\<forall>x. ?h + 1 \<le> x \<longrightarrow> x < ?r \<longrightarrow> \<not> f x) \<and>
          (\<forall>x. ?r \<le> x \<longrightarrow> x < j \<longrightarrow> f x)"
        using 1(1) [OF True refl mid] 1(3) h by force
      then have r: "i \<le> ?r" "?r \<le> j" "\<And>x. ?h + 1 \<le> x \<Longrightarrow> x < ?r \<Longrightarrow> \<not> f x"
        "\<And>x. ?r \<le> x \<Longrightarrow> x < j \<Longrightarrow> f x" using h by auto
      have "\<not> f x" if "i \<le> x" "x < ?r" for x
      proof (cases "x \<le> ?h")
        case True
        then show ?thesis using 1(3) [OF _ that(1) True h(2)] mid by blast
      next
        case False
        then show ?thesis using r(3) that(2) by simp
      qed
      moreover have "search_loop f i j = ?r"
        using True mid by (simp add: search_loop.simps [of f i j])
      ultimately show ?thesis using r by auto
    qed
  qed
qed

text \<open>The partition of a key: of those that do not start after it, the last.\<close>

definition owner :: "Partition list \<Rightarrow> string \<Rightarrow> Partition option" where
  "owner ps k =
     (case filter (\<lambda>p. InclusiveStartKey p \<le> k) ps of [] \<Rightarrow> None | p # qs \<Rightarrow> Some (last (p # qs)))"

lemma partition_index_owner:
  assumes "sorted (map InclusiveStartKey ps)"
  shows "partition_index ps k \<le> length ps"
    and "owner ps k = (if partition_index ps k = 0 then None else Some (ps ! (partition_index ps k - 1)))"
proof -
  let ?f = "\<lambda>i. InclusiveStartKey (ps ! i) > k" and ?r = "partition_index ps k"
  have mono: "?f b" if "?f a" "0 \<le> a" "a \<le> b" "b < length ps" for a b
    using that sorted_nth_mono [OF assms that(3)] by auto
  have spec: "0 \<le> ?r \<and> ?r \<le> length ps \<and> (\<forall>x. 0 \<le> x \<longrightarrow> x < ?r \<longrightarrow> \<not> ?f x) \<and>
      (\<forall>x. ?r \<le> x \<longrightarrow> x < length ps \<longrightarrow> ?f x)"
    unfolding partition_index_def using mono by (intro search_loop_spec) blast+
  have r: "?r \<le> length ps" "\<forall>x < ?r. \<not> ?f x" "\<forall>x. ?r \<le> x \<longrightarrow> x < length ps \<longrightarrow> ?f x"
    using spec by blast+
  show "?r \<le> length ps" by (rule r(1))
  have "filter (\<lambda>p. InclusiveStartKey p \<le> k) (take ?r ps) = take ?r ps"
    using r(1,2) by (auto simp: filter_id_conv in_set_conv_nth not_less)
  moreover have "filter (\<lambda>p. InclusiveStartKey p \<le> k) (drop ?r ps) = []"
    using r(3) by (auto simp: filter_empty_conv in_set_conv_nth not_le)
  ultimately have f: "filter (\<lambda>p. InclusiveStartKey p \<le> k) ps = take ?r ps"
    by (metis append_take_drop_id filter_append append_Nil2)
  show "owner ps k = (if ?r = 0 then None else Some (ps ! (?r - 1)))"
  proof (cases "?r = 0")
    case True
    then show ?thesis using f by (simp add: owner_def)
  next
    case False
    then obtain m where m: "?r = Suc m" using not0_implies_Suc by blast
    then have "take ?r ps = take m ps @ [ps ! m]" using r(1) by (simp add: take_Suc_conv_app_nth)
    then have "take ?r ps \<noteq> []" "last (take ?r ps) = ps ! (?r - 1)" using m by auto
    then show ?thesis using False f by (cases "take ?r ps") (auto simp: owner_def)
  qed
qed

definition group_of :: "(nat \<times> string list) list \<Rightarrow> nat \<Rightarrow> string list" where
  "group_of reqs i = (case map_of reqs i of None \<Rightarrow> [] | Some ks \<Rightarrow> ks)"

lemma group_of_update: "group_of (AList.update i v reqs) j = (if j = i then v else group_of reqs j)"
  by (simp add: group_of_def update_conv')

lemma group_of_Cons: "group_of ((i, ks) # reqs) j = (if j = i then ks else group_of reqs j)"
  by (simp add: group_of_def)

lemma group_of_absent: "i \<notin> fst ` set reqs \<Longrightarrow> group_of reqs i = []"
  by (simp add: group_of_def map_of_eq_None_iff [symmetric])

lemma group_keys_ok:
  "group_keys ps keys reqs = Inr reqs' \<Longrightarrow> distinct (map fst reqs) \<Longrightarrow>
   distinct (map fst reqs') \<and> (\<forall>k \<in> set keys. partition_index ps k \<noteq> 0) \<and>
   (\<forall>i. set (group_of reqs' i) =
     set (group_of reqs i) \<union> {k \<in> set keys. partition_index ps k - 1 = i}) \<and>
   fst ` set reqs' = fst ` set reqs \<union> (\<lambda>k. partition_index ps k - 1) ` set keys"
proof (induction keys arbitrary: reqs)
  case (Cons key keys)
  let ?i = "partition_index ps key - 1"
  let ?reqs = "AList.update ?i (group_of reqs ?i @ [key]) reqs"
  from Cons.prems have i: "partition_index ps key \<noteq> 0"
    and rest: "group_keys ps keys ?reqs = Inr reqs'"
    by (auto simp: Let_def group_of_def split: if_splits)
  have "distinct (map fst ?reqs)" using Cons.prems(2) by (rule distinct_update)
  note IH = Cons.IH [OF rest this]
  have "set (group_of reqs' j) =
      set (group_of reqs j) \<union> {k \<in> set (key # keys). partition_index ps k - 1 = j}" for j
    using IH by (auto simp: group_of_update)
  moreover have "fst ` set ?reqs = insert ?i (fst ` set reqs)" by (simp add: dom_update)
  ultimately show ?case using IH i by auto
qed auto

lemma group_keys_error:
  "(\<exists>e. group_keys ps keys reqs = Inl e) \<longleftrightarrow> (\<exists>k \<in> set keys. partition_index ps k = 0)"
  by (induction keys arbitrary: reqs) (auto simp: Let_def)

definition run_paths :: "Partition \<Rightarrow> string list" where
  "run_paths p = map RunPath (Runs (PartitionRowAttrs p))"

context table_lookup
begin

lemma partition_loop_ok:
  "valid w \<Longrightarrow> distinct (map fst reqs) \<Longrightarrow>
   \<forall>(i, ks) \<in> set reqs. \<forall>k \<in> set ks. g k = i \<Longrightarrow>
   \<forall>(i, ks) \<in> set reqs. all_tables tbl w (run_paths (ps ! i)) \<Longrightarrow>
   partition_loop look ps reqs s w = (r, w') \<Longrightarrow>
   valid w' \<and> tbl w' = tbl w \<and>
   (\<forall>s' k. r = Inr s' \<longrightarrow> map_of (fst s') k =
      (if k \<in> set (group_of reqs (g k)) then
         (case last_found (tables tbl w (run_paths (ps ! g k))) k of
            Some v \<Rightarrow> Some v | None \<Rightarrow> map_of (fst s) k)
       else map_of (fst s) k))"
proof (induction reqs arbitrary: s w)
  case Nil
  then show ?case by (auto simp: group_of_def)
next
  case (Cons req reqs)
  obtain i ks where req: "req = (i, ks)" by fastforce
  obtain q w1 where runs: "partition_runs look ks (Runs (PartitionRowAttrs (ps ! i))) s w = (q, w1)"
    by fastforce
  have "all_tables tbl w (map RunPath (Runs (PartitionRowAttrs (ps ! i))))"
    using Cons.prems(4) req by (simp add: run_paths_def)
  note one = partition_runs_ok [OF Cons.prems(1) this runs]
  show ?case
  proof (cases q)
    case (Inl e)
    then show ?thesis using one Cons.prems(5) runs req by auto
  next
    case (Inr s1)
    have rest: "partition_loop look ps reqs s1 w1 = (r, w')" using Cons.prems(5) runs req Inr by simp
    have w1: "valid w1" "tbl w1 = tbl w" using one by auto
    have m: "map_of (fst s1) k =
        (if k \<in> set ks then
           (case last_found (tables tbl w (run_paths (ps ! i))) k of
              Some v \<Rightarrow> Some v | None \<Rightarrow> map_of (fst s) k)
         else map_of (fst s) k)" for k
      using one Inr by (auto simp: run_paths_def)
    have "distinct (map fst reqs)" "\<forall>(i, ks) \<in> set reqs. \<forall>k \<in> set ks. g k = i"
      "\<forall>(i, ks) \<in> set reqs. all_tables tbl w1 (run_paths (ps ! i))"
      using Cons.prems(2-4) tables_cong [OF w1(2)] by auto
    note IH = Cons.IH [OF w1(1) this rest]
    have gks: "g k = i" if "k \<in> set ks" for k using Cons.prems(3) req that by auto
    have none: "group_of reqs i = []"
      using Cons.prems(2) req by (intro group_of_absent) simp
    have grp: "k \<in> set (group_of (req # reqs) (g k)) \<longleftrightarrow> k \<in> set ks \<or> k \<in> set (group_of reqs (g k))" for k
      using gks [of k] none by (cases "g k = i") (auto simp: req group_of_Cons)
    have "map_of (fst s') k =
        (if k \<in> set (group_of (req # reqs) (g k)) then
           (case last_found (tables tbl w (run_paths (ps ! g k))) k of
              Some v \<Rightarrow> Some v | None \<Rightarrow> map_of (fst s) k)
         else map_of (fst s) k)" if "r = Inr s'" for s' k
    proof (cases "k \<in> set ks")
      case True
      then show ?thesis using IH that m [of k] gks none grp [of k] by simp
    next
      case False
      then show ?thesis using IH that m [of k] grp [of k] tables_cong [OF w1(2)]
        by (simp split: option.split)
    qed
    then show ?thesis using IH w1 by simp
  qed
qed

end

section \<open>The answer of BatchGet\<close>

definition wal_paths :: "WriteAheadLog list \<Rightarrow> string list" where
  "wal_paths ws = map (Path \<circ> Attrs) ws"

definition shared_paths :: "SharedRun list \<Rightarrow> string list" where
  "shared_paths rs = map (RunPath \<circ> RunRowAttrs) rs"

text \<open>The value of a key as the three lists have it.\<close>

definition index_view ::
  "('w \<Rightarrow> string \<Rightarrow> Record list option) \<Rightarrow> 'w \<Rightarrow> WriteAheadLog list \<Rightarrow> SharedRun list \<Rightarrow> Partition list \<Rightarrow>
   string \<Rightarrow> bytes option"
where
  "index_view tbl w ws rs ps k =
     (case newest (tables tbl w (wal_paths ws @ shared_paths rs)) k of
        Some x \<Rightarrow> x
      | None \<Rightarrow>
          (case owner ps k of
             None \<Rightarrow> None
           | Some p \<Rightarrow> last_found (tables tbl w (run_paths p)) k))"

definition sources_stored ::
  "('w \<Rightarrow> string \<Rightarrow> Record list option) \<Rightarrow> 'w \<Rightarrow> WriteAheadLog list \<Rightarrow> SharedRun list \<Rightarrow> Partition list \<Rightarrow> bool"
where
  "sources_stored tbl w ws rs ps \<longleftrightarrow>
     all_tables tbl w (wal_paths ws) \<and> all_tables tbl w (shared_paths rs) \<and>
     list_all (\<lambda>p. all_tables tbl w (run_paths p)) ps"

lemma set_fold_insert: "set (fold List.insert xs acc) = set acc \<union> set xs"
  by (induction xs arbitrary: acc) auto

lemma progress_start: "progress (set keys) [] ([], fold List.insert keys [])"
  by (simp add: progress_def set_fold_insert)

context table_lookup
begin

lemma get_shared_runs_ok:
  assumes "valid w" and "all_tables tbl w (shared_paths rs)" and "progress keys ts s"
    and "get_shared_runs look (Some rs) s w = (r, w')"
  shows "valid w' \<and> tbl w' = tbl w \<and>
    (\<forall>s'. r = Inr s' \<longrightarrow> progress keys (ts @ tables tbl w (shared_paths rs)) s')"
proof (cases "snd s = []")
  case True
  then show ?thesis using assms progress_done by (auto simp: get_shared_runs_def)
next
  case False
  then have "run_loop look (map RunRowAttrs rs) s w = (r, w')"
    using assms(4) by (simp add: get_shared_runs_def)
  from run_loop_ok [OF assms(1) _ assms(3) this] assms(2) show ?thesis
    by (simp add: shared_paths_def)
qed

lemma get_partitions_ok:
  assumes w: "valid w" and tabs: "list_all (\<lambda>p. all_tables tbl w (run_paths p)) ps"
    and sorted: "sorted (map InclusiveStartKey ps)" and s: "progress keys ts s"
    and run: "get_partitions look (Some ps) s w = (r, w')"
  shows "valid w' \<and> tbl w' = tbl w \<and>
    (\<forall>s' k. r = Inr s' \<longrightarrow> map_of (fst s') k =
      (if k \<in> keys then
         (case newest ts k of
            Some x \<Rightarrow> x
          | None \<Rightarrow> (case owner ps k of None \<Rightarrow> None
                     | Some p \<Rightarrow> last_found (tables tbl w (run_paths p)) k))
       else None))"
proof -
  have rem: "set (snd s) = {k \<in> keys. newest ts k = None}"
    and resp: "map_of (fst s) k = (if k \<in> keys then value_of (newest ts k) else None)" for k
    using s by (simp_all add: progress_def)
  note idx = partition_index_owner [OF sorted]
  consider "snd s = []" | e where "snd s \<noteq> []" "group_keys ps (snd s) [] = Inl e"
    | reqs where "snd s \<noteq> []" "group_keys ps (snd s) [] = Inr reqs"
    by (cases "group_keys ps (snd s) []") auto
  then show ?thesis
  proof cases
    case 1
    then have found: "newest ts k \<noteq> None" if "k \<in> keys" for k using rem that by auto
    have "r = Inr s" "w' = w" using 1 run by (auto simp: get_partitions_def)
    then show ?thesis using w by (auto simp: resp split: option.split dest: found)
  next
    case 2
    then show ?thesis using w run by (auto simp: get_partitions_def)
  next
    case 3
    let ?g = "\<lambda>k. partition_index ps k - 1"
    from group_keys_ok [OF 3(2)] have g: "distinct (map fst reqs)"
      "\<forall>k \<in> set (snd s). partition_index ps k \<noteq> 0"
      "\<And>i. set (group_of reqs i) = {k \<in> set (snd s). ?g k = i}"
      "fst ` set reqs = ?g ` set (snd s)"
      by (simp_all add: group_of_def [of "[]"])
    have member: "set (group_of reqs i) = set ks" if "(i, ks) \<in> set reqs" for i ks
      using that g(1) by (simp add: group_of_def)
    have k: "\<forall>(i, ks) \<in> set reqs. \<forall>k \<in> set ks. ?g k = i" using member g(3) by blast
    have "\<forall>(i, ks) \<in> set reqs. all_tables tbl w (run_paths (ps ! i))"
    proof clarify
      fix i ks assume "(i, ks) \<in> set reqs"
      then have "i \<in> ?g ` set (snd s)" using g(4) by (metis fst_conv image_eqI)
      then obtain k where "i = ?g k" "partition_index ps k \<noteq> 0" using g(2) by auto
      then have "i < length ps" using idx(1) [of k] by simp
      then show "all_tables tbl w (run_paths (ps ! i))" using tabs by (simp add: list_all_length)
    qed
    moreover have "partition_loop look ps reqs s w = (r, w')"
      using 3 run by (simp add: get_partitions_def)
    ultimately have R: "valid w' \<and> tbl w' = tbl w \<and> (\<forall>s' k. r = Inr s' \<longrightarrow> map_of (fst s') k =
        (if k \<in> set (group_of reqs (?g k)) then
           (case last_found (tables tbl w (run_paths (ps ! ?g k))) k of
              Some v \<Rightarrow> Some v | None \<Rightarrow> map_of (fst s) k)
         else map_of (fst s) k))"
      using partition_loop_ok [OF w g(1) k] by blast
    have grouped: "k \<in> set (group_of reqs (?g k)) \<longleftrightarrow> k \<in> keys \<and> newest ts k = None" for k
      using g(3) rem by auto
    have own: "owner ps k = Some (ps ! ?g k)" if "k \<in> keys" "newest ts k = None" for k
      using g(2) idx(2) [of k] rem that by simp
    have "map_of (fst s') k =
        (if k \<in> keys then
           (case newest ts k of
              Some x \<Rightarrow> x
            | None \<Rightarrow> (case owner ps k of None \<Rightarrow> None
                       | Some p \<Rightarrow> last_found (tables tbl w (run_paths p)) k))
         else None)" if "r = Inr s'" for s' k
    proof (cases "k \<in> keys \<and> newest ts k = None")
      case True
      then show ?thesis using R that own grouped [of k] by (simp add: resp split: option.split)
    next
      case False
      then show ?thesis using R that grouped [of k] by (auto simp: resp split: option.split)
    qed
    then show ?thesis using R by blast
  qed
qed

end

lemma BatchGet_ok:
  assumes cs: "cache_service call tbl valid" and w: "valid w"
    and h: "wals h = Some ws" "sharedRuns h = Some rs" "parts h = Some ps"
    and stored: "sources_stored tbl w ws rs ps" and sorted: "sorted (map InclusiveStartKey ps)"
    and run: "BatchGet sum64 call h keys w = (r, w')"
  shows "valid w' \<and> tbl w' = tbl w \<and>
    (\<forall>resp k. r = Inr resp \<longrightarrow>
       map_of resp k = (if k \<in> set keys then index_view tbl w ws rs ps k else None))"
proof -
  let ?look = "lookupSSTable sum64 call h"
  have tl: "table_lookup ?look tbl valid" using cs by (rule cache_service.lookup_contract)
  obtain r1 w1 where l1: "wal_loop ?look ws ([], fold List.insert keys []) w = (r1, w1)" by fastforce
  have "all_tables tbl w (map (Path \<circ> Attrs) ws)"
    using stored by (simp add: sources_stored_def wal_paths_def)
  note 1 = table_lookup.wal_loop_ok [OF tl w this progress_start l1]
  show ?thesis
  proof (cases r1)
    case (Inl e)
    then show ?thesis using run l1 h 1 by (auto simp: BatchGet_def Let_def)
  next
    case (Inr s1)
    obtain r2 w2 where l2: "get_shared_runs ?look (Some rs) s1 w1 = (r2, w2)" by fastforce
    have w1: "valid w1" "tbl w1 = tbl w" "progress (set keys) (tables tbl w (wal_paths ws)) s1"
      using 1 Inr by (auto simp: wal_paths_def)
    note same1 = tables_cong [OF w1(2)]
    have "all_tables tbl w1 (shared_paths rs)" using stored same1 by (simp add: sources_stored_def)
    note 2 = table_lookup.get_shared_runs_ok [OF tl w1(1) this w1(3) l2]
    show ?thesis
    proof (cases r2)
      case Inl2: (Inl e)
      then show ?thesis using run l1 l2 h Inr 2 w1(2) by (auto simp: BatchGet_def Let_def)
    next
      case Inr2: (Inr s2)
      obtain r3 w3 where l3: "get_partitions ?look (Some ps) s2 w2 = (r3, w3)" by fastforce
      have w2: "valid w2" "tbl w2 = tbl w"
        "progress (set keys) (tables tbl w (wal_paths ws @ shared_paths rs)) s2"
        using 2 Inr2 w1(2) same1 by auto
      note same2 = tables_cong [OF w2(2)]
      have "list_all (\<lambda>p. all_tables tbl w2 (run_paths p)) ps"
        using stored same2 by (simp add: sources_stored_def)
      note 3 = table_lookup.get_partitions_ok [OF tl w2(1) this sorted w2(3) l3]
      have "r = map_sum id fst r3 \<and> w' = w3"
        using run l1 l2 l3 h Inr Inr2 by (auto simp: BatchGet_def Let_def split: sum.splits)
      then show ?thesis
        using 3 w2(2) same2 by (cases r3) (auto simp: index_view_def split: option.splits)
    qed
  qed
qed

section \<open>When every service answers\<close>

text \<open>The services that are up answer every request that is not empty, for a stored table.\<close>

locale answering_cache_service = cache_service +
  fixes serving :: "'a \<Rightarrow> string \<Rightarrow> bool"
  assumes answers: "valid w \<Longrightarrow> serving w c \<Longrightarrow> GetKeys req \<noteq> [] \<Longrightarrow> tbl w (GetObjectPath req) \<noteq> None \<Longrightarrow>
      \<exists>resp w'. call c req w = (Inr resp, w')"
    and keeps_serving: "serving w c' \<Longrightarrow> serving (snd (call c req w)) c'"

locale answering_lookup = table_lookup +
  fixes up :: "'a \<Rightarrow> bool"
  assumes look_answers: "valid w \<Longrightarrow> up w \<Longrightarrow> keys \<noteq> [] \<Longrightarrow> tbl w p \<noteq> None \<Longrightarrow>
      \<exists>resp w'. look keys p w = (Inr resp, w')"
    and look_keeps_up: "up w \<Longrightarrow> up (snd (look keys p w))"
begin

lemma wal_loop_succeeds:
  "valid w \<Longrightarrow> up w \<Longrightarrow> all_tables tbl w (map (Path \<circ> Attrs) ws) \<Longrightarrow>
   wal_loop look ws s w = (r, w') \<Longrightarrow> (\<exists>s'. r = Inr s') \<and> up w'"
proof (induction ws arbitrary: s w)
  case (Cons wal ws)
  show ?case
  proof (cases "snd s = []")
    case False
    have "tbl w (Path (Attrs wal)) \<noteq> None" using Cons.prems(3) by simp
    from look_answers [OF Cons.prems(1,2) False this] obtain pr w1
      where look: "look (snd s) (Path (Attrs wal)) w = (Inr pr, w1)" by blast
    have "up w1" using look_keeps_up [OF Cons.prems(2), of "snd s" "Path (Attrs wal)"] look by simp
    with Cons.IH [OF look_step(1) [OF Cons.prems(1) look]] Cons.prems(3,4) look False
      look_step(4) [OF Cons.prems(1) look] show ?thesis by simp
  qed (use Cons.prems in auto)
qed auto

lemma run_loop_fails_iff:
  "valid w \<Longrightarrow> up w \<Longrightarrow> all_tables tbl w (map RunPath rs) \<Longrightarrow> progress keys ts s \<Longrightarrow>
   run_loop look rs s w = (r, w') \<Longrightarrow>
   ((\<exists>e. r = Inl e) \<longleftrightarrow>
     (\<exists>n < length rs. \<forall>k \<in> keys. newest (ts @ tables tbl w (map RunPath (take n rs))) k \<noteq> None)) \<and>
   ((\<exists>s'. r = Inr s') \<longrightarrow> up w')"
proof (induction rs arbitrary: ts s w)
  case (Cons run rs)
  have rem: "set (snd s) = {k \<in> keys. newest ts k = None}"
    using Cons.prems(4) by (simp add: progress_def)
  show ?case
  proof (cases "snd s = []")
    case True
    then have "\<forall>k \<in> keys. newest ts k \<noteq> None" using rem by auto
    moreover obtain e where "r = Inl e"
      using Cons.prems(5) True look_empty [OF Cons.prems(1), of "RunPath run"]
      by (cases "look [] (RunPath run) w") fastforce
    ultimately show ?thesis by (auto intro!: exI [of _ 0])
  next
    case False
    then have some: "\<not> (\<forall>k \<in> keys. newest ts k \<noteq> None)" using rem by (cases "snd s") auto
    obtain t where t: "tbl w (RunPath run) = Some t" using Cons.prems(3) by auto
    then have "tbl w (RunPath run) \<noteq> None" by simp
    from look_answers [OF Cons.prems(1,2) False this] obtain pr w1
      where look: "look (snd s) (RunPath run) w = (Inr pr, w1)" by blast
    have up: "up w1" using look_keeps_up [OF Cons.prems(2), of "snd s" "RunPath run"] look by simp
    note w1 = look_step [OF Cons.prems(1) look]
    have "run_loop look rs (absorb pr s) w1 = (r, w')" using Cons.prems(5) look by simp
    from Cons.IH [OF w1(1) up _ absorb_progress [OF Cons.prems(1) look t Cons.prems(4)] this]
    have IH: "((\<exists>e. r = Inl e) \<longleftrightarrow> (\<exists>n < length rs. \<forall>k \<in> keys.
          newest (ts @ tables tbl w (map RunPath (take (Suc n) (run # rs)))) k \<noteq> None)) \<and>
        ((\<exists>s'. r = Inr s') \<longrightarrow> up w')"
      using Cons.prems(3) w1 t by simp
    have "(\<exists>n < length (run # rs). \<forall>k \<in> keys.
          newest (ts @ tables tbl w (map RunPath (take n (run # rs)))) k \<noteq> None) \<longleftrightarrow>
        (\<exists>n < length rs. \<forall>k \<in> keys.
          newest (ts @ tables tbl w (map RunPath (take (Suc n) (run # rs)))) k \<noteq> None)"
      (is "(\<exists>n < _. ?P n) \<longleftrightarrow> _")
    proof -
      have "\<not> ?P 0" using some by simp
      then show ?thesis unfolding length_Cons Ex_less_Suc2 by blast
    qed
    then show ?thesis using IH by blast
  qed
qed auto

lemma partition_runs_succeeds:
  "valid w \<Longrightarrow> up w \<Longrightarrow> keys \<noteq> [] \<Longrightarrow> all_tables tbl w (map RunPath rs) \<Longrightarrow>
   partition_runs look keys rs s w = (r, w') \<Longrightarrow> (\<exists>s'. r = Inr s') \<and> up w'"
proof (induction rs arbitrary: s w)
  case (Cons run rs)
  have "tbl w (RunPath run) \<noteq> None" using Cons.prems(4) by simp
  from look_answers [OF Cons.prems(1-3) this] obtain pr w1
    where look: "look keys (RunPath run) w = (Inr pr, w1)" by blast
  have "up w1" using look_keeps_up [OF Cons.prems(2), of keys "RunPath run"] look by simp
  with Cons.IH [OF look_step(1) [OF Cons.prems(1) look]] Cons.prems(3-5) look
    look_step(4) [OF Cons.prems(1) look] show ?case by simp
qed auto

lemma partition_loop_succeeds:
  "valid w \<Longrightarrow> up w \<Longrightarrow> \<forall>(i, ks) \<in> set reqs. ks \<noteq> [] \<and> all_tables tbl w (run_paths (ps ! i)) \<Longrightarrow>
   partition_loop look ps reqs s w = (r, w') \<Longrightarrow> (\<exists>s'. r = Inr s') \<and> up w'"
proof (induction reqs arbitrary: s w)
  case (Cons req reqs)
  obtain i ks where req: "req = (i, ks)" by fastforce
  obtain q w1 where runs: "partition_runs look ks (Runs (PartitionRowAttrs (ps ! i))) s w = (q, w1)"
    by fastforce
  have t: "all_tables tbl w (map RunPath (Runs (PartitionRowAttrs (ps ! i))))" and ks: "ks \<noteq> []"
    using Cons.prems(3) req by (auto simp: run_paths_def)
  from partition_runs_succeeds [OF Cons.prems(1,2) ks t runs] obtain s1
    where q: "q = Inr s1" and up: "up w1" by blast
  have w1: "valid w1" "tbl w1 = tbl w" using partition_runs_ok [OF Cons.prems(1) t runs] by auto
  have "partition_loop look ps reqs s1 w1 = (r, w')" using Cons.prems(4) runs req q by simp
  from Cons.IH [OF w1(1) up _ this] Cons.prems(3) show ?case using tables_cong [OF w1(2)] by auto
qed auto

end

text \<open>Every member of the ring is up, and there is at least one.\<close>

definition ring_serving :: "('w \<Rightarrow> string \<Rightarrow> bool) \<Rightarrow> index_handler \<Rightarrow> 'w \<Rightarrow> bool" where
  "ring_serving serving h w \<longleftrightarrow>
     ring_ok h \<and> members (ring h) \<noteq> [] \<and> length (members (ring h)) < 2 ^ 64 \<and>
     list_all (\<lambda>(e, c). serving w c) (cacheClients h)"

lemma getClients_ok:
  assumes "ring_ok h" and "members (ring h) \<noteq> []" and "length (members (ring h)) < 2 ^ 64"
  shows "\<exists>i j. i < length (members (ring h)) \<and> j = (i + 1) mod length (members (ring h)) \<and>
    getClients sum64 p h = Inr (map ((@) ''http://'')
      (if j \<noteq> i then [members (ring h) ! i, members (ring h) ! j] else [members (ring h) ! i]))"
proof -
  let ?ms = "members (ring h)"
  from locateKey_cases [OF assms(3), of sum64 "bytes_of p"] assms(2) obtain i j where
    ij: "i < length ?ms" "j < length ?ms" "j = (i + 1) mod length ?ms"
    "locateKey sum64 (bytes_of p) (ring h) =
      (if ?ms ! j \<noteq> ?ms ! i then [?ms ! i, ?ms ! j] else [?ms ! i])" by blast
  have "distinct ?ms" using assms(1) by (simp add: ring_ok_def)
  then have "?ms ! j \<noteq> ?ms ! i \<longleftrightarrow> j \<noteq> i" using ij by (simp add: nth_eq_iff_index_eq)
  moreover have "?ms ! i \<in> set ?ms" "?ms ! j \<in> set ?ms" using ij by simp_all
  then have "map_of (cacheClients h) (?ms ! i) = Some (''http://'' @ (?ms ! i))"
    "map_of (cacheClients h) (?ms ! j) = Some (''http://'' @ (?ms ! j))"
    using ring_ok_client [OF assms(1)] by simp_all
  ultimately have "getClients sum64 p h = Inr (map ((@) ''http://'')
      (if j \<noteq> i then [?ms ! i, ?ms ! j] else [?ms ! i]))"
    using ij(4) by (simp add: getClients_def)
  then show ?thesis using ij by blast
qed

context answering_cache_service
begin

lemma ring_serving_client:
  assumes "ring_serving serving h w" and "m \<in> set (members (ring h))"
  shows "serving w (''http://'' @ m)"
  using assms ring_ok_client [of h m] map_of_SomeD by (fastforce simp: ring_serving_def list_all_iff)

lemma lookup_succeeds:
  assumes "valid w" and "ring_serving serving h w" and "keys \<noteq> []" and "tbl w p \<noteq> None"
  shows "\<exists>resp w'. lookupSSTable sum64 call h keys p w = (Inr resp, w')"
proof -
  let ?ms = "members (ring h)"
  obtain i cs where i: "i < length ?ms" "getClients sum64 p h = Inr ((''http://'' @ (?ms ! i)) # cs)"
    using getClients_ok [of h sum64 p] assms(2) by (fastforce simp: ring_serving_def)
  have "serving w (''http://'' @ (?ms ! i))" using assms(2) nth_mem [OF i(1)] by (rule ring_serving_client)
  from answers [OF assms(1) this, of "\<lparr>GetObjectPath = p, GetKeys = keys\<rparr>"] assms(3,4)
  obtain resp w' where "call (''http://'' @ (?ms ! i)) \<lparr>GetObjectPath = p, GetKeys = keys\<rparr> w = (Inr resp, w')"
    by auto
  then show ?thesis using i(2) by (simp add: lookupSSTable_def)
qed

lemma try_clients_serving: "serving w c' \<Longrightarrow> serving (snd (try_clients call req cs e w)) c'"
proof (induction cs arbitrary: e w)
  case (Cons c cs)
  obtain r w1 where c: "call c req w = (r, w1)" by fastforce
  then have "serving w1 c'" using keeps_serving [OF Cons.prems, of c req] by simp
  then show ?case using Cons.IH c by (cases r) auto
qed simp

lemma lookup_keeps_serving:
  "ring_serving serving h w \<Longrightarrow> ring_serving serving h (snd (lookupSSTable sum64 call h' keys p w))"
proof -
  assume "ring_serving serving h w"
  moreover obtain cs where "snd (lookupSSTable sum64 call h' keys p w) = w \<or>
      snd (lookupSSTable sum64 call h' keys p w) =
        snd (try_clients call \<lparr>GetObjectPath = p, GetKeys = keys\<rparr> cs None w)"
    using lookup_world by blast
  ultimately show ?thesis using try_clients_serving by (auto simp: ring_serving_def list_all_iff)
qed

lemma lookup_answering: "answering_lookup (lookupSSTable sum64 call h) tbl valid (ring_serving serving h)"
  by (intro answering_lookup.intro lookup_contract answering_lookup_axioms.intro lookup_succeeds
      lookup_keeps_serving)

end

sublocale answering_cache_service \<subseteq>
  answers: answering_lookup "lookupSSTable sum64 call h" tbl valid "ring_serving serving h" for sum64 h
  by (rule lookup_answering)

context answering_lookup
begin

lemma get_partitions_succeeds:
  assumes w: "valid w" "up w" and tabs: "list_all (\<lambda>p. all_tables tbl w (run_paths p)) ps"
    and sorted: "sorted (map InclusiveStartKey ps)" and own: "\<forall>k \<in> set (snd s). owner ps k \<noteq> None"
    and run: "get_partitions look (Some ps) s w = (r, w')"
  shows "\<exists>s'. r = Inr s'"
proof (cases "snd s = []")
  case True
  then show ?thesis using run by (auto simp: get_partitions_def)
next
  case False
  note idx = partition_index_owner [OF sorted]
  have "partition_index ps k \<noteq> 0" if "k \<in> set (snd s)" for k using bspec [OF own that] idx(2) [of k] by (cases "partition_index ps k = 0") auto
  then have "\<not> (\<exists>k \<in> set (snd s). partition_index ps k = 0)" by blast
  then obtain reqs where reqs: "group_keys ps (snd s) [] = Inr reqs"
    using group_keys_error [of ps "snd s" "[]"] by (cases "group_keys ps (snd s) []") auto
  from group_keys_ok [OF reqs] have g: "distinct (map fst reqs)"
    "\<And>i. set (group_of reqs i) = {k \<in> set (snd s). partition_index ps k - 1 = i}"
    "fst ` set reqs = (\<lambda>k. partition_index ps k - 1) ` set (snd s)"
    "\<forall>k \<in> set (snd s). partition_index ps k \<noteq> 0"
    by (simp_all add: group_of_def [of "[]"])
  have "ks \<noteq> [] \<and> all_tables tbl w (run_paths (ps ! i))" if m: "(i, ks) \<in> set reqs" for i ks
  proof -
    have "i \<in> (\<lambda>k. partition_index ps k - 1) ` set (snd s)" using g(3) m by (metis fst_conv image_eqI)
    then obtain k where k: "k \<in> set (snd s)" "i = partition_index ps k - 1" by auto
    then have "i < length ps" using idx(1) [of k] g(4) by fastforce
    moreover have "k \<in> set (group_of reqs i)" using g(2) k by simp
    then have "ks \<noteq> []" using m g(1) by (auto simp: group_of_def)
    ultimately show ?thesis using tabs by (simp add: list_all_length)
  qed
  moreover have "partition_loop look ps reqs s w = (r, w')"
    using False reqs run by (simp add: get_partitions_def)
  ultimately show ?thesis using partition_loop_succeeds [OF w] by blast
qed

end

lemma BatchGet_fails_iff:
  assumes cs: "answering_cache_service call tbl valid serving" and w: "valid w"
    and up: "ring_serving serving h w"
    and h: "wals h = Some ws" "sharedRuns h = Some rs" "parts h = Some ps"
    and stored: "sources_stored tbl w ws rs ps" and sorted: "sorted (map InclusiveStartKey ps)"
    and own: "\<forall>k \<in> set keys. owner ps k \<noteq> None"
    and run: "BatchGet hash call h keys w = (r, w')"
  shows "(\<exists>e. r = Inl e) \<longleftrightarrow>
    (\<exists>k \<in> set keys. newest (tables tbl w (wal_paths ws)) k = None) \<and>
    (\<exists>n < length rs. \<forall>k \<in> set keys.
       newest (tables tbl w (wal_paths ws @ take n (shared_paths rs))) k \<noteq> None)"
proof -
  let ?look = "lookupSSTable hash call h" and ?up = "ring_serving serving h"
  have al: "answering_lookup ?look tbl valid ?up"
    using cs by (rule answering_cache_service.lookup_answering)
  then have tl: "table_lookup ?look tbl valid" by (rule answering_lookup.axioms)
  obtain r1 w1 where l1: "wal_loop ?look ws ([], fold List.insert keys []) w = (r1, w1)" by fastforce
  have "all_tables tbl w (map (Path \<circ> Attrs) ws)"
    using stored by (simp add: sources_stored_def wal_paths_def)
  note 1 = table_lookup.wal_loop_ok [OF tl w this progress_start l1]
    and s1 = answering_lookup.wal_loop_succeeds [OF al w up this l1]
  then obtain s1 where r1: "r1 = Inr s1" and up1: "?up w1" by blast
  have w1: "valid w1" "tbl w1 = tbl w" "progress (set keys) (tables tbl w (wal_paths ws)) s1"
    using 1 r1 by (auto simp: wal_paths_def)
  note same1 = tables_cong [OF w1(2)]
  have rem1: "set (snd s1) = {k \<in> set keys. newest (tables tbl w (wal_paths ws)) k = None}"
    using w1(3) by (simp add: progress_def)
  obtain r2 w2 where l2: "get_shared_runs ?look (Some rs) s1 w1 = (r2, w2)" by fastforce
  have t1: "all_tables tbl w1 (shared_paths rs)" using stored same1 by (simp add: sources_stored_def)
  have 2: "((\<exists>e. r2 = Inl e) \<longleftrightarrow>
      snd s1 \<noteq> [] \<and> (\<exists>n < length rs. \<forall>k \<in> set keys.
        newest (tables tbl w (wal_paths ws @ take n (shared_paths rs))) k \<noteq> None)) \<and>
      ((\<exists>s'. r2 = Inr s') \<longrightarrow> ?up w2)"
  proof (cases "snd s1 = []")
    case True
    then show ?thesis using l2 up1 by (auto simp: get_shared_runs_def)
  next
    case False
    then have "run_loop ?look (map RunRowAttrs rs) s1 w1 = (r2, w2)"
      using l2 by (simp add: get_shared_runs_def)
    from answering_lookup.run_loop_fails_iff [OF al w1(1) up1 _ w1(3) this] t1 False show ?thesis
      by (simp add: shared_paths_def same1 take_map)
  qed
  have "(\<exists>e. r = Inl e) \<longleftrightarrow> (\<exists>e. r2 = Inl e)"
  proof (cases r2)
    case (Inl e)
    then show ?thesis using run l1 l2 h r1 by (auto simp: BatchGet_def Let_def)
  next
    case (Inr s2)
    obtain r3 w3 where l3: "get_partitions ?look (Some ps) s2 w2 = (r3, w3)" by fastforce
    note R = table_lookup.get_shared_runs_ok [OF tl w1(1) t1 w1(3) l2]
    have w2: "valid w2" "tbl w2 = tbl w" using R w1(2) by auto
    have "progress (set keys) (tables tbl w (wal_paths ws) @ tables tbl w1 (shared_paths rs)) s2"
      using R Inr by blast
    then have "\<forall>k \<in> set (snd s2). owner ps k \<noteq> None" using own by (auto simp: progress_def)
    moreover have "list_all (\<lambda>p. all_tables tbl w2 (run_paths p)) ps"
      using stored tables_cong [OF w2(2)] by (simp add: sources_stored_def)
    moreover have "?up w2" using 2 Inr by blast
    ultimately obtain s3 where "r3 = Inr s3"
      using answering_lookup.get_partitions_succeeds [OF al w2(1) _ _ sorted _ l3] by blast
    then show ?thesis using run l1 l2 l3 h r1 Inr by (auto simp: BatchGet_def Let_def)
  qed
  moreover have "snd s1 \<noteq> [] \<longleftrightarrow> (\<exists>k \<in> set keys. newest (tables tbl w (wal_paths ws)) k = None)"
    using rem1 by (cases "snd s1") auto
  ultimately show ?thesis using 2 by blast
qed

section \<open>A fleet of cache services\<close>

text \<open>
  Cache handlers behind URLs, sharing one object store, and a network whose next calls go through
  or not.
\<close>

record fleet =
  nodes :: "(string \<times> (string \<times> bytes) list sizeAwareCache) list"
  bucket :: mem_bucket
  network :: "bool list"

definition unreachable :: go_error where
  "unreachable = ErrRPC CodeUnavailable (ErrText ''connection refused'')"

definition fleet_call :: "fleet cache_call" where
  "fleet_call c req w =
     (let w' = w\<lparr>network := tl (network w)\<rparr> in
      if network w \<noteq> [] \<and> \<not> hd (network w) then (Inl unreachable, w')
      else
        (case map_of (nodes w) c of
           None \<Rightarrow> (Inl unreachable, w')
         | Some n \<Rightarrow>
             (case CacheGet (list_lru max_items) mem_fetch req (n, bucket w) of
                None \<Rightarrow> (Inl ErrDeadlineExceeded, w')
              | Some (r, n', b') \<Rightarrow> (r, w'\<lparr>nodes := AList.update c n' (nodes w), bucket := b'\<rparr>))))"

definition fleet_table :: "fleet \<Rightarrow> string \<Rightarrow> Record list option" where
  "fleet_table w p = (if p = [] then None else Option.bind (mem_contents (bucket w) p) table_of)"

definition fleet_valid :: "fleet \<Rightarrow> bool" where
  "fleet_valid w \<longleftrightarrow>
     list_all (\<lambda>(c, n). cache_ok (\<lambda>es. es) n \<and> coherent (\<lambda>es. es) mem_contents n (bucket w)) (nodes w)"

definition fleet_serving :: "fleet \<Rightarrow> string \<Rightarrow> bool" where
  "fleet_serving w c \<longleftrightarrow> network w = [] \<and> script (bucket w) = [] \<and> c \<in> fst ` set (nodes w)"

lemma collected_distinct:
  "distinct (map fst (Found resp)) \<Longrightarrow> distinct (map fst (Found (collected keys resp rs)))"
  by (induction rs arbitrary: resp) (auto simp: collected_def collect_key_def distinct_update)

lemma lookup_object_distinct:
  assumes "lookup_object keys data = Inr resp"
  shows "distinct (map fst (Found resp))"
  using assms
  by (auto simp: lookup_object_def Records_collect_key collected_distinct split: prod.splits iter_end.splits)

lemma fleet_node:
  assumes "fleet_valid w" and "map_of (nodes w) c = Some n"
  shows "cache_ok (\<lambda>es. es) n \<and> coherent (\<lambda>es. es) mem_contents n (bucket w)"
  using assms(1) map_of_SomeD [OF assms(2)] by (auto simp: fleet_valid_def list_all_iff)

text \<open>A call fails without an effect on the caches, or is a call of one cache handler.\<close>

lemma fleet_call_cases:
  assumes "fleet_valid w"
  obtains (failed) e where "fleet_call c req w = (Inl e, w\<lparr>network := tl (network w)\<rparr>)"
      "\<not> fleet_serving w c"
  | (served) n r n' b' where "map_of (nodes w) c = Some n"
      "CacheGet (list_lru max_items) mem_fetch req (n, bucket w) = Some (r, n', b')"
      "fleet_call c req w =
        (r, w\<lparr>network := tl (network w), nodes := AList.update c n' (nodes w), bucket := b'\<rparr>)"
      "cache_ok (\<lambda>es. es) n'" "coherent (\<lambda>es. es) mem_contents n' (bucket w)"
      "mem_contents b' = mem_contents (bucket w)"
      "\<And>resp. r = Inr resp \<Longrightarrow> GetObjectPath req \<noteq> [] \<and> GetKeys req \<noteq> [] \<and>
        (\<exists>data. mem_contents (bucket w) (GetObjectPath req) = Some data \<and>
          lookup_object (GetKeys req) data = Inr resp)"
proof (cases "(network w \<noteq> [] \<and> \<not> hd (network w)) \<or> map_of (nodes w) c = None")
  case True
  then have "\<not> fleet_serving w c" by (auto simp: fleet_serving_def map_of_eq_None_iff)
  moreover have "fleet_call c req w = (Inl unreachable, w\<lparr>network := tl (network w)\<rparr>)"
    using True by (auto simp: fleet_call_def Let_def)
  ultimately show ?thesis using failed by blast
next
  case False
  then obtain n where n: "map_of (nodes w) c = Some n" by auto
  from fleet_node [OF assms n] have
    "cache_ok (\<lambda>es. es) n" "coherent (\<lambda>es. es) mem_contents n (bucket w)" by auto
  from lru_cache.CacheGet_ok [OF list_lru.lru_cache_axioms mem.object_store_axioms this, where req = req]
  obtain r n' b' where
    "CacheGet (list_lru max_items) mem_fetch req (n, bucket w) = Some (r, n', b')"
    "cache_ok (\<lambda>es. es) n'" "coherent (\<lambda>es. es) mem_contents n' (bucket w)"
    "mem_contents b' = mem_contents (bucket w)"
    "\<forall>resp. r = Inr resp \<longrightarrow> GetObjectPath req \<noteq> [] \<and> GetKeys req \<noteq> [] \<and>
        (\<exists>data. mem_contents (bucket w) (GetObjectPath req) = Some data \<and>
          lookup_object (GetKeys req) data = Inr resp)" by blast
  with n False show ?thesis by (intro served [of n r n' b']) (auto simp: fleet_call_def Let_def)
qed

lemma set_update_insert: "set (AList.update k v xs) \<subseteq> insert (k, v) (set xs)"
  by (induction xs) auto

lemma fleet_call_keeps:
  assumes "fleet_valid w"
  shows "fleet_valid (snd (fleet_call c req w)) \<and> fleet_table (snd (fleet_call c req w)) = fleet_table w"
proof (cases rule: fleet_call_cases [OF assms, of c req, case_names failed served])
  case (failed e)
  then show ?thesis using assms by (simp add: fleet_valid_def fleet_table_def fun_eq_iff)
next
  case (served n r n' b')
  have co: "coherent (\<lambda>es. es) mem_contents m b' \<longleftrightarrow> coherent (\<lambda>es. es) mem_contents m (bucket w)" for m
    using served(6) by (simp add: coherent_def)
  have "fleet_valid (snd (fleet_call c req w))"
    using assms served(3-5) set_update_insert [of c n' "nodes w"]
    by (fastforce simp: fleet_valid_def list_all_iff co)
  moreover have "fleet_table (snd (fleet_call c req w)) = fleet_table w"
    using served(3,6) by (simp add: fleet_table_def fun_eq_iff)
  ultimately show ?thesis ..
qed

lemma fleet_answer:
  assumes "fleet_valid w" and "fleet_call c req w = (Inr resp, w')"
  shows "GetKeys req \<noteq> [] \<and> distinct (map fst (Found resp)) \<and>
    (\<forall>rs k v. fleet_table w (GetObjectPath req) = Some rs \<longrightarrow>
       (map_of (Found resp) k = Some v \<longleftrightarrow> k \<in> set (GetKeys req) \<and> entry rs k = Some (Some v)) \<and>
       (k \<in> set (Deleted resp) \<longleftrightarrow> k \<in> set (GetKeys req) \<and> entry rs k = Some None))"
proof (cases rule: fleet_call_cases [OF assms(1), of c req, case_names failed served])
  case (failed e)
  then show ?thesis using assms(2) by simp
next
  case (served n r n' b')
  then have "r = Inr resp" using assms(2) by simp
  from served(7) [OF this] obtain data where d: "GetObjectPath req \<noteq> []" "GetKeys req \<noteq> []"
    "mem_contents (bucket w) (GetObjectPath req) = Some data"
    "lookup_object (GetKeys req) data = Inr resp" by blast
  have t: "fleet_table w (GetObjectPath req) = table_of data" using d by (simp add: fleet_table_def)
  show ?thesis
    using d(2) lookup_object_distinct [OF d(4)] lookup_object_entry [OF _ d(4)] unfolding t by blast
qed

interpretation fleet: cache_service fleet_call fleet_table fleet_valid
proof
  fix w w' c req resp rs k v r
  assume w: "fleet_valid w"
  show "fleet_call c req w = (Inr resp, w') \<Longrightarrow> fleet_table w (GetObjectPath req) = Some rs \<Longrightarrow>
      (map_of (Found resp) k = Some v) = (k \<in> set (GetKeys req) \<and> entry rs k = Some (Some v))"
    using fleet_answer [OF w] by blast
  show "fleet_call c req w = (Inr resp, w') \<Longrightarrow> fleet_table w (GetObjectPath req) = Some rs \<Longrightarrow>
      (k \<in> set (Deleted resp)) = (k \<in> set (GetKeys req) \<and> entry rs k = Some None)"
    using fleet_answer [OF w] by blast
  show "fleet_call c req w = (Inr resp, w') \<Longrightarrow> distinct (map fst (Found resp))"
    using fleet_answer [OF w] by blast
  show "GetKeys req = [] \<Longrightarrow> fleet_call c req w = (r, w') \<Longrightarrow> \<exists>e. r = Inl e"
    using fleet_answer [OF w] by (cases r) auto
  show "fleet_valid (snd (fleet_call c req w)) \<and> fleet_table (snd (fleet_call c req w)) = fleet_table w"
    using w by (rule fleet_call_keeps)
qed

lemma mem_fetch_calm:
  "script b = [] \<Longrightarrow> mem_contents b p = Some data \<Longrightarrow>
   mem_fetch p b = (Inr (Inr data), b\<lparr>script := []\<rparr>)"
  by (simp add: mem_fetch_def mem_contents_def)

lemma mem_fetch_script: "script b = [] \<Longrightarrow> script (snd (mem_fetch p b)) = []"
  by (auto simp: mem_fetch_def Let_def)

lemma CacheGet_script:
  "CacheGet L mem_fetch req (n, b) = Some (r, n', b') \<Longrightarrow> script b = [] \<Longrightarrow> script b' = []"
  using mem_fetch_script [of b "GetObjectPath req"]
  by (auto simp: CacheGet_def getObjectData_def split: if_splits option.splits sum.splits prod.splits)

lemma CacheGet_calm:
  assumes ok: "cache_ok (\<lambda>es. es) n" and coh: "coherent (\<lambda>es. es) mem_contents n b"
    and calm: "script b = []" and req: "GetObjectPath req \<noteq> []" "GetKeys req \<noteq> []"
    and data: "mem_contents b (GetObjectPath req) = Some data" "table_of data = Some rs"
  shows "\<exists>resp n' b'. CacheGet (list_lru max_items) mem_fetch req (n, b) = Some (Inr resp, n', b')"
proof -
  from lru_cache.getObjectData_ok [OF list_lru.lru_cache_axioms mem.object_store_axioms ok coh,
      of max_items "GetObjectPath req"]
  obtain r n' b' where g: "getObjectData (list_lru max_items) mem_fetch (GetObjectPath req) (n, b) =
      Some (r, n', b')" "\<forall>d. r = Inr d \<longrightarrow> mem_contents b (GetObjectPath req) = Some d" by blast
  have "r \<noteq> Inl e" for e
    using g(1) mem_fetch_calm [OF calm data(1)]
    by (auto simp: getObjectData_def split: option.splits prod.splits)
  then have "r = Inr data" using g(2) data(1) by (cases r) auto
  moreover have "lookup_object (GetKeys req) data =
      Inr (collected (GetKeys req) \<lparr>Found = [], Deleted = []\<rparr> rs)"
    using table_of_SomeD [OF data(2)] by (simp add: lookup_object_collect)
  ultimately show ?thesis using g(1) req by (simp add: CacheGet_def)
qed

interpretation fleet: answering_cache_service fleet_call fleet_table fleet_valid fleet_serving
proof
  fix w c c' and req :: GetRequest
  show "\<exists>resp w'. fleet_call c req w = (Inr resp, w')"
    if w: "fleet_valid w" and up: "fleet_serving w c" and keys: "GetKeys req \<noteq> []"
      and t: "fleet_table w (GetObjectPath req) \<noteq> None"
  proof -
    obtain n where n: "map_of (nodes w) c = Some n"
      using up by (auto simp: fleet_serving_def dest: weak_map_of_SomeI)
    obtain data rs where d: "GetObjectPath req \<noteq> []"
      "mem_contents (bucket w) (GetObjectPath req) = Some data" "table_of data = Some rs"
      using t by (auto simp: fleet_table_def bind_eq_Some_conv split: if_splits)
    obtain resp n' b' where
      "CacheGet (list_lru max_items) mem_fetch req (n, bucket w) = Some (Inr resp, n', b')"
      using CacheGet_calm [OF _ _ _ d(1) keys d(2,3), of n] fleet_node [OF w n] up
      by (auto simp: fleet_serving_def)
    then show ?thesis using n up by (simp add: fleet_call_def fleet_serving_def)
  qed
  show "fleet_serving w c' \<Longrightarrow> fleet_serving (snd (fleet_call c req w)) c'"
    by (auto simp: fleet_serving_def fleet_call_def Let_def dom_update
        split: option.splits prod.splits dest: CacheGet_script)
qed

section \<open>Properties\<close>

text \<open>C10. \<^verbatim>\<open>BatchGet\<close> returns the newest value: when it succeeds, each requested key has the value of
  its first entry in the logs and then the shared runs, newest first (none if that entry is a
  tombstone), and if none of them has an entry, the value its partition's runs hold, whichever
  service answered and whatever is cached. Keys that were not requested are not returned.\<close>

theorem batch_get_returns_newest:
  assumes "cache_service call tbl valid" and "valid w"
    and "wals h = Some ws" and "sharedRuns h = Some rs" and "parts h = Some ps"
    and "sources_stored tbl w ws rs ps" and "sorted (map InclusiveStartKey ps)"
    and "BatchGet sum64 call h keys w = (Inr resp, w')"
  shows "map_of resp k = (if k \<in> set keys then index_view tbl w ws rs ps k else None)"
  using BatchGet_ok [OF assms] by blast

text \<open>C25. Although every cache service answers and every object is there, \<^verbatim>\<open>BatchGet\<close> fails in exactly
  one situation: the logs do not resolve all keys, but the shared runs do before the last of them
  is asked. The loop over the shared runs then asks for an empty set of keys, which the cache
  service refuses.\<close>

theorem batch_get_fails_iff:
  assumes "answering_cache_service call tbl valid serving" and "valid w"
    and "ring_serving serving h w"
    and "wals h = Some ws" and "sharedRuns h = Some rs" and "parts h = Some ps"
    and "sources_stored tbl w ws rs ps" and "sorted (map InclusiveStartKey ps)"
    and "\<forall>k \<in> set keys. owner ps k \<noteq> None"
    and "BatchGet hash call h keys w = (r, w')"
  shows "(\<exists>e. r = Inl e) \<longleftrightarrow>
    (\<exists>k \<in> set keys. newest (tables tbl w (wal_paths ws)) k = None) \<and>
    (\<exists>n < length rs. \<forall>k \<in> set keys.
       newest (tables tbl w (wal_paths ws @ take n (shared_paths rs))) k \<noteq> None)"
  using assms by (rule BatchGet_fails_iff)

text \<open>C24. Whatever pod events arrive, the ring has no member twice and its members are exactly the
  services with a client; so a lookup finds clients whenever there is a cache service at all, and
  they are two different ones when there are at least two services.\<close>

theorem ring_follows_pods:
  assumes "h = watchCacheServices events (newIndexHandler cfg)"
    and "members (ring h) \<noteq> []" and "length (members (ring h)) < 2 ^ 64"
  shows "distinct (members (ring h)) \<and> set (members (ring h)) = fst ` set (cacheClients h) \<and>
    (\<exists>clients. getClients sum64 path h = Inr clients \<and> distinct clients \<and>
       length clients = min 2 (length (members (ring h))) \<and>
       set clients \<subseteq> (\<lambda>m. ''http://'' @ m) ` set (members (ring h)))"
proof -
  let ?ms = "members (ring h)"
  have ok: "ring_ok h" using ring_ok_watch [OF ring_ok_new] assms(1) by simp
  then have d: "distinct ?ms" "set ?ms = fst ` set (cacheClients h)" by (simp_all add: ring_ok_def)
  obtain i j where ij: "i < length ?ms" "j = (i + 1) mod length ?ms"
    "getClients sum64 path h = Inr (map ((@) ''http://'') (if j \<noteq> i then [?ms ! i, ?ms ! j] else [?ms ! i]))"
    using getClients_ok [OF ok assms(2,3)] by blast
  have "j < length ?ms" unfolding ij(2) using assms(2) by (intro mod_less_divisor) simp
  moreover have "j = i \<longleftrightarrow> length ?ms = 1"
    using ij(1,2) by (cases "i + 1 = length ?ms") auto
  moreover have "i \<noteq> j \<longrightarrow> ?ms ! i \<noteq> ?ms ! j" using d(1) ij(1) calculation(1) by (simp add: nth_eq_iff_index_eq)
  moreover have "?ms ! i \<in> set ?ms" "?ms ! j \<in> set ?ms" using ij(1) calculation(1) by simp_all
  ultimately show ?thesis using d ij(1,3) by (cases "j = i") (auto simp: min_def)
qed

text \<open>A refresh shows the database: after the watcher's callback the handler's logs (and shared
  runs) are the rows of the table, newest first, whatever sort the library uses.\<close>

lemma refresh_newest_first:
  assumes "slice_sort srtW" and "slice_sort srtR" and "db_ok d"
  shows "wals (snd (updateWALs srtW (Inr (GetWriteAheadLogs d)) h)) =
      Some (rev (sort_key SeqNo (write_ahead_logs d))) \<and>
    sharedRuns (snd (updateSharedRuns srtR (Inr (GetSharedRuns d)) h)) =
      Some (rev (sort_key RunSeqNo (shared_runs d)))"
  using slice_sort.srt_distinct_keys_desc [OF assms(1), of SeqNo "write_ahead_logs d"]
    slice_sort.srt_distinct_keys_desc [OF assms(2), of RunSeqNo "shared_runs d"] assms(3)
  by (simp add: updateWALs_def updateSharedRuns_def GetWriteAheadLogs_def GetSharedRuns_def db_ok_def)

section \<open>An index and a cache service\<close>

definition old_record :: "Record list" where
  "old_record = [\<lparr>Key = ''k'', Value = [9], Tombstone = False\<rparr>]"

definition deleted_record :: "Record list" where
  "deleted_record = [\<lparr>Key = ''k'', Value = [], Tombstone = True\<rparr>]"

lemma tiny_tables [simp]:
  "table_of (WriteRecords one_record) = Some one_record"
  "table_of (WriteRecords old_record) = Some old_record"
  "table_of (WriteRecords deleted_record) = Some deleted_record"
  by (subst table_of_WriteRecords; simp add: one_record_def old_record_def deleted_record_def
      stored_def WriteRecords_concat length_write_record key_len_def value_len_def tombstoneBit_def
      currentVersion_def put_uvarint_length [symmetric] put_uvarint.simps)+

definition demo_fleet :: fleet where
  "demo_fleet =
     \<lparr>nodes = [(''http://a:5002'', small_cache)],
      bucket = \<lparr>script = [], objects =
        [(''wal/1'', WriteRecords one_record), (''runs/1'', WriteRecords old_record),
         (''runs/2'', WriteRecords deleted_record)]\<rparr>,
      network = []\<rparr>"

definition demo_row :: WriteAheadLog where
  "demo_row = \<lparr>SeqNo = 1, State = ''NEW'',
     Attrs = \<lparr>Path = ''wal/1'', CreatedAt = 0, SizeBytes = 5, MinKey = ''k'', MaxKey = ''k''\<rparr>\<rparr>"

definition demo_run_row :: "int \<Rightarrow> string \<Rightarrow> SharedRun" where
  "demo_run_row n p = \<lparr>RunSeqNo = n, RunRowAttrs = \<lparr>RunPath = p\<rparr>\<rparr>"

definition demo_parts :: "string list \<Rightarrow> Partition list" where
  "demo_parts ps = [\<lparr>InclusiveStartKey = [],
     PartitionRowAttrs = \<lparr>Runs = map (\<lambda>p. \<lparr>RunPath = p\<rparr>) ps\<rparr>\<rparr>]"

definition demo_config_index :: IndexConfig where
  "demo_config_index = \<lparr>IndexEnabled = True, Namespace = ''default'', Instance = ''default'', CachePort = 5002\<rparr>"

definition demo_index ::
  "WriteAheadLog list \<Rightarrow> SharedRun list \<Rightarrow> Partition list \<Rightarrow> index_handler"
where
  "demo_index ws rs ps =
     \<lparr>config = demo_config_index, ring = \<lparr>members = [''a:5002'']\<rparr>,
      cacheClients = [(''a:5002'', ''http://a:5002'')],
      wals = Some ws, sharedRuns = Some rs, parts = Some ps\<rparr>"

lemma demo_index_simps [simp]:
  "wals (demo_index ws rs ps) = Some ws" "sharedRuns (demo_index ws rs ps) = Some rs"
  "parts (demo_index ws rs ps) = Some ps" "sorted (map InclusiveStartKey (demo_parts qs))"
  "owner (demo_parts qs) k = Some (hd (demo_parts qs))" "run_paths (hd (demo_parts qs)) = qs"
  "wal_paths [demo_row] = [''wal/1'']" "wal_paths [] = []"
  "shared_paths [] = []" "shared_paths (demo_run_row n p # rs) = p # shared_paths rs"
  by (simp_all add: demo_index_def demo_parts_def owner_def run_paths_def comp_def wal_paths_def
      shared_paths_def demo_row_def demo_run_row_def)

lemma demo_fleet_table [simp]:
  "fleet_table demo_fleet ''wal/1'' = Some one_record"
  "fleet_table demo_fleet ''runs/1'' = Some old_record"
  "fleet_table demo_fleet ''runs/2'' = Some deleted_record"
  by (simp_all add: fleet_table_def demo_fleet_def mem_contents_def)

lemma demo_fleet_valid: "fleet_valid demo_fleet"
  by (simp add: fleet_valid_def demo_fleet_def small_cache(2) cache_ok_def cached_def coherent_def)

lemma demo_serving: "ring_serving fleet_serving (demo_index ws rs ps) demo_fleet"
  by (simp add: ring_serving_def ring_ok_def demo_index_def fleet_serving_def demo_fleet_def)

lemma demo_stored:
  assumes "set (wal_paths ws @ shared_paths rs @ qs) \<subseteq> {''wal/1'', ''runs/1'', ''runs/2''}"
  shows "sources_stored fleet_table demo_fleet ws rs (demo_parts qs)"
proof -
  have "\<forall>p \<in> {''wal/1'', ''runs/1'', ''runs/2''}. fleet_table demo_fleet p \<noteq> None" by simp
  then have "\<forall>p \<in> set (wal_paths ws @ shared_paths rs @ qs). fleet_table demo_fleet p \<noteq> None"
    using assms by blast
  then have "all_tables fleet_table demo_fleet (wal_paths ws)"
    "all_tables fleet_table demo_fleet (shared_paths rs)" "all_tables fleet_table demo_fleet qs"
    unfolding all_tables_def list_all_iff by simp_all
  then show ?thesis by (simp add: sources_stored_def demo_parts_def run_paths_def comp_def)
qed

definition demo_BatchGet ::
  "WriteAheadLog list \<Rightarrow> SharedRun list \<Rightarrow> string list \<Rightarrow> (string \<times> bytes) list result \<times> fleet"
where
  "demo_BatchGet ws rs qs =
     BatchGet (\<lambda>_. 0) fleet_call (demo_index ws rs (demo_parts qs)) [''k''] demo_fleet"

lemma demo_BatchGet_fails_iff:
  assumes "set (wal_paths ws @ shared_paths rs @ qs) \<subseteq> {''wal/1'', ''runs/1'', ''runs/2''}"
  shows "(\<exists>e. fst (demo_BatchGet ws rs qs) = Inl e) \<longleftrightarrow>
    newest (tables fleet_table demo_fleet (wal_paths ws)) ''k'' = None \<and>
    (\<exists>n < length rs. newest (tables fleet_table demo_fleet (wal_paths ws @ take n (shared_paths rs)))
       ''k'' \<noteq> None)"
  using BatchGet_fails_iff [where keys = "[''k'']" and r = "fst (demo_BatchGet ws rs qs)" and
        w' = "snd (demo_BatchGet ws rs qs)" and hash = "\<lambda>_. 0",
      OF fleet.answering_cache_service_axioms demo_fleet_valid demo_serving
      demo_index_simps(1-3) demo_stored [OF assms] demo_index_simps(4)]
  by (simp add: demo_BatchGet_def)

lemma demo_BatchGet_value:
  assumes "set (wal_paths ws @ shared_paths rs @ qs) \<subseteq> {''wal/1'', ''runs/1'', ''runs/2''}"
    and "fst (demo_BatchGet ws rs qs) = Inr resp"
  shows "map_of resp ''k'' = index_view fleet_table demo_fleet ws rs (demo_parts qs) ''k''"
proof -
  have "BatchGet (\<lambda>_. 0) fleet_call (demo_index ws rs (demo_parts qs)) [''k''] demo_fleet =
      (Inr resp, snd (demo_BatchGet ws rs qs))"
    using assms(2) by (simp add: demo_BatchGet_def prod_eq_iff)
  from BatchGet_ok [OF fleet.cache_service_axioms demo_fleet_valid demo_index_simps(1-3)
      demo_stored [OF assms(1)] demo_index_simps(4) this]
  show ?thesis by simp
qed

theorem batch_get_returns_newest_witness:
  "\<exists>resp w'. BatchGet (\<lambda>_. 0) fleet_call (demo_index [demo_row] [] (demo_parts [])) [''k'']
     demo_fleet = (Inr resp, w') \<and> map_of resp ''k'' = Some [1]"
proof -
  have "\<not> (\<exists>e. fst (demo_BatchGet [demo_row] [] []) = Inl e)"
    by (subst demo_BatchGet_fails_iff) simp_all
  then obtain resp where "fst (demo_BatchGet [demo_row] [] []) = Inr resp"
    by (cases "fst (demo_BatchGet [demo_row] [] [])") auto
  then obtain w' where r: "BatchGet (\<lambda>_. 0) fleet_call (demo_index [demo_row] [] (demo_parts []))
      [''k''] demo_fleet = (Inr resp, w')"
    by (cases "demo_BatchGet [demo_row] [] []") (auto simp: demo_BatchGet_def)
  have "sources_stored fleet_table demo_fleet [demo_row] [] (demo_parts [])"
    by (rule demo_stored) simp
  from batch_get_returns_newest [OF fleet.cache_service_axioms demo_fleet_valid demo_index_simps(1-3)
      this demo_index_simps(4) r, of "''k''"]
  have "map_of resp ''k'' = Some [1]" by (simp add: index_view_def one_record_def)
  with r show ?thesis by blast
qed

theorem batch_get_fails_iff_witness:
  "\<exists>e. fst (BatchGet (\<lambda>_. 0) fleet_call
     (demo_index [] [demo_run_row 2 ''runs/1'', demo_run_row 1 ''runs/2''] (demo_parts []))
     [''k''] demo_fleet) = Inl e"
proof -
  let ?rs = "[demo_run_row 2 ''runs/1'', demo_run_row 1 ''runs/2'']"
  have "sources_stored fleet_table demo_fleet [] ?rs (demo_parts [])"
    by (rule demo_stored) simp
  from batch_get_fails_iff [where keys = "[''k'']" and hash = "\<lambda>_. 0" and
        r = "fst (demo_BatchGet [] ?rs [])" and w' = "snd (demo_BatchGet [] ?rs [])",
      OF fleet.answering_cache_service_axioms demo_fleet_valid demo_serving
      demo_index_simps(1-3) this demo_index_simps(4)]
  show ?thesis by (auto simp: demo_BatchGet_def old_record_def intro!: exI [of _ 1])
qed

theorem ring_follows_pods_witness:
  "members (ring (watchCacheServices [PodEvent Added \<lparr>PodIP = ''a'', Phase = ''Running''\<rparr>]
     (newIndexHandler demo_config_index))) = [''a:5002''] \<and>
   (\<exists>clients. getClients (\<lambda>_. 0) ''wal/1''
      (watchCacheServices [PodEvent Added \<lparr>PodIP = ''a'', Phase = ''Running''\<rparr>]
        (newIndexHandler demo_config_index)) = Inr clients \<and> length clients = 1)"
proof -
  let ?h = "watchCacheServices [PodEvent Added \<lparr>PodIP = ''a'', Phase = ''Running''\<rparr>]
     (newIndexHandler demo_config_index)"
  have m: "members (ring ?h) = [''a:5002'']"
    by (simp add: handle_pod_def pod_endpoint_def newIndexHandler_def demo_config_index_def
        newConsistentRing_def addCacheServiceLocked_def ring_add_def show_int_def show_nat.simps
        char_of_def Let_def bit_0)
  then have "members (ring ?h) \<noteq> []" "length (members (ring ?h)) < 2 ^ 64" by simp_all
  from ring_follows_pods [OF refl this, of "\<lambda>_. 0" "''wal/1''"] m show ?thesis by auto
qed

text \<open>A tombstone in a partition's run hides nothing: with the newest run of the partition saying
  that the key is deleted and an older one holding a value, \<^verbatim>\<open>BatchGet\<close> returns the value, in
  whichever order the partition lists the runs.\<close>

lemma partition_tombstone_ignored:
  "(\<exists>resp. fst (demo_BatchGet [] [] [''runs/2'', ''runs/1'']) = Inr resp \<and>
     map_of resp ''k'' = Some [9]) \<and>
   (\<exists>resp. fst (demo_BatchGet [] [] [''runs/1'', ''runs/2'']) = Inr resp \<and>
     map_of resp ''k'' = Some [9])"
proof -
  have "\<exists>resp. fst (demo_BatchGet [] [] qs) = Inr resp \<and> map_of resp ''k'' = Some [9]"
    if qs: "qs = [''runs/2'', ''runs/1''] \<or> qs = [''runs/1'', ''runs/2'']" for qs
  proof -
    have sub: "set (wal_paths [] @ shared_paths [] @ qs) \<subseteq> {''wal/1'', ''runs/1'', ''runs/2''}"
      using qs by auto
    then obtain resp where r: "fst (demo_BatchGet [] [] qs) = Inr resp"
      using demo_BatchGet_fails_iff [OF sub] by (cases "fst (demo_BatchGet [] [] qs)") auto
    moreover have "index_view fleet_table demo_fleet [] [] (demo_parts qs) ''k'' = Some [9]"
      using qs by (auto simp: index_view_def old_record_def deleted_record_def)
    ultimately show ?thesis using demo_BatchGet_value [OF sub r] by simp
  qed
  then show ?thesis by blast
qed

end
