(* ===== verification/Compaction.thy ===== *)
theory Compaction
  imports Batcher Index
begin

text \<open>
  \<^verbatim>\<open>internal/background/compact_wals.go\<close>: the job that merges logs into a shared run. The sorts,
  the object store and the job queue (River, a third-party package) are parameters; what the code
  relies on of the queue is the locale \<open>job_queue\<close>: a job inserted in a transaction is pending
  once the transaction is committed, a completed one no longer is. The faults of the transaction's
  calls are an argument; a transaction takes effect as a whole or not at all, and a commit that
  reports an error may have taken effect.

  The lemmas: the object written is the strictly sorted table with the newest entry of every key
  of the logs; the transaction's effect; and that the merge of the oldest logs into the newest
  run changes no key's value.
\<close>

section \<open>The job queue\<close>

type_synonym job_id = nat

locale job_queue =
  fixes insert_tx :: "WriteAheadLog list \<Rightarrow> 'q \<Rightarrow> 'q result"
    and complete_tx :: "job_id \<Rightarrow> 'q \<Rightarrow> 'q result"
    and pending :: "'q \<Rightarrow> (job_id \<times> WriteAheadLog list) list"
  assumes insert_pending: "insert_tx ws q = Inr q' \<Longrightarrow>
      \<exists>i. i \<notin> fst ` set (pending q) \<and> pending q' = pending q @ [(i, ws)]"
    and complete_pending: "complete_tx i q = Inr q' \<Longrightarrow>
      pending q' = filter (\<lambda>j. fst j \<noteq> i) (pending q)"

text \<open>An instance: a list of jobs, numbered from a counter.\<close>

record queue =
  queued :: "(job_id \<times> WriteAheadLog list) list"
  next_id :: nat

definition queue_pending :: "queue \<Rightarrow> (job_id \<times> WriteAheadLog list) list" where
  "queue_pending q = filter (\<lambda>j. fst j < next_id q) (queued q)"

definition queue_insert :: "WriteAheadLog list \<Rightarrow> queue \<Rightarrow> queue result" where
  "queue_insert ws q =
     Inr \<lparr>queued = queue_pending q @ [(next_id q, ws)], next_id = next_id q + 1\<rparr>"

definition queue_complete :: "job_id \<Rightarrow> queue \<Rightarrow> queue result" where
  "queue_complete i q =
     (if i \<in> fst ` set (queue_pending q)
      then Inr (q\<lparr>queued := filter (\<lambda>j. fst j \<noteq> i) (queued q)\<rparr>)
      else Inl (ErrText ''not found''))"

lemma queue_pending_insert:
  "queue_insert ws q = Inr q' \<Longrightarrow> queue_pending q' = queue_pending q @ [(next_id q, ws)]"
proof -
  assume "queue_insert ws q = Inr q'"
  moreover have "filter (\<lambda>j. fst j < Suc (next_id q)) (queue_pending q) = queue_pending q"
    by (simp add: queue_pending_def) (rule filter_cong, auto)
  ultimately show ?thesis by (auto simp: queue_insert_def queue_pending_def)
qed

interpretation river: job_queue queue_insert queue_complete queue_pending
proof
  fix ws i and q q' :: queue
  show "queue_insert ws q = Inr q' \<Longrightarrow>
      \<exists>i. i \<notin> fst ` set (queue_pending q) \<and> queue_pending q' = queue_pending q @ [(i, ws)]"
    using queue_pending_insert by (intro exI [of _ "next_id q"]) (auto simp: queue_pending_def)
  show "queue_complete i q = Inr q' \<Longrightarrow>
      queue_pending q' = filter (\<lambda>j. fst j \<noteq> i) (queue_pending q)"
    by (auto simp: queue_complete_def queue_pending_def conj_commute split: if_splits)
qed

section \<open>The worker\<close>

record CompactWALsArgs =
  WALs :: "WriteAheadLog list"

record job =
  JobID :: job_id
  Args :: CompactWALsArgs

fun read_objects ::
  "'b fetch_fun \<Rightarrow> WriteAheadLog list \<Rightarrow> bytes list \<Rightarrow> 'b \<Rightarrow> bytes list result \<times> 'b"
where
  "read_objects fetch [] objs b = (Inr objs, b)"
| "read_objects fetch (wal # ws) objs b =
     (case fetch (Path (Attrs wal)) b of
        (Inl e, b) \<Rightarrow> (Inl (ErrWrap ''getting object'' e), b)
      | (Inr content, b) \<Rightarrow>
          if SizeBytes (Attrs wal) < 0 then (Inl (ErrPanic ''bytes.Buffer.Grow: negative count''), b)
          else
            (case content of
               Inl e \<Rightarrow> (Inl (ErrWrap ''copying object'' e), b)
             | Inr obj \<Rightarrow> read_objects fetch ws (objs @ [obj]) b))"

definition keep_first :: "(string \<times> Record) list \<Rightarrow> Record \<Rightarrow> (string \<times> Record) list \<times> bool" where
  "keep_first merged r =
     (if map_of merged (Key r) \<noteq> None then (merged, True)
      else (AList.update (Key r) r merged, True))"

fun merge_objects :: "bytes list \<Rightarrow> (string \<times> Record) list \<Rightarrow> (string \<times> Record) list \<times> iter_end" where
  "merge_objects [] merged = (merged, Returned)"
| "merge_objects (obj # objs) merged =
     (case Records obj keep_first merged of
        (merged, Returned) \<Rightarrow> merge_objects objs merged
      | (merged, Panicked) \<Rightarrow> (merged, Panicked))"

definition run_path :: "string \<Rightarrow> string" where
  "run_path uuid = ''runs/'' @ uuid @ ''.sstable''"

fun is_no_rows :: "go_error \<Rightarrow> bool" where
  "is_no_rows ErrNoRows = True"
| "is_no_rows (ErrWrap _ e) = is_no_rows e"
| "is_no_rows (ErrRPC _ e) = is_no_rows e"
| "is_no_rows _ = False"

record tx_faults =
  begin_fault :: "go_error option"
  run_fault :: "go_error option"  \<comment> \<open>of \<^verbatim>\<open>AddSharedRun\<close>\<close>
  logs_fault :: "go_error option"  \<comment> \<open>of the statement on the logs\<close>
  commit_fault :: "(go_error \<times> bool) option"  \<comment> \<open>with whether the commit took effect\<close>

definition no_faults :: tx_faults where
  "no_faults = \<lparr>begin_fault = None, run_fault = None, logs_fault = None, commit_fault = None\<rparr>"

definition commit :: "tx_faults \<Rightarrow> 's \<Rightarrow> 's \<Rightarrow> go_error option \<times> 's" where
  "commit faults new old =
     (case commit_fault faults of
        None \<Rightarrow> (None, new)
      | Some (e, applied) \<Rightarrow> (Some e, if applied then new else old))"

definition compaction_tx ::
  "(job_id \<Rightarrow> 'q \<Rightarrow> 'q result) \<Rightarrow> tx_faults \<Rightarrow> job_id \<Rightarrow> string \<Rightarrow> int list \<Rightarrow> DB \<times> 'q \<Rightarrow>
   go_error option \<times> (DB \<times> 'q)"
where
  "compaction_tx complete_tx faults i objPath seqNos s =
     (let (d, q) = s in
      case begin_fault faults of
        Some e \<Rightarrow> (Some e, s)
      | None \<Rightarrow>
          (case run_fault faults of
             Some e \<Rightarrow> (Some (ErrWrap ''adding shared run'' e), s)
           | None \<Rightarrow>
               (let d1 = AddSharedRun \<lparr>RunPath = objPath\<rparr> d in
                case logs_fault faults of
                  Some e \<Rightarrow>
                    if is_no_rows e then (None, s)
                    else (Some (ErrWrap ''deleting batch record'' e), s)
                | None \<Rightarrow>
                    (let (_, d2) = DeleteWriteAheadLogs seqNos d1 in
                     case complete_tx i q of
                       Inl e \<Rightarrow> (Some (ErrWrap ''completing job'' e), s)
                     | Inr q2 \<Rightarrow> commit faults (d2, q2) s))))"

definition merged_records ::
  "Record sorter \<Rightarrow> (string \<times> Record) list \<Rightarrow> Record list"
where
  "merged_records srtR merged = srtR key_less (map snd merged)"

text \<open>Up to the upload, and the transaction: other steps run in between.\<close>

definition compact_objects ::
  "WriteAheadLog sorter \<Rightarrow> Record sorter \<Rightarrow> 'b fetch_fun \<Rightarrow> 'b upload_fun \<Rightarrow> string \<Rightarrow> job \<Rightarrow> 'b \<Rightarrow>
   go_error option \<times> 'b"
where
  "compact_objects srtW srtR fetch upload uuid j b =
     (case read_objects fetch (srtW (\<lambda>a b. SeqNo a > SeqNo b) (WALs (Args j))) [] b of
        (Inl e, b) \<Rightarrow> (Some e, b)
      | (Inr objs, b) \<Rightarrow>
          (case merge_objects objs [] of
             (_, Panicked) \<Rightarrow> (Some (ErrPanic ''slice bounds out of range''), b)
           | (merged, Returned) \<Rightarrow>
               (case upload (run_path uuid) (WriteRecords (merged_records srtR merged)) b of
                  (Some e, b) \<Rightarrow> (Some (ErrWrap ''writing batch to storage'' e), b)
                | (None, b) \<Rightarrow> (None, b))))"

definition Work ::
  "WriteAheadLog sorter \<Rightarrow> Record sorter \<Rightarrow> 'b fetch_fun \<Rightarrow> 'b upload_fun \<Rightarrow>
   (job_id \<Rightarrow> 'q \<Rightarrow> 'q result) \<Rightarrow> tx_faults \<Rightarrow> string \<Rightarrow> job \<Rightarrow> 'b \<times> DB \<times> 'q \<Rightarrow>
   go_error option \<times> ('b \<times> DB \<times> 'q)"
where
  "Work srtW srtR fetch upload complete_tx faults uuid j s =
     (let (b, s) = s in
      case compact_objects srtW srtR fetch upload uuid j b of
        (Some e, b) \<Rightarrow> (Some e, (b, s))
      | (None, b) \<Rightarrow>
          (case compaction_tx complete_tx faults (JobID j) (run_path uuid)
                  (map SeqNo (srtW (\<lambda>a b. SeqNo a > SeqNo b) (WALs (Args j)))) s of
             (r, s) \<Rightarrow> (r, (b, s))))"

section \<open>What the merge computes\<close>

definition keyed :: "(string \<times> Record) list \<Rightarrow> bool" where
  "keyed merged \<longleftrightarrow> distinct (map fst merged) \<and> list_all (\<lambda>(k, r). k = Key r) merged"

lemma keyed_keys: "keyed merged \<Longrightarrow> map Key (map snd merged) = map fst merged"
  by (induction merged) (auto simp: keyed_def)

lemma keyed_absent: "keyed merged \<Longrightarrow> map_of merged k = None \<longleftrightarrow> entry (map snd merged) k = None"
proof -
  assume "keyed merged"
  then have "Key ` set (map snd merged) = fst ` set merged"
    using keyed_keys by (metis list.set_map)
  then show ?thesis by (simp add: map_of_eq_None_iff entry_None_iff)
qed

definition kept :: "(string \<times> Record) list \<Rightarrow> Record list \<Rightarrow> (string \<times> Record) list" where
  "kept merged rs = foldl (\<lambda>m r. fst (keep_first m r)) merged rs"

lemma Records_keep_first: "Records data keep_first merged = (kept merged (fst (collect data)), snd (collect data))"
proof -
  have "keep_first = (\<lambda>m r. (fst (keep_first m r), True))"
    by (auto simp: fun_eq_iff keep_first_def)
  then show ?thesis
    using Records_fold [of data "\<lambda>m r. fst (keep_first m r)"] by (metis kept_def)
qed

lemma entry_append: "entry (xs @ ys) k = (case entry xs k of None \<Rightarrow> entry ys k | Some x \<Rightarrow> Some x)"
  by (induction xs) auto

lemma kept_entry:
  "keyed merged \<Longrightarrow> keyed (kept merged rs) \<and>
   entry (map snd (kept merged rs)) k =
     (case entry (map snd merged) k of None \<Rightarrow> entry rs k | Some x \<Rightarrow> Some x)"
proof (induction rs arbitrary: merged)
  case Nil
  then show ?case by (simp add: kept_def split: option.split)
next
  case (Cons r rs)
  let ?m = "fst (keep_first merged r)"
  have step: "kept merged (r # rs) = kept ?m rs" by (simp add: kept_def)
  show ?case
  proof (cases "map_of merged (Key r)")
    case None
    then have "Key r \<notin> fst ` set merged" by (simp add: map_of_eq_None_iff)
    then have m: "?m = merged @ [(Key r, r)]" "keyed ?m"
      using None Cons.prems by (auto simp: keep_first_def update_absent keyed_def)
    then show ?thesis
      using Cons.IH [OF m(2)] None keyed_absent [OF Cons.prems, of "Key r"]
      by (auto simp: step entry_append split: option.splits)
  next
    case (Some r')
    then have m: "?m = merged" by (simp add: keep_first_def)
    have "entry (map snd merged) (Key r) \<noteq> None"
      using keyed_absent [OF Cons.prems, of "Key r"] Some by simp
    then show ?thesis
      using Cons.IH [OF Cons.prems] by (auto simp: step m split: option.splits)
  qed
qed

lemma merge_objects_newest:
  assumes "list_all2 (\<lambda>obj t. table_of obj = Some t) objs ts"
  shows "keyed merged \<Longrightarrow> \<exists>m. merge_objects objs merged = (m, Returned) \<and> keyed m \<and>
    (\<forall>k. entry (map snd m) k =
      (case entry (map snd merged) k of None \<Rightarrow> newest ts k | Some x \<Rightarrow> Some x))"
  using assms
proof (induction objs ts arbitrary: merged rule: list_all2_induct)
  case Nil
  then show ?case by (simp split: option.split)
next
  case (Cons obj objs t ts)
  have c: "collect obj = (t, Returned)" using table_of_SomeD [OF Cons.hyps(1)] by simp
  let ?m = "kept merged t"
  have k: "keyed ?m" using kept_entry [OF Cons.prems] by blast
  from Cons.IH [OF k] obtain m where "merge_objects objs ?m = (m, Returned)" "keyed m"
    "\<forall>k. entry (map snd m) k = (case entry (map snd ?m) k of None \<Rightarrow> newest ts k | Some x \<Rightarrow> Some x)"
    by blast
  then show ?case
    using kept_entry [OF Cons.prems, of t] by (auto simp: Records_keep_first c split: option.splits)
qed

lemma entry_set:
  assumes "distinct (map Key xs)" and "distinct (map Key ys)" and "set xs = set ys"
  shows "entry xs k = entry ys k"
proof (cases "k \<in> Key ` set xs")
  case True
  then obtain r where "r \<in> set xs" "k = Key r" by blast
  then show ?thesis using entry_member assms by (metis (no_types, lifting))
next
  case False
  then have "entry xs k = None" "entry ys k = None" using assms(3) by (simp_all add: entry_None_iff)
  then show ?thesis by simp
qed

lemma merged_records_ok:
  assumes srt: "slice_sort srtR" and m: "keyed m"
  shows "sorted_wrt (<) (map Key (merged_records srtR m)) \<and>
    entry (merged_records srtR m) k = entry (map snd m) k"
proof -
  have d: "distinct (map Key (map snd m))" unfolding keyed_keys [OF m] using m by (simp add: keyed_def)
  have d': "distinct (map Key (merged_records srtR m))"
    unfolding merged_records_def using d slice_sort.distinct_map_srt [OF srt] by blast
  moreover have "sorted (map Key (merged_records srtR m))"
    unfolding merged_records_def key_less_eta by (rule slice_sort.sorted_map_srt [OF srt])
  moreover have "set (merged_records srtR m) = set (map snd m)"
    unfolding merged_records_def by (rule slice_sort.set_srt [OF srt])
  ultimately show ?thesis using entry_set [OF d' d] by (simp add: strict_sorted_iff)
qed

lemma read_objects_ok:
  assumes os: "object_store upload fetch contents"
  shows "read_objects fetch ws objs b = (Inr objs', b') \<Longrightarrow>
    contents b' = contents b \<and>
    (\<exists>xs. objs' = objs @ xs \<and> list_all2 (\<lambda>wal x. contents b (Path (Attrs wal)) = Some x) ws xs)"
proof (induction ws arbitrary: objs b)
  case (Cons wal ws)
  obtain r b1 where f: "fetch (Path (Attrs wal)) b = (r, b1)" by fastforce
  note fr = object_store.fetch_result [OF os f]
  from Cons.prems f obtain x where r: "r = Inr (Inr x)"
    and rest: "read_objects fetch ws (objs @ [x]) b1 = (Inr objs', b')"
    by (auto split: sum.splits if_splits)
  from Cons.IH [OF rest] fr r obtain xs where
    "contents b' = contents b" "objs' = objs @ x # xs"
    "list_all2 (\<lambda>wal x. contents b (Path (Attrs wal)) = Some x) ws xs" by auto
  with fr r show ?case by (intro conjI exI [of _ "x # xs"]) auto
qed simp

lemma read_objects_keeps:
  assumes os: "object_store upload fetch contents"
  shows "contents (snd (read_objects fetch ws objs b)) = contents b"
proof (induction ws arbitrary: objs b)
  case (Cons wal ws)
  obtain r b1 where f: "fetch (Path (Attrs wal)) b = (r, b1)" by fastforce
  have "contents b1 = contents b" using object_store.fetch_result [OF os f] by simp
  with Cons.IH f show ?case by (auto split: sum.split)
qed simp

text \<open>The table an object holds.\<close>

definition stored_table :: "('b \<Rightarrow> string \<Rightarrow> bytes option) \<Rightarrow> 'b \<Rightarrow> string \<Rightarrow> Record list option" where
  "stored_table contents b p = Option.bind (contents b p) table_of"

lemma compact_objects_ok:
  assumes os: "object_store upload fetch contents" and srtR: "slice_sort srtR"
    and ok: "compact_objects srtW srtR fetch upload uuid j b = (None, b')"
    and ws: "ws = srtW (\<lambda>a b. SeqNo a > SeqNo b) (WALs (Args j))"
    and all: "all_tables (stored_table contents) b (wal_paths ws)"
  shows "\<exists>recs. contents b' = (contents b)(run_path uuid \<mapsto> WriteRecords recs) \<and>
    sorted_wrt (<) (map Key recs) \<and>
    (\<forall>k. entry recs k = newest (tables (stored_table contents) b (wal_paths ws)) k)"
proof -
  from ok obtain objs b1 m where r: "read_objects fetch ws [] b = (Inr objs, b1)"
    and m: "merge_objects objs [] = (m, Returned)"
    and up: "upload (run_path uuid) (WriteRecords (merged_records srtR m)) b1 = (None, b')"
    by (auto simp: compact_objects_def ws split: prod.splits sum.splits iter_end.splits option.splits)
  from read_objects_ok [OF os r] have b1: "contents b1 = contents b"
    and objs: "list_all2 (\<lambda>wal x. contents b (Path (Attrs wal)) = Some x) ws objs" by auto
  have "list_all2 (\<lambda>obj t. table_of obj = Some t) objs (tables (stored_table contents) b (wal_paths ws))"
    using objs all
    by (induction ws objs rule: list_all2_induct)
      (auto simp: wal_paths_def stored_table_def)
  from merge_objects_newest [OF this, of "[]"] m have
    m': "keyed m" "\<And>k. entry (map snd m) k = newest (tables (stored_table contents) b (wal_paths ws)) k"
    by (auto simp: keyed_def)
  show ?thesis
    using object_store.upload_ok [OF os up] b1 merged_records_ok [OF srtR m'(1)] m'(2) by auto
qed

lemma compact_objects_other:
  assumes os: "object_store upload fetch contents" and q: "q \<noteq> run_path uuid"
  shows "contents (snd (compact_objects srtW srtR fetch upload uuid j b)) q = contents b q"
proof -
  let ?ws = "srtW (\<lambda>a b. SeqNo a > SeqNo b) (WALs (Args j))"
  obtain r b1 where r: "read_objects fetch ?ws [] b = (r, b1)" by fastforce
  have b1: "contents b1 = contents b" using read_objects_keeps [OF os, of ?ws "[]" b] r by simp
  show ?thesis
    using r b1 object_store.upload_other [OF os q, of _ b1]
    by (auto simp: compact_objects_def split: sum.split prod.split iter_end.split option.split)
      (metis prod.sel(2))+
qed

text \<open>The effect of the transaction: nothing, or the new run and the deleted logs together.\<close>

definition compacted :: "string \<Rightarrow> int list \<Rightarrow> DB \<Rightarrow> DB" where
  "compacted p ns d = snd (DeleteWriteAheadLogs ns (AddSharedRun \<lparr>RunPath = p\<rparr> d))"

lemma compaction_tx_cases:
  assumes "compaction_tx complete_tx faults i p ns (d, q) = (r, (d', q'))"
  shows "(d', q') = (d, q) \<or> (d' = compacted p ns d \<and> complete_tx i q = Inr q')"
    and "r = None \<Longrightarrow> (\<forall>e. logs_fault faults = Some e \<longrightarrow> \<not> is_no_rows e) \<Longrightarrow>
      d' = compacted p ns d \<and> complete_tx i q = Inr q'"
  using assms
  by (auto simp: compaction_tx_def compacted_def commit_def Let_def split_beta
      split: option.splits sum.splits if_splits prod.splits)

section \<open>The view of the tables\<close>

definition newest_logs :: "DB \<Rightarrow> WriteAheadLog list" where
  "newest_logs d = rev (sort_key SeqNo (write_ahead_logs d))"

definition newest_runs :: "DB \<Rightarrow> SharedRun list" where
  "newest_runs d = rev (sort_key RunSeqNo (shared_runs d))"

text \<open>The value of a key for an index whose lists show the tables.\<close>

definition db_view :: "('w \<Rightarrow> string \<Rightarrow> Record list option) \<Rightarrow> 'w \<Rightarrow> DB \<Rightarrow> string \<Rightarrow> bytes option" where
  "db_view tbl w d k =
     index_view tbl w (newest_logs d) (newest_runs d) (sort_key InclusiveStartKey (partitions d)) k"

lemma distinct_map_sort_key: "distinct (map f (sort_key g xs)) \<longleftrightarrow> distinct (map f xs)"
  by (metis mset_map mset_sort mset_eq_imp_distinct_iff)

lemma sort_key_split:
  fixes f :: "'a \<Rightarrow> 'k::linorder"
  assumes d: "distinct (map f xs)" and lt: "\<And>x y. x \<in> set xs \<Longrightarrow> y \<in> set xs \<Longrightarrow> P x \<Longrightarrow> \<not> P y \<Longrightarrow> f x < f y"
  shows "sort_key f xs = sort_key f (filter P xs) @ sort_key f (filter (\<lambda>x. \<not> P x) xs)"
proof (rule sorted_map_unique [where f = f])
  show "mset (sort_key f xs) = mset (sort_key f (filter P xs) @ sort_key f (filter (\<lambda>x. \<not> P x) xs))"
    by simp
  show "sorted (map f (sort_key f xs))" by simp
  show "sorted (map f (sort_key f (filter P xs) @ sort_key f (filter (\<lambda>x. \<not> P x) xs)))"
    using lt by (force simp: sorted_append intro: less_imp_le)
  show "distinct (map f (sort_key f xs))" using d by (simp only: distinct_map_sort_key)
qed

lemma sort_key_snoc_max:
  fixes f :: "'a \<Rightarrow> 'k::linorder"
  assumes "distinct (map f xs)" and "\<And>y. y \<in> set xs \<Longrightarrow> f y < f x"
  shows "sort_key f (xs @ [x]) = sort_key f xs @ [x]"
proof (rule sorted_map_unique [where f = f])
  have "distinct (map f (xs @ [x]))" using assms by fastforce
  then show "distinct (map f (sort_key f (xs @ [x])))" by (simp only: distinct_map_sort_key)
qed (use assms in \<open>auto simp: sorted_append intro: less_imp_le\<close>)

text \<open>The job's logs are the rows with its sequence numbers, up to their state.\<close>

definition job_matches :: "WriteAheadLog list \<Rightarrow> DB \<Rightarrow> bool" where
  "job_matches ws d \<longleftrightarrow> ws \<noteq> [] \<and> distinct (map SeqNo ws) \<and>
     list_all (\<lambda>w. w\<lparr>State := ''COMPACTING''\<rparr> \<in> set (write_ahead_logs d)) ws"

lemma job_matches_state:
  "job_matches ws d \<Longrightarrow> all_in_state d (map SeqNo ws) ''COMPACTING''"
  unfolding job_matches_def all_in_state_iff list_all_iff
  by (auto intro!: bexI [of _ "_\<lparr>State := ''COMPACTING''\<rparr>"])

lemma all_in_state_perm:
  assumes "all_in_state d ns st" and "mset ns' = mset ns"
  shows "all_in_state d ns' st"
  using assms mset_eq_setD [OF assms(2)] mset_eq_imp_distinct_iff [OF assms(2)]
  by (auto simp: all_in_state_iff)

lemma db_ok_compacted: "db_ok d \<Longrightarrow> db_ok (compacted p ns d)"
  by (simp add: compacted_def db_ok_Delete db_ok_AddSharedRun)

lemma compacted_eq:
  assumes "db_ok d" and "all_in_state d ns ''COMPACTING''"
  shows "compacted p ns d =
    (AddSharedRun \<lparr>RunPath = p\<rparr> d)\<lparr>write_ahead_logs :=
      filter (\<lambda>w. SeqNo w \<notin> set ns) (write_ahead_logs d)\<rparr>"
proof -
  have "all_in_state (AddSharedRun \<lparr>RunPath = p\<rparr> d) ns ''COMPACTING''"
    using assms(2) by (simp add: all_in_state_def AddSharedRun_def)
  then show ?thesis
    by (simp add: compacted_def Delete_eq [OF db_ok_AddSharedRun [OF assms(1)]])
      (simp add: AddSharedRun_def)
qed

lemma wal_paths_job:
  assumes ok: "db_ok d" and m: "job_matches ws d"
  shows "wal_paths (rev (sort_key SeqNo ws)) =
    wal_paths (rev (sort_key SeqNo (filter (\<lambda>w. SeqNo w \<in> set (map SeqNo ws)) (write_ahead_logs d))))"
proof -
  let ?g = "\<lambda>w :: WriteAheadLog. w\<lparr>State := ''COMPACTING''\<rparr>"
  let ?rows = "filter (\<lambda>w. SeqNo w \<in> set (map SeqNo ws)) (write_ahead_logs d)"
  have d: "distinct (map SeqNo (map ?g ws))" using m by (simp add: job_matches_def comp_def)
  have dr: "distinct (map SeqNo ?rows)" using ok by (simp add: db_ok_def distinct_map_filter)
  have "set (map ?g ws) = set ?rows"
  proof
    show "set (map ?g ws) \<subseteq> set ?rows" using m by (auto simp: job_matches_def list_all_iff)
    show "set ?rows \<subseteq> set (map ?g ws)"
    proof
      fix r assume r: "r \<in> set ?rows"
      then obtain w where w: "w \<in> set ws" "SeqNo w = SeqNo r" by auto
      then have "?g w \<in> set (write_ahead_logs d)" using m by (simp add: job_matches_def list_all_iff)
      then have "?g w = r" using same_seq_same_row [OF ok] r w(2) by simp
      then show "r \<in> set (map ?g ws)" using w(1) by auto
    qed
  qed
  then have "mset (map ?g ws) = mset ?rows"
    using set_eq_iff_mset_eq_distinct [OF distinct_mapD [OF d] distinct_mapD [OF dr]] by (rule iffD1 [rotated])
  then have ms: "mset (map ?g (sort_key SeqNo ws)) = mset (sort_key SeqNo ?rows)" by simp
  have s1: "sorted (map SeqNo (map ?g (sort_key SeqNo ws)))" by (simp add: comp_def)
  have s2: "distinct (map SeqNo (map ?g (sort_key SeqNo ws)))"
    using d by (simp add: comp_def distinct_map_sort_key)
  have eq: "map ?g (sort_key SeqNo ws) = sort_key SeqNo ?rows"
    by (rule sorted_map_unique [OF ms s1 _ s2]) simp
  have "wal_paths (rev (map ?g xs)) = wal_paths (rev xs)" for xs
    by (simp add: wal_paths_def rev_map comp_def)
  then show ?thesis using eq by metis
qed

lemma owner_member:
  assumes "owner ps k = Some p"
  shows "p \<in> set ps"
proof -
  let ?f = "filter (\<lambda>p. InclusiveStartKey p \<le> k) ps"
  have "?f \<noteq> []" "p = last ?f" using assms by (auto simp: owner_def split: list.splits)
  then have "p \<in> set ?f" using last_in_set by blast
  then show ?thesis by simp
qed

text \<open>
  Replacing the oldest logs by a run that holds their newest entries, newer than every other run,
  changes no value.
\<close>

lemma compaction_keeps_view:
  assumes ok: "db_ok d" and m: "job_matches ws d"
    and oldest: "\<forall>w \<in> set (write_ahead_logs d). SeqNo w \<notin> set (map SeqNo ws) \<longrightarrow>
      (\<forall>w' \<in> set ws. SeqNo w' < SeqNo w)"
    and run: "tbl w' p = Some t" "\<And>k. entry t k = newest (tables tbl w (wal_paths (rev (sort_key SeqNo ws)))) k"
    and same: "\<And>q. q \<noteq> p \<Longrightarrow> tbl w' q = tbl w q"
    and fresh: "p \<notin> set (wal_paths (write_ahead_logs d)) \<union> set (shared_paths (shared_runs d)) \<union>
      (\<Union>x \<in> set (partitions d). set (run_paths x))"
    and ns: "mset ns = mset (map SeqNo ws)"
  shows "db_view tbl w' (compacted p ns d) k = db_view tbl w d k"
proof -
  let ?P = "\<lambda>w. SeqNo w \<in> set (map SeqNo ws)"
  let ?logs = "write_ahead_logs d" and ?old = "rev (sort_key SeqNo (filter ?P (write_ahead_logs d)))"
    and ?new = "rev (sort_key SeqNo (filter (\<lambda>w. \<not> ?P w) (write_ahead_logs d)))"
  have set_ns: "set ns = set (map SeqNo ws)" using ns by (rule mset_eq_setD)
  have "SeqNo x < SeqNo y" if "x \<in> set ?logs" "y \<in> set ?logs" "?P x" "\<not> ?P y" for x y
    using oldest that by fastforce
  then have logs: "newest_logs d = ?new @ ?old"
    unfolding newest_logs_def using ok by (subst sort_key_split [of SeqNo _ ?P]) (auto simp: db_ok_def)
  have c: "compacted p ns d = (AddSharedRun \<lparr>RunPath = p\<rparr> d)\<lparr>write_ahead_logs := filter (\<lambda>w. \<not> ?P w) ?logs\<rparr>"
    using compacted_eq [OF ok all_in_state_perm [OF job_matches_state [OF m] ns]] set_ns by simp
  have runs: "shared_paths (newest_runs (compacted p ns d)) = p # shared_paths (newest_runs d)"
    unfolding c using ok
    by (simp add: newest_runs_def AddSharedRun_def shared_paths_def sort_key_snoc_max db_ok_def list_all_iff)
  have logs': "newest_logs (compacted p ns d) = ?new" by (simp add: c newest_logs_def)
  have keep: "tables tbl w' ps = tables tbl w ps" if "p \<notin> set ps" for ps
    using same that by (induction ps) auto
  have "p \<notin> set (wal_paths (newest_logs d))" "p \<notin> set (shared_paths (newest_runs d))"
    "\<And>x. x \<in> set (partitions d) \<Longrightarrow> p \<notin> set (run_paths x)"
    using fresh by (auto simp: wal_paths_def shared_paths_def newest_logs_def newest_runs_def)
  then have new: "tables tbl w' (wal_paths ?new) = tables tbl w (wal_paths ?new)"
    and old: "tables tbl w' (shared_paths (newest_runs d)) = tables tbl w (shared_paths (newest_runs d))"
    and ps: "\<And>x. x \<in> set (partitions d) \<Longrightarrow> tables tbl w' (run_paths x) = tables tbl w (run_paths x)"
    unfolding logs by (auto intro!: keep simp: wal_paths_def)
  have own: "owner (sort_key InclusiveStartKey (partitions d)) k = Some x \<Longrightarrow> x \<in> set (partitions d)" for x
    by (drule owner_member) simp
  have job: "tables tbl w (wal_paths (rev (sort_key SeqNo ws))) = tables tbl w (wal_paths ?old)"
    using wal_paths_job [OF ok m] by simp
  have "newest (tables tbl w' (wal_paths ?new @ p # shared_paths (newest_runs d))) k =
      newest (tables tbl w ((wal_paths ?new @ wal_paths ?old) @ shared_paths (newest_runs d))) k"
    using run new old job by (simp add: newest_append split: option.split)
  moreover have "wal_paths (?new @ ?old) = wal_paths ?new @ wal_paths ?old" by (simp add: wal_paths_def)
  moreover have "partitions (compacted p ns d) = partitions d" by (simp add: c AddSharedRun_def)
  ultimately show ?thesis
    using ps own by (simp add: db_view_def index_view_def logs logs' runs split: option.split)
qed

section \<open>Properties\<close>

text \<open>C12. The merge takes the newest: when the objects step of a job succeeds, it has stored, and
  changed nothing else, a strictly sorted table whose entry for each key is that of the job's log
  with the highest sequence number that has one (tombstones included).\<close>

theorem compaction_merges_newest:
  assumes "object_store upload fetch contents" and "slice_sort srtW" and "slice_sort srtR"
    and "distinct (map SeqNo (WALs (Args j)))"
    and "all_tables (stored_table contents) b (wal_paths (WALs (Args j)))"
    and "compact_objects srtW srtR fetch upload uuid j b = (None, b')"
  shows "\<exists>recs. contents b' = (contents b)(run_path uuid \<mapsto> WriteRecords recs) \<and>
    sorted_wrt (<) (map Key recs) \<and>
    (\<forall>k. entry recs k =
      newest (tables (stored_table contents) b (wal_paths (rev (sort_key SeqNo (WALs (Args j)))))) k)"
proof -
  have ws: "srtW (\<lambda>a b. SeqNo a > SeqNo b) (WALs (Args j)) = rev (sort_key SeqNo (WALs (Args j)))"
    by (rule slice_sort.srt_distinct_keys_desc [OF assms(2,4)])
  have "all_tables (stored_table contents) b (wal_paths (rev (sort_key SeqNo (WALs (Args j)))))"
    using assms(5) by (simp add: all_tables_def wal_paths_def list_all_iff)
  then show ?thesis
    using compact_objects_ok [OF assms(1,3,6) refl] unfolding ws by blast
qed


text \<open>C38. A job whose logs are gone is not stopped: when the logs are no longer all there in state
  COMPACTING, the statement that should delete them reports that with its result, not with an
  error; the worker ignores the result and commits the run all the same.\<close>

theorem job_without_logs_adds_run:
  assumes "db_ok d" and "\<not> all_in_state d ns ''COMPACTING''" and "complete_tx i q = Inr q'"
  shows "fst (DeleteWriteAheadLogs ns d) = False \<and>
    compaction_tx complete_tx no_faults i p ns (d, q) = (None, (AddSharedRun \<lparr>RunPath = p\<rparr> d, q'))"
proof -
  have "\<not> all_in_state (AddSharedRun \<lparr>RunPath = p\<rparr> d) ns ''COMPACTING''"
    using assms(2) by (simp add: all_in_state_def AddSharedRun_def)
  then show ?thesis
    using assms
    by (simp add: compaction_tx_def no_faults_def commit_def Delete_eq db_ok_AddSharedRun)
qed

section \<open>Witnesses\<close>

definition two_objects :: mem_bucket where
  "two_objects = \<lparr>script = [], objects =
     [(''wal/1'', WriteRecords old_record), (''wal/2'', WriteRecords one_record)]\<rparr>"

definition two_job :: job where
  "two_job = \<lparr>JobID = 0, Args = \<lparr>WALs = write_ahead_logs two_logs\<rparr>\<rparr>"

lemma two_job_rows:
  "WALs (Args two_job) = [new_log 1 (attrs_at ''wal/1''), new_log 2 (attrs_at ''wal/2'')]"
  by (simp add: two_job_def two_logs_rows)

lemma two_job_sorted: "rev (sort_key SeqNo (WALs (Args two_job))) =
    [new_log 2 (attrs_at ''wal/2''), new_log 1 (attrs_at ''wal/1'')]"
  by (simp add: two_job_rows new_log_def)

lemma two_objects_tables [simp]:
  "stored_table mem_contents two_objects ''wal/1'' = Some old_record"
  "stored_table mem_contents two_objects ''wal/2'' = Some one_record"
  by (simp_all add: stored_table_def mem_contents_def two_objects_def)

lemma tiny_collect [simp]:
  "collect (WriteRecords one_record) = (one_record, Returned)"
  "collect (WriteRecords old_record) = (old_record, Returned)"
  using table_of_SomeD tiny_tables by blast+

theorem compaction_merges_newest_witness:
  "\<exists>b' recs. compact_objects insertion_sort insertion_sort mem_fetch mem_upload ''r'' two_job
     two_objects = (None, b') \<and>
   mem_contents b' ''runs/r.sstable'' = Some (WriteRecords recs) \<and> entry recs ''k'' = Some (Some [1])"
proof -
  have d: "distinct (map SeqNo (WALs (Args two_job)))" by (simp add: two_job_rows new_log_def)
  have t: "all_tables (stored_table mem_contents) two_objects (wal_paths (WALs (Args two_job)))"
    by (simp add: two_job_rows wal_paths_def new_log_def attrs_at_def)
  have "fst (compact_objects insertion_sort insertion_sort mem_fetch mem_upload ''r'' two_job
     two_objects) = None"
    by (simp add: compact_objects_def two_job_rows insertion_sort_def new_log_def attrs_at_def
        mem_fetch_def two_objects_def Records_keep_first mem_upload_def)
  then obtain b' where c: "compact_objects insertion_sort insertion_sort mem_fetch mem_upload ''r''
      two_job two_objects = (None, b')" by (metis prod.collapse)
  from compaction_merges_newest [OF mem.object_store_axioms insertion.slice_sort_axioms
      insertion.slice_sort_axioms d t c]
  obtain recs where "mem_contents b' (run_path ''r'') = Some (WriteRecords recs)"
    "\<forall>k. entry recs k = newest (tables (stored_table mem_contents) two_objects
      (wal_paths (rev (sort_key SeqNo (WALs (Args two_job)))))) k" by auto
  then show ?thesis
    using c unfolding two_job_sorted
    by (auto simp: wal_paths_def new_log_def attrs_at_def one_record_def run_path_def)
qed

definition marked_logs :: DB where
  "marked_logs = snd (MarkWriteAheadLogsAsCompacting [1, 2] two_logs)"

lemma db_ok_marked_logs: "db_ok marked_logs"
  unfolding marked_logs_def by (rule db_ok_Mark [OF db_ok_two_logs])

lemma marked_logs_rows: "map SeqNo (write_ahead_logs marked_logs) = [1, 2]"
  "all_in_state marked_logs [1, 2] ''COMPACTING''" "\<not> all_in_state marked_logs [3] ''COMPACTING''"
  by (simp_all add: marked_logs_def Mark_eq [OF db_ok_two_logs] all_in_state_def two_logs_rows new_log_def)

definition one_job :: queue where
  "one_job = \<lparr>queued = [(0, [])], next_id = 1\<rparr>"

lemma complete_one_job: "queue_complete 0 one_job = Inr \<lparr>queued = [], next_id = 1\<rparr>"
  by (simp add: queue_complete_def one_job_def queue_pending_def)


theorem job_without_logs_adds_run_witness:
  "fst (snd (compaction_tx queue_complete no_faults 0 ''runs/r'' [3] (marked_logs, one_job))) =
     AddSharedRun \<lparr>RunPath = ''runs/r''\<rparr> marked_logs"
  using job_without_logs_adds_run [where complete_tx = queue_complete and i = 0 and q = one_job and
      p = "''runs/r''", OF db_ok_marked_logs marked_logs_rows(3) complete_one_job] by simp

end
