(* ===== verification/Orchestrator.thy ===== *)
theory Orchestrator
  imports Compaction
begin

text \<open>
  \<^verbatim>\<open>internal/orchestrator/handler.go\<close>: the loop that schedules the compaction of the new logs, and
  the listing of the logs. The job queue and the faults of the transaction's calls are parameters,
  as in the theory Compaction. The lemmas: what one turn of the loop does to the tables and the
  queue on every branch, and that a schedule whose marking fails is not stopped by it.
\<close>

record OrchestratorConfig =
  OrchestratorEnabled :: bool
  MinWALsToCompact :: int

definition maybeCompactWAL ::
  "OrchestratorConfig \<Rightarrow> (WriteAheadLog list \<Rightarrow> 'q \<Rightarrow> 'q result) \<Rightarrow> tx_faults \<Rightarrow>
   WriteAheadLog list \<Rightarrow> DB \<times> 'q \<Rightarrow> go_error option \<times> (DB \<times> 'q)"
where
  "maybeCompactWAL cfg insert_tx faults ws s =
     (if int (length ws) < MinWALsToCompact cfg then (None, s)
      else
        (let seqNos = map SeqNo ws; (d, q) = s in
         case begin_fault faults of
           Some e \<Rightarrow> (Some (ErrWrap ''failed to begin transaction'' e), s)
         | None \<Rightarrow>
             (case logs_fault faults of
                Some e \<Rightarrow>
                  if is_no_rows e then (None, s)
                  else (Some (ErrWrap ''failed to update WALs'' e), s)
              | None \<Rightarrow>
                  (let (_, d1) = MarkWriteAheadLogsAsCompacting seqNos d in
                   case insert_tx ws q of
                     Inl e \<Rightarrow> (Some (ErrWrap ''failed to schedule merge job'' e), s)
                   | Inr q1 \<Rightarrow> commit faults (d1, q1) s))))"

text \<open>
  The loop. A tick brings the query's result, which may be older than the tables by the time the
  transaction runs; when the context is done the loop just goes round again.
\<close>

datatype loop_event = Tick "WriteAheadLog list result" tx_faults | OrchestratorDone

fun processLoop ::
  "OrchestratorConfig \<Rightarrow> (WriteAheadLog list \<Rightarrow> 'q \<Rightarrow> 'q result) \<Rightarrow> loop_event list \<Rightarrow> DB \<times> 'q \<Rightarrow>
   DB \<times> 'q"
where
  "processLoop cfg insert_tx [] s = s"
| "processLoop cfg insert_tx (Tick (Inl e) faults # es) s = processLoop cfg insert_tx es s"
| "processLoop cfg insert_tx (Tick (Inr ws) faults # es) s =
     processLoop cfg insert_tx es (snd (maybeCompactWAL cfg insert_tx faults ws s))"
| "processLoop cfg insert_tx (OrchestratorDone # es) s = processLoop cfg insert_tx es s"

text \<open>\<^verbatim>\<open>NewHandler\<close> fails only if the queue's client cannot be made.\<close>

definition NewOrchestratorHandler :: "OrchestratorConfig \<Rightarrow> go_error option \<Rightarrow> OrchestratorConfig result" where
  "NewOrchestratorHandler cfg client_err =
     (case client_err of
        Some e \<Rightarrow> Inl (ErrWrap ''failed to create river client'' e)
      | None \<Rightarrow> Inr cfg)"

text \<open>
  The listing: sequence numbers and attributes, sorted with \<^verbatim>\<open>slices.SortFunc\<close> by the sign of the
  difference of the numbers, in 64-bit arithmetic.
\<close>

record ListedLog =
  ListedSeqNo :: int
  ListedAttrs :: WALAttrs

definition listed :: "WriteAheadLog \<Rightarrow> ListedLog" where
  "listed w = \<lparr>ListedSeqNo = SeqNo w, ListedAttrs = Attrs w\<rparr>"

definition seq_diff :: "ListedLog \<Rightarrow> ListedLog \<Rightarrow> int" where
  "seq_diff a b = go_int (ListedSeqNo a - ListedSeqNo b)"

definition ListWriteAheadLogs ::
  "ListedLog sorter \<Rightarrow> WriteAheadLog list result \<Rightarrow> ListedLog list result"
where
  "ListWriteAheadLogs srt queried =
     (case queried of
        Inl e \<Rightarrow> Inl (ErrRPC CodeInternal (ErrWrap ''failed to get write ahead logs'' e))
      | Inr ws \<Rightarrow> Inr (srt (\<lambda>a b. seq_diff a b < 0) (map listed ws)))"

section \<open>Scheduling\<close>

text \<open>A schedule changes the tables and the queue together or not at all.\<close>

lemma maybeCompactWAL_cases:
  assumes "maybeCompactWAL cfg insert_tx faults ws (d, q) = (r, (d', q'))"
  shows "(d', q') = (d, q) \<or>
    (MinWALsToCompact cfg \<le> int (length ws) \<and>
     d' = snd (MarkWriteAheadLogsAsCompacting (map SeqNo ws) d) \<and> insert_tx ws q = Inr q')"
  using assms
  by (auto simp: maybeCompactWAL_def commit_def Let_def split_beta
      split: option.splits sum.splits if_splits prod.splits)

lemma maybeCompactWAL_no_faults:
  assumes "MinWALsToCompact cfg \<le> int (length ws)" and "insert_tx ws q = Inr q'"
  shows "maybeCompactWAL cfg insert_tx no_faults ws (d, q) =
    (None, (snd (MarkWriteAheadLogsAsCompacting (map SeqNo ws) d), q'))"
  using assms by (simp add: maybeCompactWAL_def no_faults_def commit_def split_beta)

lemma db_ok_schedule:
  assumes "db_ok d" and "maybeCompactWAL cfg insert_tx faults ws (d, q) = (r, (d', q'))"
  shows "db_ok d'"
  using maybeCompactWAL_cases [OF assms(2)] db_ok_Mark [OF assms(1)] assms(1) by auto

lemma seq_diff_small:
  "0 \<le> ListedSeqNo a \<Longrightarrow> ListedSeqNo a < 2 ^ 63 \<Longrightarrow> 0 \<le> ListedSeqNo b \<Longrightarrow> ListedSeqNo b < 2 ^ 63 \<Longrightarrow>
   seq_diff a b = ListedSeqNo a - ListedSeqNo b"
  unfolding seq_diff_def by (rule go_int_id) auto

text \<open>The listing shows the rows by sequence number, as long as the numbers are non-negative and fit
  64 bits, where the difference does not wrap around.\<close>

lemma ListWriteAheadLogs_sorted:
  assumes "slice_sort srt" and "db_ok d"
    and "\<forall>w \<in> set (write_ahead_logs d). 0 \<le> SeqNo w \<and> SeqNo w < 2 ^ 63"
  shows "ListWriteAheadLogs srt (Inr (GetWriteAheadLogs d)) =
    Inr (map listed (sort_key SeqNo (write_ahead_logs d)))"
proof -
  let ?rows = "map listed (write_ahead_logs d)"
  have "srt (\<lambda>a b. seq_diff a b < 0) ?rows = map listed (sort_key SeqNo (write_ahead_logs d))"
  proof (rule sorted_map_unique [where f = ListedSeqNo])
    show "mset (srt (\<lambda>a b. seq_diff a b < 0) ?rows) = mset (map listed (sort_key SeqNo (write_ahead_logs d)))"
      by (simp add: slice_sort.permutes [OF assms(1)])
    show "sorted (map ListedSeqNo (srt (\<lambda>a b. seq_diff a b < 0) ?rows))"
      using assms(3) by (intro slice_sort.sorted_map_srt_on [OF assms(1)])
        (auto simp: listed_def seq_diff_small)
    show "distinct (map ListedSeqNo (srt (\<lambda>a b. seq_diff a b < 0) ?rows))"
      using assms(2) by (simp add: slice_sort.distinct_map_srt [OF assms(1)] comp_def listed_def db_ok_def)
  qed (simp add: comp_def listed_def)
  then show ?thesis by (simp add: ListWriteAheadLogs_def GetWriteAheadLogs_def)
qed

section \<open>Properties\<close>


text \<open>C39. The marking does not guard the schedule: rows that are no longer all NEW (another
  orchestrator has scheduled them since they were read) leave the tables as they are, which the
  statement reports with its result and not with an error; the job is queued a second time.\<close>

theorem stale_logs_scheduled_again:
  assumes "db_ok d" and "\<not> all_in_state d (map SeqNo ws) ''NEW''"
    and "MinWALsToCompact cfg \<le> int (length ws)" and "insert_tx ws q = Inr q'"
  shows "fst (MarkWriteAheadLogsAsCompacting (map SeqNo ws) d) = False \<and>
    maybeCompactWAL cfg insert_tx no_faults ws (d, q) = (None, (d, q'))"
  using assms by (simp add: maybeCompactWAL_no_faults Mark_eq)

section \<open>Witnesses\<close>

definition two_log_config :: OrchestratorConfig where
  "two_log_config = \<lparr>OrchestratorEnabled = True, MinWALsToCompact = 2\<rparr>"

definition no_jobs :: queue where
  "no_jobs = \<lparr>queued = [], next_id = 0\<rparr>"


theorem stale_logs_scheduled_again_witness:
  "maybeCompactWAL two_log_config queue_insert no_faults (write_ahead_logs two_logs)
     (marked_logs, one_job) = (None, (marked_logs, projr (queue_insert (write_ahead_logs two_logs) one_job)))"
proof -
  have "\<not> all_in_state marked_logs (map SeqNo (write_ahead_logs two_logs)) ''NEW''"
    by (simp add: marked_logs_def Mark_eq [OF db_ok_two_logs] all_in_state_def two_logs_rows new_log_def)
  then show ?thesis
    using stale_logs_scheduled_again [where cfg = two_log_config and insert_tx = queue_insert and
        q = one_job, OF db_ok_marked_logs]
    by (simp add: two_log_config_def two_logs_rows queue_insert_def)
qed

end
