(* ===== verification/System.thy ===== *)
theory System
  imports Orchestrator
begin

text \<open>
  The write path as a whole: batches written by the batcher's workers, compactions scheduled by
  one orchestrator, and jobs worked off in the order they were scheduled, in any interleaving and
  with any faults of the store, the database and the queue. A state also records the tables of the
  batches whose rows were added (\<open>committed\<close>, oldest first) and the ids generated so far, which
  the generator does not repeat. An upload or a merge and the row or transaction after it are one
  step here; the theory BatchLoop has them as two.

  The lemmas: an invariant of the tables, the queue and the store, and that the view of the tables
  is always that of the committed batches applied one after the other, and so is what an index
  answers. Three runs at the end show that the order of the jobs is needed and so is that of the
  commits, and what an index answers that has refreshed only one of its lists.
\<close>

record ('b, 'q) system =
  sys_store :: 'b
  sys_db :: DB
  sys_queue :: 'q
  sys_uuids :: "string list"
  committed :: "Record list list"

definition mark_row :: "WriteAheadLog \<Rightarrow> WriteAheadLog" where
  "mark_row w = w\<lparr>State := ''COMPACTING''\<rparr>"

text \<open>The records of a batch as its table holds them, committed or not.\<close>

definition commit_batch :: "Record list \<Rightarrow> DB \<Rightarrow> DB \<Rightarrow> Record list list \<Rightarrow> Record list list" where
  "commit_batch t d d' ts = (if write_ahead_logs d' = write_ahead_logs d then ts else ts @ [t])"

text \<open>One batch through the batcher's \<^verbatim>\<open>writeBatch\<close>, with the outcome of its statement.\<close>

definition sys_write ::
  "Record sorter \<Rightarrow> 'b upload_fun \<Rightarrow> string \<Rightarrow> int \<Rightarrow> Record list \<Rightarrow> call_outcome \<Rightarrow> ('b, 'q) system \<Rightarrow>
   ('b, 'q) system"
where
  "sys_write srt upload uuid now records outcome s =
     (case writeBatch srt upload Queries_AddWriteAheadLog uuid now records
             (sys_store s, \<lparr>outcomes = [outcome], database = sys_db s\<rparr>) of
        (_, (b, c)) \<Rightarrow>
          s\<lparr>sys_store := b, sys_db := database c, sys_uuids := uuid # sys_uuids s,
            committed := commit_batch (batch_table srt records) (sys_db s) (database c) (committed s)\<rparr>)"

text \<open>
  One turn of the orchestrator's loop, on the rows its query returned: the query runs before the
  transaction, so these may lack the logs added in between.
\<close>

definition sys_schedule ::
  "OrchestratorConfig \<Rightarrow> (WriteAheadLog list \<Rightarrow> 'q \<Rightarrow> 'q result) \<Rightarrow> tx_faults \<Rightarrow>
   WriteAheadLog list \<Rightarrow> ('b, 'q) system \<Rightarrow> ('b, 'q) system"
where
  "sys_schedule cfg insert_tx faults ws s =
     (case maybeCompactWAL cfg insert_tx faults ws (sys_db s, sys_queue s) of
        (_, (d, q)) \<Rightarrow> s\<lparr>sys_db := d, sys_queue := q\<rparr>)"

text \<open>An attempt at a job.\<close>

definition sys_work ::
  "WriteAheadLog sorter \<Rightarrow> Record sorter \<Rightarrow> 'b fetch_fun \<Rightarrow> 'b upload_fun \<Rightarrow>
   (job_id \<Rightarrow> 'q \<Rightarrow> 'q result) \<Rightarrow> tx_faults \<Rightarrow> string \<Rightarrow> job_id \<Rightarrow> WriteAheadLog list \<Rightarrow>
   ('b, 'q) system \<Rightarrow> ('b, 'q) system"
where
  "sys_work srtW srtR fetch upload complete_tx faults uuid i ws s =
     (case Work srtW srtR fetch upload complete_tx faults uuid \<lparr>JobID = i, Args = \<lparr>WALs = ws\<rparr>\<rparr>
             (sys_store s, (sys_db s, sys_queue s)) of
        (_, (b, (d, q))) \<Rightarrow>
          s\<lparr>sys_store := b, sys_db := d, sys_queue := q, sys_uuids := uuid # sys_uuids s\<rparr>)"

text \<open>Objects are shorter than \<open>2 ^ 63\<close> bytes.\<close>

definition small_object :: "('b \<Rightarrow> string \<Rightarrow> bytes option) \<Rightarrow> 'b \<Rightarrow> string \<Rightarrow> bool" where
  "small_object contents b p =
     (case contents b p of None \<Rightarrow> True | Some x \<Rightarrow> length x < 2 ^ 63)"

inductive sys_reachable for srtW srtR fetch upload contents insert_tx complete_tx pending cfg b q
where
  start: "sys_reachable srtW srtR fetch upload contents insert_tx complete_tx pending cfg b q
    \<lparr>sys_store = b, sys_db = migrated, sys_queue = q, sys_uuids = [], committed = []\<rparr>"
| written: "sys_reachable srtW srtR fetch upload contents insert_tx complete_tx pending cfg b q s \<Longrightarrow>
    uuid \<notin> set (sys_uuids s) \<Longrightarrow> s' = sys_write srtR upload uuid now records outcome s \<Longrightarrow>
    small_object contents (sys_store s') (wal_path uuid) \<Longrightarrow>
    sys_reachable srtW srtR fetch upload contents insert_tx complete_tx pending cfg b q s'"
| scheduled: "sys_reachable srtW srtR fetch upload contents insert_tx complete_tx pending cfg b q s \<Longrightarrow>
    ws = take n (GetWriteAheadLogsToCompact (sys_db s)) \<Longrightarrow>
    s' = sys_schedule cfg insert_tx faults ws s \<Longrightarrow>
    sys_reachable srtW srtR fetch upload contents insert_tx complete_tx pending cfg b q s'"
| worked: "sys_reachable srtW srtR fetch upload contents insert_tx complete_tx pending cfg b q s \<Longrightarrow>
    uuid \<notin> set (sys_uuids s) \<Longrightarrow> pending (sys_queue s) = (i, ws) # jobs \<Longrightarrow>
    s' = sys_work srtW srtR fetch upload complete_tx faults uuid i ws s \<Longrightarrow>
    small_object contents (sys_store s') (run_path uuid) \<Longrightarrow>
    sys_reachable srtW srtR fetch upload contents insert_tx complete_tx pending cfg b q s'"

section \<open>The view and its parts\<close>

definition refs :: "DB \<Rightarrow> string set" where
  "refs d = set (wal_paths (write_ahead_logs d)) \<union> set (shared_paths (shared_runs d)) \<union>
     (\<Union>p \<in> set (partitions d). set (run_paths p))"

lemma tables_agree: "\<forall>p \<in> set ps. tbl' w' p = tbl w p \<Longrightarrow> tables tbl' w' ps = tables tbl w ps"
  by (induction ps) auto

lemma db_view_agree:
  assumes "\<forall>p \<in> refs d. tbl' w' p = tbl w p"
  shows "db_view tbl' w' d k = db_view tbl w d k"
proof -
  have "tables tbl' w' (wal_paths (newest_logs d)) = tables tbl w (wal_paths (newest_logs d))"
    "tables tbl' w' (shared_paths (newest_runs d)) = tables tbl w (shared_paths (newest_runs d))"
    using assms by (auto intro!: tables_agree
      simp: refs_def newest_logs_def newest_runs_def wal_paths_def shared_paths_def)
  moreover have "tables tbl' w' (run_paths p) = tables tbl w (run_paths p)"
    if "owner (sort_key InclusiveStartKey (partitions d)) k = Some p" for p
    using owner_member [OF that] assms by (intro tables_agree) (auto simp: refs_def)
  ultimately show ?thesis by (simp add: db_view_def index_view_def split: option.split)
qed

lemmas db_view_same = db_view_agree [where tbl' = tbl and tbl = tbl for tbl]

text \<open>A new log is asked first.\<close>

lemma db_view_new_log:
  assumes ok: "db_ok d" and t: "tbl w (Path a) = Some t"
  shows "db_view tbl w (AddWriteAheadLog a d) k =
    (case entry t k of None \<Rightarrow> db_view tbl w d k | Some x \<Rightarrow> x)"
proof -
  have "newest_logs (AddWriteAheadLog a d) =
      \<lparr>SeqNo = wal_seq d, State = ''NEW'', Attrs = a\<rparr> # newest_logs d"
    using ok by (simp add: newest_logs_def AddWriteAheadLog_def sort_key_snoc_max db_ok_def list_all_iff)
  moreover have "newest_runs (AddWriteAheadLog a d) = newest_runs d"
    "partitions (AddWriteAheadLog a d) = partitions d"
    by (simp_all add: newest_runs_def AddWriteAheadLog_def)
  ultimately show ?thesis
    using t by (simp add: db_view_def index_view_def wal_paths_def split: option.split)
qed

text \<open>States of logs do not matter to the view.\<close>

lemma db_view_states:
  assumes ok: "db_ok d" and g: "\<And>w. SeqNo (g w) = SeqNo w" "\<And>w. Attrs (g w) = Attrs w"
  shows "db_view tbl w (d\<lparr>write_ahead_logs := map g (write_ahead_logs d)\<rparr>) k = db_view tbl w d k"
proof -
  let ?logs = "write_ahead_logs d"
  have "sort_key SeqNo (map g ?logs) = map g (sort_key SeqNo ?logs)"
  proof (rule sorted_map_unique [where f = SeqNo])
    show "distinct (map SeqNo (sort_key SeqNo (map g ?logs)))"
      unfolding distinct_map_sort_key using ok by (simp add: comp_def g db_ok_def)
  qed (simp_all add: comp_def g)
  then have "wal_paths (newest_logs (d\<lparr>write_ahead_logs := map g ?logs\<rparr>)) = wal_paths (newest_logs d)"
    by (simp add: newest_logs_def wal_paths_def rev_map comp_def g)
  then show ?thesis by (simp add: db_view_def index_view_def newest_runs_def)
qed

section \<open>The invariant\<close>

text \<open>Of the tables and the queue: the logs are those of the jobs, in the order of the jobs, and then
  the new ones.\<close>

definition rows_inv :: "DB \<Rightarrow> (job_id \<times> WriteAheadLog list) list \<Rightarrow> bool" where
  "rows_inv d js \<longleftrightarrow>
     db_ok d \<and> sorted (map SeqNo (write_ahead_logs d)) \<and> partitions d = partitions migrated \<and>
     distinct (map fst js) \<and> list_all (\<lambda>j. snd j \<noteq> []) js \<and>
     (\<exists>news. write_ahead_logs d = map mark_row (concat (map snd js)) @ news \<and>
        list_all (\<lambda>w. State w = ''NEW'') news)"

text \<open>Of the tables and the store: every object a row names is there, under an id generated.\<close>

definition used :: "string list \<Rightarrow> string set" where
  "used us = wal_path ` set us \<union> run_path ` set us"

definition objects_inv :: "(string \<Rightarrow> Record list option) \<Rightarrow> string list \<Rightarrow> DB \<Rightarrow> bool" where
  "objects_inv T us d \<longleftrightarrow> (\<forall>p \<in> refs d. T p \<noteq> None \<and> p \<in> used us)"

definition sys_inv where
  "sys_inv contents pending s \<longleftrightarrow>
     rows_inv (sys_db s) (pending (sys_queue s)) \<and>
     objects_inv (stored_table contents (sys_store s)) (sys_uuids s) (sys_db s) \<and>
     (\<forall>k. db_view (stored_table contents) (sys_store s) (sys_db s) k =
        value_of (newest (rev (committed s)) k))"

lemma mark_row_simps [simp]:
  "SeqNo (mark_row w) = SeqNo w" "Attrs (mark_row w) = Attrs w" "State (mark_row w) = ''COMPACTING''"
  by (simp_all add: mark_row_def)

lemma paths_differ [simp]: "wal_path u \<noteq> run_path v" "run_path v \<noteq> wal_path u"
  "run_path u = run_path v \<longleftrightarrow> u = v" "wal_path u = wal_path v \<longleftrightarrow> u = v"
  by (simp_all add: wal_path_def run_path_def)

lemma used_simps [simp]: "used [] = {}" "used (u # us) = {wal_path u, run_path u} \<union> used us"
  by (auto simp: used_def)

lemma fresh_path_unused: "uuid \<notin> set us \<Longrightarrow> wal_path uuid \<notin> used us \<and> run_path uuid \<notin> used us"
  by (auto simp: used_def)

lemma objects_inv_later:
  "objects_inv T us d \<Longrightarrow> \<forall>p \<in> used us. T' p = T p \<Longrightarrow> used us \<subseteq> used us' \<Longrightarrow> objects_inv T' us' d"
  by (auto simp: objects_inv_def)

lemma stored_table_same:
  "contents b' p = contents b p \<Longrightarrow> stored_table contents b' p = stored_table contents b p"
  by (simp add: stored_table_def)

lemma stored_table_new:
  assumes "contents b p = Some (WriteRecords t)" and "small_object contents b p"
    and "distinct (map Key t)"
  shows "stored_table contents b p = Some (map stored t)"
  using assms by (simp add: stored_table_def small_object_def table_of_WriteRecords)

lemma refs_AddWriteAheadLog: "refs (AddWriteAheadLog a d) = insert (Path a) (refs d)"
  by (auto simp: refs_def AddWriteAheadLog_def wal_paths_def)

lemma refs_compacted: "refs (compacted p ns d) \<subseteq> insert p (refs d)"
  by (auto simp: refs_def compacted_def DeleteWriteAheadLogs_def AddSharedRun_def Let_def
      wal_paths_def shared_paths_def)

lemma refs_states:
  "(\<And>w. Attrs (g w) = Attrs w) \<Longrightarrow>
   refs (d\<lparr>write_ahead_logs := map g (write_ahead_logs d)\<rparr>) = refs d"
  by (auto simp: refs_def wal_paths_def)

subsection \<open>Rows\<close>

lemma rows_inv_insert:
  assumes "rows_inv d js"
  shows "rows_inv (AddWriteAheadLog a d) js"
proof -
  obtain news where news: "write_ahead_logs d = map mark_row (concat (map snd js)) @ news"
    "list_all (\<lambda>w. State w = ''NEW'') news"
    using assms by (auto simp: rows_inv_def)
  have "\<exists>news. write_ahead_logs (AddWriteAheadLog a d) = map mark_row (concat (map snd js)) @ news \<and>
      list_all (\<lambda>w. State w = ''NEW'') news"
    using news by (intro exI [of _ "news @ [new_log (wal_seq d) a]"])
      (simp add: AddWriteAheadLog_def new_log_def)
  moreover have "sorted (map SeqNo (write_ahead_logs (AddWriteAheadLog a d)))"
    using assms by (auto simp: rows_inv_def AddWriteAheadLog_def sorted_append db_ok_def
        list_all_iff intro: less_imp_le)
  moreover have "partitions (AddWriteAheadLog a d) = partitions d" by (simp add: AddWriteAheadLog_def)
  ultimately show ?thesis using assms db_ok_AddWriteAheadLog by (simp add: rows_inv_def)
qed

text \<open>The split of the logs into the jobs' and the new ones.\<close>

lemma rows_inv_news:
  assumes "rows_inv d js"
  obtains news where "write_ahead_logs d = map mark_row (concat (map snd js)) @ news"
    "GetWriteAheadLogsToCompact d = news" "list_all (\<lambda>w. State w = ''NEW'') news"
proof -
  obtain news where news: "write_ahead_logs d = map mark_row (concat (map snd js)) @ news"
    "list_all (\<lambda>w. State w = ''NEW'') news"
    using assms unfolding rows_inv_def by blast
  have "filter (\<lambda>w. State w = ''NEW'') news = news" using news(2) by (simp add: filter_id_conv list_all_iff)
  moreover have "filter (\<lambda>w. State w = ''NEW'') (map mark_row ws) = []" for ws
    by (simp add: filter_empty_conv)
  ultimately show ?thesis
    using that [OF news(1)] news by (simp add: GetWriteAheadLogsToCompact_def)
qed

text \<open>A schedule changes states of logs at most.\<close>

lemma rows_inv_schedule:
  assumes jq: "job_queue insert_tx complete_tx pending" and inv: "rows_inv d (pending q)"
    and cfg: "1 \<le> MinWALsToCompact cfg"
    and ws: "ws = take n (GetWriteAheadLogsToCompact d)"
    and m: "maybeCompactWAL cfg insert_tx faults ws (d, q) = (r, (d', q'))"
  shows "rows_inv d' (pending q') \<and>
    (\<exists>g. d' = d\<lparr>write_ahead_logs := map g (write_ahead_logs d)\<rparr> \<and>
       (\<forall>w. SeqNo (g w) = SeqNo w \<and> Attrs (g w) = Attrs w))"
proof -
  obtain all where all: "write_ahead_logs d = map mark_row (concat (map snd (pending q))) @ all"
    "GetWriteAheadLogsToCompact d = all" "list_all (\<lambda>w. State w = ''NEW'') all"
    using rows_inv_news [OF inv] .
  let ?rest = "drop n all"
  have logs0: "write_ahead_logs d = map mark_row (concat (map snd (pending q))) @ ws @ ?rest"
    using all by (simp add: ws)
  have new: "list_all (\<lambda>w. State w = ''NEW'') ws" "list_all (\<lambda>w. State w = ''NEW'') ?rest"
    using all(3) by (auto simp: ws all(2) list_all_iff dest: in_set_takeD in_set_dropD)
  from maybeCompactWAL_cases [OF m] consider "d' = d" "q' = q"
    | "MinWALsToCompact cfg \<le> int (length ws)"
      "d' = snd (MarkWriteAheadLogsAsCompacting (map SeqNo ws) d)" "insert_tx ws q = Inr q'"
    by auto
  then show ?thesis
  proof cases
    case 1
    then show ?thesis using inv by (auto intro!: exI [of _ id])
  next
    case 2
    have ok: "db_ok d" and srt: "sorted (map SeqNo (write_ahead_logs d))"
      using inv by (simp_all add: rows_inv_def)
    let ?g = "\<lambda>w. if SeqNo w \<in> set (map SeqNo ws) then w\<lparr>State := ''COMPACTING''\<rparr> else w"
    have dist: "distinct (map SeqNo (write_ahead_logs d))" using ok by (simp add: db_ok_def)
    have ne: "ws \<noteq> []" using 2(1) cfg by auto
    have "all_in_state d (map SeqNo ws) ''NEW''"
      using logs0 new ne dist by (auto simp: all_in_state_iff list_all_iff intro!: bexI)
    then have d': "d' = d\<lparr>write_ahead_logs := map ?g (write_ahead_logs d)\<rparr>"
      using 2(2) by (simp add: Mark_eq [OF ok])
    have old: "map ?g (map mark_row (concat (map snd (pending q)))) =
        map mark_row (concat (map snd (pending q)))"
      using dist unfolding logs0 by (intro map_idI) auto
    have old': "map ?g ?rest = ?rest" using dist unfolding logs0 by (intro map_idI) auto
    have marked: "map ?g ws = map mark_row ws" by (simp add: mark_row_def)
    from job_queue.insert_pending [OF jq 2(3)] obtain i where
      i: "i \<notin> fst ` set (pending q)" "pending q' = pending q @ [(i, ws)]" by blast
    have "write_ahead_logs d' = map mark_row (concat (map snd (pending q'))) @ ?rest"
      unfolding d' i(2) using old old' marked by (simp add: logs0)
    moreover have "map SeqNo (write_ahead_logs d') = map SeqNo (write_ahead_logs d)"
      by (simp add: d' comp_def if_distrib cong: if_cong)
    moreover have "db_ok d'" using db_ok_Mark [OF ok] 2(2) by simp
    ultimately have "rows_inv d' (pending q')"
      using inv i ne new srt unfolding rows_inv_def by (auto simp: d')
    then show ?thesis unfolding d' by (intro conjI exI [of _ ?g]) simp_all
  qed
qed

lemma sorted_prefix_less:
  assumes "sorted (map f (xs @ ys))" and "distinct (map f (xs @ ys))" and "x \<in> set xs" and "y \<in> set ys"
  shows "f x < (f y :: 'k::linorder)"
  using assms by (fastforce simp: sorted_append order.strict_iff_order)

text \<open>The logs of the job scheduled first are the oldest, in order.\<close>

lemma rows_inv_first_job:
  assumes inv: "rows_inv d ((i, ws) # js)"
  shows "job_matches ws d" and "distinct (map SeqNo ws)" and "sort_key SeqNo ws = ws"
    and "w \<in> set (write_ahead_logs d) \<Longrightarrow> SeqNo w \<notin> set (map SeqNo ws) \<Longrightarrow> w' \<in> set ws \<Longrightarrow>
      SeqNo w' < SeqNo w"
proof -
  obtain rest where logs: "write_ahead_logs d = map mark_row ws @ rest"
    using inv by (auto simp: rows_inv_def)
  have dist: "distinct (map SeqNo (write_ahead_logs d))"
    and sorted: "sorted (map SeqNo (write_ahead_logs d))" and ne: "ws \<noteq> []"
    using inv by (auto simp: rows_inv_def db_ok_def)
  show wsd: "distinct (map SeqNo ws)" using dist unfolding logs by (simp add: comp_def)
  show "job_matches ws d" using ne wsd by (auto simp: job_matches_def list_all_iff logs mark_row_def)
  have "sorted (map SeqNo ws)" using sorted unfolding logs by (simp add: comp_def sorted_append)
  then show "sort_key SeqNo ws = ws" by (rule sort_key_id_if_sorted)
  assume "w \<in> set (write_ahead_logs d)" "SeqNo w \<notin> set (map SeqNo ws)" "w' \<in> set ws"
  then have "SeqNo (mark_row w') < SeqNo w"
    by (intro sorted_prefix_less [OF sorted [unfolded logs] dist [unfolded logs]]) (auto simp: logs)
  then show "SeqNo w' < SeqNo w" by simp
qed

text \<open>Its transaction deletes exactly these, adds the run and completes the job.\<close>

lemma rows_inv_commit:
  assumes jq: "job_queue insert_tx complete_tx pending" and inv: "rows_inv d (pending q)"
    and job: "pending q = (i, ws) # js" and q': "complete_tx i q = Inr q'"
    and ns: "mset ns = mset (map SeqNo ws)" and d': "d' = compacted p ns d"
  shows "rows_inv d' (pending q')" and "write_ahead_logs d = map mark_row ws @ write_ahead_logs d'"
    and "\<exists>ls. d' = (AddSharedRun \<lparr>RunPath = p\<rparr> d)\<lparr>write_ahead_logs := ls\<rparr>"
proof -
  obtain news where logs: "write_ahead_logs d = map mark_row ws @ (map mark_row (concat (map snd js)) @ news)"
    and new: "list_all (\<lambda>w. State w = ''NEW'') news"
    using inv by (auto simp: rows_inv_def job)
  have ok: "db_ok d" and sorted: "sorted (map SeqNo (write_ahead_logs d))"
    and dist: "distinct (map SeqNo (write_ahead_logs d))" and ids: "i \<notin> fst ` set js"
    using inv by (auto simp: rows_inv_def db_ok_def job)
  have m: "job_matches ws d" by (rule rows_inv_first_job [OF inv [unfolded job]])
  have set_ns: "set ns = set (map SeqNo ws)" using ns by (rule mset_eq_setD)
  have eq: "d' = (AddSharedRun \<lparr>RunPath = p\<rparr> d)\<lparr>write_ahead_logs :=
      filter (\<lambda>w. SeqNo w \<notin> set (map SeqNo ws)) (write_ahead_logs d)\<rparr>"
    unfolding d' using compacted_eq [OF ok all_in_state_perm [OF job_matches_state [OF m] ns]] set_ns by simp
  have "filter (\<lambda>w. SeqNo w \<notin> set (map SeqNo ws)) (map mark_row ws) = []"
    by (auto simp: filter_empty_conv)
  moreover have "filter (\<lambda>w. SeqNo w \<notin> set (map SeqNo ws)) rest = rest"
    if "rest = map mark_row (concat (map snd js)) @ news" for rest
    using dist unfolding logs that [symmetric] by (auto simp: filter_id_conv comp_def)
  ultimately have logs': "write_ahead_logs d' = map mark_row (concat (map snd js)) @ news"
    unfolding eq logs by simp
  then show "write_ahead_logs d = map mark_row ws @ write_ahead_logs d'" using logs by simp
  have q'': "pending q' = js"
    using job_queue.complete_pending [OF jq q'] ids job by (auto simp: filter_id_conv rev_image_eqI)
  have "sorted (map SeqNo (write_ahead_logs d'))" unfolding eq using sorted by (simp add: sorted_filter)
  moreover have "db_ok d'" unfolding d' by (rule db_ok_compacted [OF ok])
  moreover have "partitions d' = partitions d" by (simp add: eq AddSharedRun_def)
  ultimately show "rows_inv d' (pending q')"
    using inv new logs' by (auto simp: rows_inv_def q'' job)
  show "\<exists>ls. d' = (AddSharedRun \<lparr>RunPath = p\<rparr> d)\<lparr>write_ahead_logs := ls\<rparr>" using eq by blast
qed

subsection \<open>Steps\<close>

lemma sys_write_cases:
  assumes os: "object_store upload fetch contents" and s': "s' = sys_write srt upload uuid now records outcome s"
  shows "sys_queue s' = sys_queue s \<and> sys_uuids s' = uuid # sys_uuids s \<and>
    (\<forall>q. q \<noteq> wal_path uuid \<longrightarrow> contents (sys_store s') q = contents (sys_store s) q) \<and>
    (sys_db s' = sys_db s \<and> committed s' = committed s \<or>
     (\<exists>a. sys_db s' = AddWriteAheadLog a (sys_db s) \<and> Path a = wal_path uuid \<and>
        contents (sys_store s') (wal_path uuid) = Some (WriteRecords (batch_table srt records)) \<and>
        committed s' = committed s @ [batch_table srt records]))"
proof -
  let ?c = "\<lparr>outcomes = [outcome], database = sys_db s\<rparr>" and ?t = "batch_table srt records"
  let ?a = "batch_attrs uuid now ?t"
  obtain r b where up: "upload_batch srt upload uuid records (sys_store s) = (r, b)" by fastforce
  have other: "contents b q = contents (sys_store s) q" if "q \<noteq> wal_path uuid" for q
    using upload_batch_other [OF os that, of srt records "sys_store s"] up by simp
  show ?thesis
  proof (cases r)
    case (Some e)
    then show ?thesis using up other by (simp add: s' sys_write_def writeBatch_def commit_batch_def)
  next
    case None
    have stored: "contents b (wal_path uuid) = Some (WriteRecords ?t)"
      using upload_batch_ok [OF os] up None by fastforce
    obtain r2 c2 where ins: "insert_batch srt Queries_AddWriteAheadLog uuid now records ?c = (r2, c2)"
      by fastforce
    have "c2 = snd (Queries_AddWriteAheadLog ?a ?c)"
      using insert_batch_snd [of srt Queries_AddWriteAheadLog uuid now records ?c] ins by simp
    then have "database c2 = sys_db s \<or> database c2 = AddWriteAheadLog ?a (sys_db s)"
      by (rule_tac Queries_AddWriteAheadLog_cases [of ?a ?c]) auto
    moreover have "write_ahead_logs (AddWriteAheadLog ?a (sys_db s)) \<noteq> write_ahead_logs (sys_db s)"
      by (simp add: AddWriteAheadLog_def)
    moreover have "Path ?a = wal_path uuid" by (simp add: batch_attrs_def)
    ultimately show ?thesis
      using up None ins other stored
      by (auto simp: s' sys_write_def writeBatch_def commit_batch_def)
  qed
qed

lemma sys_inv_write:
  assumes os: "object_store upload fetch contents" and srt: "slice_sort srt"
    and inv: "sys_inv contents pending s" and fresh: "uuid \<notin> set (sys_uuids s)"
    and s': "s' = sys_write srt upload uuid now records outcome s"
    and small: "small_object contents (sys_store s') (wal_path uuid)"
  shows "sys_inv contents pending s'"
proof -
  let ?d = "sys_db s" and ?t = "batch_table srt records" and ?tbl = "stored_table contents"
  note c = sys_write_cases [OF os s']
  have q: "sys_queue s' = sys_queue s" and u: "sys_uuids s' = uuid # sys_uuids s"
    and other: "\<And>p. p \<noteq> wal_path uuid \<Longrightarrow> contents (sys_store s') p = contents (sys_store s) p"
    using c by auto
  have rows: "rows_inv ?d (pending (sys_queue s))" and objs: "objects_inv (?tbl (sys_store s)) (sys_uuids s) ?d"
    using inv by (simp_all add: sys_inv_def)
  have same: "\<forall>p \<in> used (sys_uuids s). ?tbl (sys_store s') p = ?tbl (sys_store s) p"
    using fresh_path_unused [OF fresh] by (auto intro!: stored_table_same other)
  have objs': "objects_inv (?tbl (sys_store s')) (sys_uuids s') ?d"
    by (rule objects_inv_later [OF objs same]) (auto simp: u)
  have "\<forall>p \<in> refs ?d. ?tbl (sys_store s') p = ?tbl (sys_store s) p"
    using objs same by (auto simp: objects_inv_def)
  note view = db_view_same [where tbl = "stored_table contents", OF this]
  from c consider "sys_db s' = ?d" "committed s' = committed s"
    | a where "sys_db s' = AddWriteAheadLog a ?d" "Path a = wal_path uuid"
      "contents (sys_store s') (wal_path uuid) = Some (WriteRecords ?t)"
      "committed s' = committed s @ [?t]" by blast
  then show ?thesis
  proof cases
    case 1
    then show ?thesis using inv objs' view q by (simp add: sys_inv_def)
  next
    case 2
    have "distinct (map Key ?t)" using batch_table_strict [OF srt] by (simp add: strict_sorted_iff)
    then have t: "?tbl (sys_store s') (Path a) = Some (map stored ?t)"
      using stored_table_new [OF 2(3) small] 2(2) by simp
    have ok: "db_ok ?d" using rows by (simp add: rows_inv_def)
    have "db_view ?tbl (sys_store s') (sys_db s') k = value_of (newest (rev (committed s')) k)" for k
      using inv view unfolding 2(1,4) db_view_new_log [OF ok, where tbl = ?tbl, OF t]
      by (simp add: sys_inv_def split: option.split)
    moreover have "objects_inv (?tbl (sys_store s')) (sys_uuids s') (sys_db s')"
      using objs' t by (auto simp: objects_inv_def 2(1,2) refs_AddWriteAheadLog u)
    ultimately show ?thesis using rows_inv_insert [OF rows] by (simp add: sys_inv_def 2(1) q)
  qed
qed

lemma sys_inv_schedule:
  assumes jq: "job_queue insert_tx complete_tx pending" and inv: "sys_inv contents pending s"
    and cfg: "1 \<le> MinWALsToCompact cfg"
    and ws: "ws = take n (GetWriteAheadLogsToCompact (sys_db s))"
    and s': "s' = sys_schedule cfg insert_tx faults ws s"
  shows "sys_inv contents pending s'"
proof -
  obtain r d' q' where m: "maybeCompactWAL cfg insert_tx faults ws (sys_db s, sys_queue s) = (r, (d', q'))"
    by (metis prod.exhaust)
  have s1: "s' = s\<lparr>sys_db := d', sys_queue := q'\<rparr>" using s' m by (simp add: sys_schedule_def)
  have rows: "rows_inv (sys_db s) (pending (sys_queue s))" using inv by (simp add: sys_inv_def)
  obtain g where "rows_inv d' (pending q')" "\<And>w. SeqNo (g w) = SeqNo w" "\<And>w. Attrs (g w) = Attrs w"
    "d' = (sys_db s)\<lparr>write_ahead_logs := map g (write_ahead_logs (sys_db s))\<rparr>"
    using rows_inv_schedule [OF jq rows cfg ws m] by blast
  moreover have "db_ok (sys_db s)" using rows by (simp add: rows_inv_def)
  ultimately show ?thesis
    using inv by (simp add: sys_inv_def s1 objects_inv_def refs_states db_view_states)
qed

lemma sys_inv_work:
  assumes os: "object_store upload fetch contents" and jq: "job_queue insert_tx complete_tx pending"
    and srt: "slice_sort srtW" "slice_sort srtR"
    and inv: "sys_inv contents pending s" and fresh: "uuid \<notin> set (sys_uuids s)"
    and job: "pending (sys_queue s) = (i, ws) # jobs"
    and s': "s' = sys_work srtW srtR fetch upload complete_tx faults uuid i ws s"
    and small: "small_object contents (sys_store s') (run_path uuid)"
  shows "sys_inv contents pending s'"
proof -
  let ?d = "sys_db s" and ?q = "sys_queue s" and ?b = "sys_store s" and ?p = "run_path uuid"
  let ?tbl = "stored_table contents" and ?j = "\<lparr>JobID = i, Args = \<lparr>WALs = ws\<rparr>\<rparr>"
  let ?ws = "srtW (\<lambda>a b. SeqNo a > SeqNo b) ws"
  have rows: "rows_inv ?d (pending ?q)" and objs: "objects_inv (?tbl ?b) (sys_uuids s) ?d"
    and ok: "db_ok ?d"
    using inv by (simp_all add: sys_inv_def rows_inv_def)
  note first = rows_inv_first_job [OF rows [unfolded job]]
  have ws': "?ws = rev (sort_key SeqNo ws)"
    by (rule slice_sort.srt_distinct_keys_desc [OF srt(1) first(2)])
  obtain r b' where c: "compact_objects srtW srtR fetch upload uuid ?j ?b = (r, b')" by fastforce
  have other: "contents b' q = contents ?b q" if "q \<noteq> ?p" for q
    using compact_objects_other [OF os that, of srtW srtR ?j ?b] c by simp
  have same: "\<forall>p \<in> used (sys_uuids s). ?tbl b' p = ?tbl ?b p"
    using fresh_path_unused [OF fresh] by (auto intro!: stored_table_same other)
  have objs': "objects_inv (?tbl b') (uuid # sys_uuids s) ?d"
    by (rule objects_inv_later [OF objs same]) auto
  have "\<forall>p \<in> refs ?d. ?tbl b' p = ?tbl ?b p" using objs same by (auto simp: objects_inv_def)
  note view = db_view_same [where tbl = ?tbl, OF this]
  have store_only: "sys_inv contents pending (s\<lparr>sys_store := b', sys_uuids := uuid # sys_uuids s\<rparr>)"
    using inv objs' view by (simp add: sys_inv_def)
  show ?thesis
  proof (cases r)
    case (Some e)
    then show ?thesis using store_only c by (simp add: s' sys_work_def Work_def)
  next
    case None
    obtain r2 d' q' where tx: "compaction_tx complete_tx faults i ?p (map SeqNo ?ws) (?d, ?q) = (r2, (d', q'))"
      by (metis prod.exhaust)
    have s1: "s' = s\<lparr>sys_store := b', sys_db := d', sys_queue := q', sys_uuids := uuid # sys_uuids s\<rparr>"
      using c None tx by (simp add: s' sys_work_def Work_def)
    from compaction_tx_cases(1) [OF tx] consider "d' = ?d" "q' = ?q"
      | "d' = compacted ?p (map SeqNo ?ws) ?d" "complete_tx i ?q = Inr q'" by auto
    then show ?thesis
    proof cases
      case 1
      then show ?thesis using store_only s1 by simp
    next
      case 2
      have ms: "mset (map SeqNo ?ws) = mset (map SeqNo ws)" by (simp add: ws')
      have nref: "?p \<notin> refs ?d" using objs fresh_path_unused [OF fresh] by (auto simp: objects_inv_def)
      have "set (wal_paths ?ws) \<subseteq> refs ?d"
        using rows_inv_commit(2) [OF jq rows job 2(2) ms 2(1)] by (auto simp: ws' refs_def wal_paths_def)
      then have all: "all_tables ?tbl ?b (wal_paths ?ws)"
        using objs by (auto simp: all_tables_def list_all_iff objects_inv_def)
      from compact_objects_ok [OF os srt(2) c [unfolded None] _ all] obtain recs where
        recs: "contents b' = (contents ?b)(?p \<mapsto> WriteRecords recs)" "sorted_wrt (<) (map Key recs)"
        "\<And>k. entry recs k = newest (tables ?tbl ?b (wal_paths ?ws)) k" by auto
      have t: "?tbl b' ?p = Some (map stored recs)"
        using recs(1,2) small by (intro stored_table_new) (simp_all add: s1 strict_sorted_iff)
      have "db_view ?tbl b' d' k = db_view ?tbl ?b ?d k" for k
        unfolding 2(1)
        by (rule compaction_keeps_view [where tbl = ?tbl, OF ok first(1) _ t _ _ _ ms])
          (use recs(3) nref other first(4) in \<open>auto simp: ws' refs_def intro: stored_table_same\<close>)
      moreover have "objects_inv (?tbl b') (uuid # sys_uuids s) d'"
        using objs' t refs_compacted [of ?p "map SeqNo ?ws" ?d] by (auto simp: objects_inv_def 2(1))
      ultimately show ?thesis
        using inv rows_inv_commit(1) [OF jq rows job 2(2) ms 2(1)] by (simp add: sys_inv_def s1)
    qed
  qed
qed

lemma rows_inv_start: "rows_inv migrated []"
  by (simp add: rows_inv_def db_ok_migrated) (simp add: migrated_def)

lemma objects_inv_start: "objects_inv T us migrated"
  by (simp add: objects_inv_def refs_def migrated_def wal_paths_def shared_paths_def run_paths_def)

lemma sys_inv_start:
  assumes "pending q = []"
  shows "sys_inv contents pending
    \<lparr>sys_store = b, sys_db = migrated, sys_queue = q, sys_uuids = [], committed = []\<rparr>"
proof -
  have "owner [\<lparr>InclusiveStartKey = '''', PartitionRowAttrs = \<lparr>Runs = []\<rparr>\<rparr>] k =
      Some \<lparr>InclusiveStartKey = '''', PartitionRowAttrs = \<lparr>Runs = []\<rparr>\<rparr>" for k
    by (simp add: owner_def)
  then have "db_view (stored_table contents) b migrated k = None" for k
    by (simp add: db_view_def index_view_def newest_logs_def newest_runs_def migrated_def wal_paths_def
        shared_paths_def run_paths_def)
  then show ?thesis by (simp add: sys_inv_def assms rows_inv_start objects_inv_start)
qed

lemma sys_inv_reachable:
  assumes "object_store upload fetch contents" and "job_queue insert_tx complete_tx pending"
    and "slice_sort srtW" and "slice_sort srtR" and "1 \<le> MinWALsToCompact cfg" and "pending q = []"
    and "sys_reachable srtW srtR fetch upload contents insert_tx complete_tx pending cfg b q s"
  shows "sys_inv contents pending s"
  using assms(7)
proof induction
  case start
  show ?case using assms(6) by (rule sys_inv_start)
next
  case (written s uuid s' now records outcome)
  then show ?case using sys_inv_write [OF assms(1,4)] by blast
next
  case (scheduled s ws n s' faults)
  then show ?case using sys_inv_schedule [OF assms(2) _ assms(5)] by blast
next
  case (worked s uuid i ws jobs s' faults)
  then show ?case using sys_inv_work [OF assms(1-4)] by blast
qed

section \<open>Reads\<close>

text \<open>An index whose three lists have just been refreshed.\<close>

definition refreshed ::
  "WriteAheadLog sorter \<Rightarrow> SharedRun sorter \<Rightarrow> Partition sorter \<Rightarrow> DB \<Rightarrow> index_handler \<Rightarrow> index_handler"
where
  "refreshed srtW srtS srtP d h =
     snd (updatePartitions srtP (Inr (GetPartitions d))
       (snd (updateSharedRuns srtS (Inr (GetSharedRuns d))
         (snd (updateWALs srtW (Inr (GetWriteAheadLogs d)) h)))))"

lemma refreshed_lists:
  assumes "slice_sort srtW" and "slice_sort srtS" and "slice_sort srtP" and ok: "db_ok d"
    and p: "partitions d = partitions migrated"
  shows "wals (refreshed srtW srtS srtP d h) = Some (newest_logs d)"
    and "sharedRuns (refreshed srtW srtS srtP d h) = Some (newest_runs d)"
    and "parts (refreshed srtW srtS srtP d h) = Some (sort_key InclusiveStartKey (partitions d))"
  using slice_sort.srt_distinct_keys_desc [OF assms(1), of SeqNo "write_ahead_logs d"]
    slice_sort.srt_distinct_keys_desc [OF assms(2), of RunSeqNo "shared_runs d"]
    slice_sort.srt_distinct_keys [OF assms(3), of InclusiveStartKey "partitions d"] ok p
  by (simp_all add: refreshed_def updateWALs_def updateSharedRuns_def updatePartitions_def
      GetWriteAheadLogs_def GetSharedRuns_def GetPartitions_def db_ok_def newest_logs_def
      newest_runs_def migrated_def)

lemma sources_stored_refs:
  assumes "\<forall>p \<in> refs d. tbl w p \<noteq> None"
  shows "sources_stored tbl w (newest_logs d) (newest_runs d) (sort_key InclusiveStartKey (partitions d))"
  using assms
  by (auto simp: sources_stored_def all_tables_def list_all_iff refs_def newest_logs_def newest_runs_def
      wal_paths_def shared_paths_def)

section \<open>Properties\<close>

text \<open>The write path loses and reorders nothing: after any interleaving of batches written,
  compactions scheduled and jobs worked off in the order they were scheduled, with any faults on the
  way, every key reads as in the batches whose rows were added, applied one after the other: the
  value of the last batch that has the key, or nothing if that batch deleted it.\<close>

lemma view_is_last_write:
  assumes "object_store upload fetch contents" and "job_queue insert_tx complete_tx pending"
    and "slice_sort srtW" and "slice_sort srtR" and "1 \<le> MinWALsToCompact cfg" and "pending q = []"
    and "sys_reachable srtW srtR fetch upload contents insert_tx complete_tx pending cfg b q s"
  shows "db_view (stored_table contents) (sys_store s) (sys_db s) k =
    value_of (newest (rev (committed s)) k)"
  using sys_inv_reachable [OF assms] unfolding sys_inv_def by blast

text \<open>Reads see the last write, through the whole service: an index that has refreshed its lists
  in any reachable state of the write path, over cache services that serve the same objects, answers
  \<^verbatim>\<open>BatchGet\<close>, when it answers, with the last committed value of each requested key.\<close>

lemma batch_get_reads_last_write:
  assumes "object_store upload fetch contents" and "job_queue insert_tx complete_tx pending"
    and "slice_sort srtW" and "slice_sort srtR" and "1 \<le> MinWALsToCompact cfg" and "pending q = []"
    and "sys_reachable srtW srtR fetch upload contents insert_tx complete_tx pending cfg b q s"
    and "slice_sort srtW'" and "slice_sort srtS" and "slice_sort srtP"
    and "cache_service call tbl valid" and "valid w"
    and "\<forall>p. p \<noteq> [] \<longrightarrow> tbl w p = stored_table contents (sys_store s) p"
    and "BatchGet hash call (refreshed srtW' srtS srtP (sys_db s) h) keys w = (Inr resp, w')"
  shows "map_of resp k = (if k \<in> set keys then value_of (newest (rev (committed s)) k) else None)"
proof -
  let ?d = "sys_db s"
  have inv: "sys_inv contents pending s" by (rule sys_inv_reachable [OF assms(1-7)])
  then have refs: "\<forall>p \<in> refs ?d. stored_table contents (sys_store s) p \<noteq> None \<and> p \<noteq> []"
    and ok: "db_ok ?d" and parts: "partitions ?d = partitions migrated"
    and v: "db_view (stored_table contents) (sys_store s) ?d k = value_of (newest (rev (committed s)) k)"
    by (auto simp: sys_inv_def rows_inv_def objects_inv_def used_def wal_path_def run_path_def)
  then have "sources_stored tbl w (newest_logs ?d) (newest_runs ?d)
      (sort_key InclusiveStartKey (partitions ?d))"
    using assms(13) by (intro sources_stored_refs) simp
  note get = BatchGet_ok [OF assms(11,12) refreshed_lists [OF assms(8-10) ok parts] this _ assms(14)]
  have "db_view tbl w ?d k = db_view (stored_table contents) (sys_store s) ?d k"
    using refs assms(13) by (intro db_view_agree) simp
  then show ?thesis using get v by (simp add: db_view_def)
qed

section \<open>Runs\<close>

definition one_log_config :: OrchestratorConfig where
  "one_log_config = \<lparr>OrchestratorEnabled = True, MinWALsToCompact = 1\<rparr>"

definition run_start :: "(mem_bucket, queue) system" where
  "run_start = \<lparr>sys_store = empty_bucket, sys_db = migrated, sys_queue = \<lparr>queued = [], next_id = 0\<rparr>,
     sys_uuids = [], committed = []\<rparr>"

definition run_write :: "string \<Rightarrow> Record list \<Rightarrow> (mem_bucket, queue) system \<Rightarrow> (mem_bucket, queue) system" where
  "run_write uuid rs = sys_write insertion_sort mem_upload uuid 0 rs Served"

definition run_schedule :: "(mem_bucket, queue) system \<Rightarrow> (mem_bucket, queue) system" where
  "run_schedule s =
     sys_schedule one_log_config queue_insert no_faults (GetWriteAheadLogsToCompact (sys_db s)) s"

definition run_work ::
  "string \<Rightarrow> job_id \<Rightarrow> WriteAheadLog list \<Rightarrow> (mem_bucket, queue) system \<Rightarrow> (mem_bucket, queue) system"
where
  "run_work uuid i ws =
     sys_work insertion_sort insertion_sort mem_fetch mem_upload queue_complete no_faults uuid i ws"

definition put_object :: "string \<Rightarrow> Record list \<Rightarrow> mem_bucket \<Rightarrow> mem_bucket" where
  "put_object p rs b = \<lparr>script = [], objects = AList.update p (WriteRecords rs) (objects b)\<rparr>"

definition tiny :: "Record list set" where
  "tiny = {one_record, old_record}"

lemma tiny_simps [simp]:
  assumes "t \<in> tiny"
  shows "batch_table insertion_sort t = t" "t \<noteq> []" "collect (WriteRecords t) = (t, Returned)"
    "table_of (WriteRecords t) = Some t" "merged_records insertion_sort (kept [] t) = t"
proof -
  show "batch_table insertion_sort t = t" "t \<noteq> []" "merged_records insertion_sort (kept [] t) = t"
    using assms by (auto simp: tiny_def batch_table_def dedup_def insertion_sort_def merged_records_def
        kept_def keep_first_def one_record_def old_record_def)
  show "collect (WriteRecords t) = (t, Returned)" "table_of (WriteRecords t) = Some t"
    using assms by (auto simp: tiny_def)
qed

lemma tiny_members [simp]: "one_record \<in> tiny" "old_record \<in> tiny"
  by (simp_all add: tiny_def)

lemma tiny_length [simp]: "t \<in> tiny \<Longrightarrow> length (WriteRecords t) < 2 ^ 63"
  by (auto simp: tiny_def one_record_def old_record_def WriteRecords_concat length_write_record
      key_len_def value_len_def tombstoneBit_def currentVersion_def put_uvarint_length [symmetric]
      put_uvarint.simps)

lemma tiny_entries [simp]: "entry one_record ''k'' = Some (Some [1])" "entry old_record ''k'' = Some (Some [9])"
  by (simp_all add: one_record_def old_record_def)

lemma tiny_int_length: "t \<in> tiny \<Longrightarrow> go_int (int (length (WriteRecords t))) = int (length (WriteRecords t))"
  using tiny_length [of t] by (intro go_int_nat) (simp add: of_nat_less_iff [symmetric] del: of_nat_less_iff)

lemma run_write_eq:
  assumes "script (sys_store s) = []" and "t \<in> tiny"
  shows "run_write uuid t s =
    s\<lparr>sys_store := put_object (wal_path uuid) t (sys_store s),
      sys_db := AddWriteAheadLog (batch_attrs uuid 0 t) (sys_db s), sys_uuids := uuid # sys_uuids s,
      committed := committed s @ [t]\<rparr>"
  using assms
  by (simp add: run_write_def sys_write_def writeBatch_def upload_batch_def insert_batch_def mem_upload_def
      Queries_AddWriteAheadLog_def commit_batch_def put_object_def AddWriteAheadLog_def)

lemma run_schedule_eq:
  assumes "GetWriteAheadLogsToCompact (sys_db s) = ws" and "ws \<noteq> []"
  shows "run_schedule s =
    s\<lparr>sys_db := snd (MarkWriteAheadLogsAsCompacting (map SeqNo ws) (sys_db s)),
      sys_queue := \<lparr>queued = queue_pending (sys_queue s) @ [(next_id (sys_queue s), ws)],
        next_id = next_id (sys_queue s) + 1\<rparr>\<rparr>"
proof -
  have "1 \<le> int (length ws)" using assms(2) by (cases ws) auto
  then show ?thesis
    unfolding run_schedule_def sys_schedule_def assms(1)
    by (subst maybeCompactWAL_no_faults) (simp_all add: one_log_config_def queue_insert_def)
qed

lemma run_work_eq:
  assumes "script (sys_store s) = []" and "t \<in> tiny"
    and "map_of (objects (sys_store s)) (Path (Attrs l)) = Some (WriteRecords t)"
    and "queue_complete i (sys_queue s) = Inr q'" and "0 \<le> SizeBytes (Attrs l)"
  shows "run_work uuid i [l] s =
    s\<lparr>sys_store := put_object (run_path uuid) t (sys_store s),
      sys_db := compacted (run_path uuid) [SeqNo l] (sys_db s), sys_queue := q',
      sys_uuids := uuid # sys_uuids s\<rparr>"
proof -
  have "insertion_sort (\<lambda>a b. SeqNo b < SeqNo a) [l] = [l]" by (simp add: insertion_sort_def)
  then show ?thesis
    using assms
    by (simp add: run_work_def sys_work_def Work_def compact_objects_def mem_fetch_def mem_upload_def
        Records_keep_first compaction_tx_def no_faults_def commit_def put_object_def split_beta
        compacted_def)
qed

definition run_row :: "int \<Rightarrow> string \<Rightarrow> string \<Rightarrow> Record list \<Rightarrow> WriteAheadLog" where
  "run_row n st uuid t = \<lparr>SeqNo = n, State = st, Attrs = batch_attrs uuid 0 t\<rparr>"

lemma run_row_simps [simp]:
  "SeqNo (run_row n st uuid t) = n" "State (run_row n st uuid t) = st"
  "Path (Attrs (run_row n st uuid t)) = wal_path uuid"
  "t \<in> tiny \<Longrightarrow> 0 \<le> SizeBytes (Attrs (run_row n st uuid t))"
  "run_row n st uuid t\<lparr>State := st'\<rparr> = run_row n st' uuid t"
  by (simp_all add: run_row_def batch_attrs_def ComputeSize_wrapped_length tiny_int_length)

definition run_db :: "WriteAheadLog list \<Rightarrow> int \<Rightarrow> SharedRun list \<Rightarrow> int \<Rightarrow> DB" where
  "run_db ws n rs m = migrated\<lparr>write_ahead_logs := ws, wal_seq := n, shared_runs := rs, run_seq := m\<rparr>"

lemma migrated_run_db: "migrated = run_db [] 1 [] 1"
  by (simp add: run_db_def migrated_def)

lemma run_db_steps [simp]:
  "AddWriteAheadLog (batch_attrs uuid 0 t) (run_db ws n rs m) =
     run_db (ws @ [run_row n ''NEW'' uuid t]) (n + 1) rs m"
  "GetWriteAheadLogsToCompact (run_db ws n rs m) = filter (\<lambda>w. State w = ''NEW'') ws"
  "write_ahead_logs (run_db ws n rs m) = ws" "shared_runs (run_db ws n rs m) = rs"
  "partitions (run_db ws n rs m) = partitions migrated"
  by (simp_all add: run_db_def AddWriteAheadLog_def run_row_def GetWriteAheadLogsToCompact_def)

lemma mark_run_db:
  "length (filter (\<lambda>w. SeqNo w = i \<and> State w = ''NEW'') ws) = 1 \<Longrightarrow>
   snd (MarkWriteAheadLogsAsCompacting [i] (run_db ws n rs m)) =
     run_db (map (\<lambda>w. if SeqNo w = i \<and> State w = ''NEW'' then w\<lparr>State := ''COMPACTING''\<rparr> else w) ws)
       n rs m"
  by (simp add: run_db_def MarkWriteAheadLogsAsCompacting_def all_exist_def)

lemma compacted_run_db:
  "length (filter (\<lambda>w. SeqNo w = i \<and> State w = ''COMPACTING'') ws) = 1 \<Longrightarrow>
   compacted p [i] (run_db ws n rs m) =
     run_db (filter (\<lambda>w. \<not> (SeqNo w = i \<and> State w = ''COMPACTING'')) ws) n
       (rs @ [\<lparr>RunSeqNo = m, RunRowAttrs = \<lparr>RunPath = p\<rparr>\<rparr>]) (m + 1)"
  by (simp add: run_db_def compacted_def DeleteWriteAheadLogs_def AddSharedRun_def all_exist_def)

lemmas run_eqs = run_write_eq run_schedule_eq run_work_eq [where t = one_record]
  run_work_eq [where t = old_record] mark_run_db compacted_run_db
  queue_pending_def queue_complete_def put_object_def

definition run_first :: "Record list \<Rightarrow> (mem_bucket, queue) system" where
  "run_first t = run_schedule (run_write ''1'' t run_start)"

lemma run_first: "t \<in> tiny \<Longrightarrow> run_first t =
    \<lparr>sys_store = put_object (wal_path ''1'') t empty_bucket,
      sys_db = run_db [run_row 1 ''COMPACTING'' ''1'' t] 2 [] 1,
      sys_queue = \<lparr>queued = [(0, [run_row 1 ''NEW'' ''1'' t])], next_id = 1\<rparr>,
      sys_uuids = [''1''], committed = [t]\<rparr>"
  by (simp add: run_first_def run_start_def empty_bucket_def migrated_run_db run_eqs)

definition run_done :: "(mem_bucket, queue) system" where
  "run_done = run_work ''2'' 0 [run_row 1 ''NEW'' ''1'' one_record] (run_first one_record)"

lemma run_done: "run_done =
    \<lparr>sys_store = put_object (run_path ''2'') one_record (put_object (wal_path ''1'') one_record empty_bucket),
      sys_db = run_db [] 2 [\<lparr>RunSeqNo = 1, RunRowAttrs = \<lparr>RunPath = run_path ''2''\<rparr>\<rparr>] 2,
      sys_queue = \<lparr>queued = [], next_id = 1\<rparr>,
      sys_uuids = [''2'', ''1''], committed = [one_record]\<rparr>"
  by (simp add: run_done_def run_first empty_bucket_def run_eqs)

lemma run_done_reachable:
  "sys_reachable insertion_sort insertion_sort mem_fetch mem_upload mem_contents queue_insert
     queue_complete queue_pending one_log_config empty_bucket \<lparr>queued = [], next_id = 0\<rparr> run_done"
proof -
  let ?R = "sys_reachable insertion_sort insertion_sort mem_fetch mem_upload mem_contents queue_insert
     queue_complete queue_pending one_log_config empty_bucket \<lparr>queued = [], next_id = 0\<rparr>"
  have "?R run_start" unfolding run_start_def by (rule sys_reachable.start)
  then have w: "?R (run_write ''1'' one_record run_start)"
    by (rule sys_reachable.written [OF _ _ run_write_def [THEN fun_cong]])
      (simp_all add: run_start_def run_write_eq empty_bucket_def small_object_def mem_contents_def
        put_object_def one_record_length [simplified])
  have f: "?R (run_first one_record)"
    unfolding run_first_def
    by (rule sys_reachable.scheduled [OF w _ run_schedule_def,
        where n = "length (GetWriteAheadLogsToCompact (sys_db (run_write ''1'' one_record run_start)))"]) simp
  show ?thesis
    by (rule sys_reachable.worked [OF f, where jobs = "[]", OF _ _ run_done_def [unfolded run_work_def]])
      (simp_all add: run_first run_done queue_pending_def small_object_def mem_contents_def put_object_def
        update_conv' one_record_length [simplified])
qed

lemma view_is_last_write_witness:
  "db_view (stored_table mem_contents) (sys_store run_done) (sys_db run_done) ''k'' = Some [1]"
  using view_is_last_write [OF mem.object_store_axioms river.job_queue_axioms
      insertion.slice_sort_axioms insertion.slice_sort_axioms _ _ run_done_reachable, of "''k''"]
  by (simp add: one_log_config_def queue_pending_def run_done one_record_def)

definition run_fleet :: fleet where
  "run_fleet = \<lparr>nodes = [(''http://a:5002'', small_cache)], bucket = sys_store run_done, network = []\<rparr>"

definition run_index :: index_handler where
  "run_index = refreshed insertion_sort insertion_sort insertion_sort (sys_db run_done)
     (demo_index [] [] [])"

lemma run_fleet_valid: "fleet_valid run_fleet"
  by (simp add: fleet_valid_def run_fleet_def small_cache(2) cache_ok_def cached_def coherent_def)

lemma run_fleet_serving: "ring_serving fleet_serving (demo_index ws rs ps) run_fleet"
  by (simp add: ring_serving_def ring_ok_def demo_index_def fleet_serving_def run_fleet_def run_done
      put_object_def)

lemma batch_get_reads_last_write_witness:
  "\<exists>resp w'. BatchGet (\<lambda>_. 0) fleet_call run_index [''k''] run_fleet = (Inr resp, w') \<and>
     map_of resp ''k'' = Some [1]"
proof -
  have tbl: "\<forall>p. p \<noteq> [] \<longrightarrow> fleet_table run_fleet p = stored_table mem_contents (sys_store run_done) p"
    by (simp add: fleet_table_def run_fleet_def stored_table_def)
  have h: "run_index = demo_index [] [\<lparr>RunSeqNo = 1, RunRowAttrs = \<lparr>RunPath = run_path ''2''\<rparr>\<rparr>]
      (demo_parts [])"
    by (simp add: run_index_def refreshed_def run_done updateWALs_def updateSharedRuns_def
        updatePartitions_def GetWriteAheadLogs_def GetSharedRuns_def GetPartitions_def insertion_sort_def
        demo_index_def demo_parts_def migrated_def)
  have stored: "sources_stored fleet_table run_fleet [] [\<lparr>RunSeqNo = 1, RunRowAttrs =
      \<lparr>RunPath = run_path ''2''\<rparr>\<rparr>] (demo_parts [])"
    by (simp add: sources_stored_def demo_parts_def run_paths_def comp_def shared_paths_def fleet_table_def
        run_path_def run_fleet_def run_done put_object_def mem_contents_def update_conv')
  obtain r w' where g: "BatchGet (\<lambda>_. 0) fleet_call run_index [''k''] run_fleet = (r, w')" by fastforce
  have "\<not> (\<exists>e. r = Inl e)"
    using BatchGet_fails_iff [OF fleet.answering_cache_service_axioms run_fleet_valid
        run_fleet_serving _ _ _ stored _ _ g [unfolded h]]
    by (simp add: h)
  then obtain resp where r: "r = Inr resp" by (cases r) auto
  have "map_of resp ''k'' = Some [1]"
    using batch_get_reads_last_write [OF mem.object_store_axioms river.job_queue_axioms
        insertion.slice_sort_axioms insertion.slice_sort_axioms _ _ run_done_reachable
        insertion.slice_sort_axioms insertion.slice_sort_axioms insertion.slice_sort_axioms
        fleet.cache_service_axioms run_fleet_valid tbl g [unfolded run_index_def r], of "''k''"]
    by (simp add: one_log_config_def queue_pending_def run_done one_record_def)
  then show ?thesis using g r by blast
qed

text \<open>An index that saw the log before its compaction and has since refreshed its logs only.\<close>

definition half_refreshed :: index_handler where
  "half_refreshed =
     snd (updateWALs insertion_sort (Inr (GetWriteAheadLogs (sys_db run_done)))
       (refreshed insertion_sort insertion_sort insertion_sort (sys_db (run_first one_record))
         (demo_index [] [] [])))"

lemma half_refreshed: "half_refreshed = demo_index [] [] (demo_parts [])"
  by (simp add: half_refreshed_def refreshed_def run_done run_first updateWALs_def updateSharedRuns_def
      updatePartitions_def GetWriteAheadLogs_def GetSharedRuns_def GetPartitions_def insertion_sort_def
      demo_index_def demo_parts_def migrated_def)

text \<open>C33. The lists of an index are not refreshed together: after a compaction an index that has
  refreshed its logs (a later write notifies it) and not yet its shared runs answers that the
  key of a committed batch does not exist, without an error.\<close>

theorem refresh_gap_loses_batch:
  "value_of (newest (rev (committed run_done)) ''k'') = Some [1] \<and>
   (\<exists>resp w'. BatchGet (\<lambda>_. 0) fleet_call half_refreshed [''k''] run_fleet = (Inr resp, w') \<and>
     map_of resp ''k'' = None)"
proof -
  have stored: "sources_stored fleet_table run_fleet [] [] (demo_parts [])"
    by (simp add: sources_stored_def demo_parts_def run_paths_def comp_def)
  obtain r w' where g: "BatchGet (\<lambda>_. 0) fleet_call half_refreshed [''k''] run_fleet = (r, w')"
    by fastforce
  have "\<not> (\<exists>e. r = Inl e)"
    using BatchGet_fails_iff [OF fleet.answering_cache_service_axioms run_fleet_valid
        run_fleet_serving _ _ _ stored _ _ g [unfolded half_refreshed]] by simp
  then obtain resp where r: "r = Inr resp" by (cases r) auto
  have "map_of resp ''k'' = None"
    using BatchGet_ok [OF fleet.cache_service_axioms run_fleet_valid _ _ _ stored _
        g [unfolded half_refreshed r]]
    by (simp add: index_view_def)
  then show ?thesis using g r by (auto simp: run_done)
qed

definition run_out_of_order :: "(mem_bucket, queue) system" where
  "run_out_of_order =
     run_work ''4'' 0 [run_row 1 ''NEW'' ''1'' old_record]
       (run_work ''3'' 1 [run_row 2 ''NEW'' ''2'' one_record]
         (run_schedule (run_write ''2'' one_record (run_first old_record))))"

lemma run_out_of_order: "run_out_of_order =
    \<lparr>sys_store = put_object (run_path ''4'') old_record (put_object (run_path ''3'') one_record
       (put_object (wal_path ''2'') one_record (put_object (wal_path ''1'') old_record empty_bucket))),
      sys_db = run_db [] 3 [\<lparr>RunSeqNo = 1, RunRowAttrs = \<lparr>RunPath = run_path ''3''\<rparr>\<rparr>,
        \<lparr>RunSeqNo = 2, RunRowAttrs = \<lparr>RunPath = run_path ''4''\<rparr>\<rparr>] 3,
      sys_queue = \<lparr>queued = [], next_id = 2\<rparr>,
      sys_uuids = [''4'', ''3'', ''2'', ''1''], committed = [old_record, one_record]\<rparr>"
  by (simp add: run_out_of_order_def run_first empty_bucket_def run_eqs)

text \<open>C32. The order of the jobs matters: of two compactions of two batches with one key, worked off
  newest first, the run of the older batch comes out as the newest run, and every reader sees the
  older value from then on.\<close>

theorem out_of_order_jobs_stale:
  "value_of (newest (rev (committed run_out_of_order)) ''k'') = Some [1] \<and>
   db_view (stored_table mem_contents) (sys_store run_out_of_order) (sys_db run_out_of_order) ''k'' =
     Some [9]"
  by (simp add: run_out_of_order db_view_def index_view_def newest_logs_def newest_runs_def wal_paths_def
      shared_paths_def stored_table_def mem_contents_def put_object_def update_conv')

text \<open>An insert in its two moments: the statement takes the next number of the sequence, and its row
  is there for others when its transaction commits, which for concurrent inserts need not be in the
  order of the numbers.\<close>

definition nextval :: "DB \<Rightarrow> int \<times> DB" where
  "nextval d = (wal_seq d, d\<lparr>wal_seq := wal_seq d + 1\<rparr>)"

definition commit_row :: "int \<Rightarrow> WALAttrs \<Rightarrow> DB \<Rightarrow> DB" where
  "commit_row n attrs d =
     d\<lparr>write_ahead_logs := write_ahead_logs d @ [\<lparr>SeqNo = n, State = ''NEW'', Attrs = attrs\<rparr>]\<rparr>"

lemma AddWriteAheadLog_moments: "AddWriteAheadLog a d = (case nextval d of (n, d) \<Rightarrow> commit_row n a d)"
  by (simp add: AddWriteAheadLog_def nextval_def commit_row_def)

text \<open>A batch is uploaded and has its number; another is written and scheduled for compaction; then the
  first one's row is committed; and then the job runs.\<close>

definition run_late :: "(mem_bucket, queue) system" where
  "run_late =
     (let s = run_start\<lparr>sys_store := snd (upload_batch insertion_sort mem_upload ''1'' old_record empty_bucket),
                sys_uuids := [''1'']\<rparr>;
          (n, d) = nextval (sys_db s);
          s = run_schedule (run_write ''2'' one_record (s\<lparr>sys_db := d\<rparr>))
      in s\<lparr>sys_db := commit_row n (batch_attrs ''1'' 0 old_record) (sys_db s),
           committed := committed s @ [old_record]\<rparr>)"

definition run_late_compacted :: "(mem_bucket, queue) system" where
  "run_late_compacted = run_work ''3'' 0 [run_row 2 ''NEW'' ''2'' one_record] run_late"

lemma run_db_moments [simp]:
  "nextval (run_db ws n rs m) = (n, run_db ws (n + 1) rs m)"
  "commit_row i (batch_attrs uuid 0 t) (run_db ws n rs m) = run_db (ws @ [run_row i ''NEW'' uuid t]) n rs m"
  by (simp_all add: nextval_def commit_row_def run_db_def run_row_def)

lemma run_late: "run_late =
    \<lparr>sys_store = put_object (wal_path ''2'') one_record (put_object (wal_path ''1'') old_record empty_bucket),
      sys_db = run_db [run_row 2 ''COMPACTING'' ''2'' one_record, run_row 1 ''NEW'' ''1'' old_record] 3 [] 1,
      sys_queue = \<lparr>queued = [(0, [run_row 2 ''NEW'' ''2'' one_record])], next_id = 1\<rparr>,
      sys_uuids = [''2'', ''1''], committed = [one_record, old_record]\<rparr>"
  by (simp add: run_late_def run_start_def empty_bucket_def migrated_run_db upload_batch_def mem_upload_def
      run_eqs)

lemma run_late_compacted: "run_late_compacted =
    \<lparr>sys_store = put_object (run_path ''3'') one_record (put_object (wal_path ''2'') one_record
       (put_object (wal_path ''1'') old_record empty_bucket)),
      sys_db = run_db [run_row 1 ''NEW'' ''1'' old_record] 3
        [\<lparr>RunSeqNo = 1, RunRowAttrs = \<lparr>RunPath = run_path ''3''\<rparr>\<rparr>] 2,
      sys_queue = \<lparr>queued = [], next_id = 1\<rparr>,
      sys_uuids = [''3'', ''2'', ''1''], committed = [one_record, old_record]\<rparr>"
  by (simp add: run_late_compacted_def run_late empty_bucket_def run_eqs)


end
