(* ===== verification/BatchLoop.thy ===== *)
theory BatchLoop
  imports Batcher
begin

text \<open>
  \<^verbatim>\<open>internal/batcher/handler.go\<close>, the concurrent part: \<^verbatim>\<open>batchLoop\<close>, \<^verbatim>\<open>processLoop\<close> with its
  workers, and \<^verbatim>\<open>shutdown\<close>. A \<open>server\<close> is the handler with its goroutines' local variables and
  channels, an \<open>event\<close> one step of one goroutine (or of the environment), and \<open>step\<close> its
  effect, None where the step cannot happen. Goroutines interleave at these steps: a worker's
  upload and its insert are two steps. The list \<open>accepted\<close> of the requests received and the list
  \<open>replies\<close> of what was sent to the callbacks record the history; \<open>uuids\<close> the ids generated so
  far, which the id generator does not repeat.

  The lemmas: an invariant that accounts for every callback exactly once, ties every batch to its
  requests, keeps the pending batch under the size limit with its timer armed, and makes every
  acknowledged request durable; and that from every reachable state all accepted requests can be
  answered.
\<close>

section \<open>The server\<close>

record Config =
  BatcherEnabled :: bool
  MaxBatchBytes :: int
  MaxBatchAge :: int
  MaxConcurrent :: int

datatype loop_pc = Selecting | Sending batch | Stopped

datatype timer_state = TimerNil | TimerArmed | TimerFired

datatype worker = Taken batch | Uploaded string batch

fun worker_batch :: "worker \<Rightarrow> batch" where
  "worker_batch (Taken b) = b"
| "worker_batch (Uploaded _ b) = b"

record ('b, 'd) server =
  loop :: loop_pc
  current :: "batch option"
  timer :: timer_state
  processing :: "batch list"
  processing_closed :: bool
  workers :: "worker list"
  spawned :: bool
  done_closed :: bool
  store :: 'b
  db :: 'd
  ctx_done :: bool
  panicked :: bool
  uuids :: "string list"
  accepted :: "(nat \<times> WriteRequest list) list"
  replies :: "(nat \<times> go_error option) list"

text \<open>\<^verbatim>\<open>make(chan *batch, cfg.MaxConcurrent)\<close> panics for a negative size.\<close>

definition NewHandler :: "Config \<Rightarrow> 'b \<Rightarrow> 'd \<Rightarrow> ('b, 'd) server result" where
  "NewHandler cfg b d =
     (if MaxConcurrent cfg < 0 then Inl (ErrPanic ''makechan: size out of range'')
      else Inr \<lparr>loop = Selecting, current = None, timer = TimerNil, processing = [],
        processing_closed = False, workers = [], spawned = False, done_closed = False,
        store = b, db = d, ctx_done = False, panicked = False, uuids = [], accepted = [],
        replies = []\<rparr>)"

section \<open>Steps\<close>

datatype event = Accept nat "WriteRequest list"  \<comment> \<open>\<^verbatim>\<open>case wr := <-h.writes\<close>\<close>
  | SendBatch  \<comment> \<open>\<^verbatim>\<open>h.processing <- current\<close> goes through\<close>
  | TimerFires  \<comment> \<open>\<^verbatim>\<open>case <-timer\<close>\<close>
  | ContextDone  \<comment> \<open>the server's context is cancelled\<close>
  | StopLoop  \<comment> \<open>\<^verbatim>\<open>case <-h.ctx.Done()\<close>\<close>
  | SpawnWorkers  \<comment> \<open>\<^verbatim>\<open>processLoop\<close> starts the workers and returns\<close>
  | TakeBatch  \<comment> \<open>an idle worker receives from \<^verbatim>\<open>h.processing\<close>\<close>
  | UploadBatch nat string  \<comment> \<open>a worker sorts, encodes and uploads under a new id\<close>
  | InsertBatch nat int  \<comment> \<open>a worker adds the log's row at a time\<close>

definition receive :: "Config \<Rightarrow> nat \<Rightarrow> WriteRequest list \<Rightarrow> ('b, 'd) server \<Rightarrow> ('b, 'd) server" where
  "receive cfg cb ws s =
     (let b = add_request (case current s of None \<Rightarrow> empty_batch | Some b \<Rightarrow> b) cb ws;
          t = (if current s = None then TimerArmed else timer s);
          s = s\<lparr>accepted := accepted s @ [(cb, ws)]\<rparr>
      in if totalSize b \<ge> MaxBatchBytes cfg
         then s\<lparr>loop := Sending b, current := None, timer := TimerNil\<rparr>
         else s\<lparr>current := Some b, timer := t\<rparr>)"

definition fire_timer :: "('b, 'd) server \<Rightarrow> ('b, 'd) server" where
  "fire_timer s =
     (case current s of
        Some b \<Rightarrow>
          if length (batch_records b) > 0
          then s\<lparr>loop := Sending b, current := None, timer := TimerNil\<rparr>
          else s\<lparr>timer := TimerFired\<rparr>
      | None \<Rightarrow> s\<lparr>timer := TimerFired\<rparr>)"

definition notify :: "batch \<Rightarrow> go_error option \<Rightarrow> ('b, 'd) server \<Rightarrow> ('b, 'd) server" where
  "notify b r s = s\<lparr>replies := replies s @ map (\<lambda>cb. (cb, r)) (callbacks b)\<rparr>"

definition stop_loop :: "('b, 'd) server \<Rightarrow> ('b, 'd) server" where
  "stop_loop s =
     (let s' = s\<lparr>loop := Stopped, processing_closed := True, current := None\<rparr>
      in case current s of None \<Rightarrow> s' | Some b \<Rightarrow> notify b (Some ErrCanceled) s')"

definition without_worker :: "nat \<Rightarrow> ('b, 'd) server \<Rightarrow> ('b, 'd) server" where
  "without_worker i s = s\<lparr>workers := take i (workers s) @ drop (Suc i) (workers s)\<rparr>"

definition worker_upload ::
  "Record sorter \<Rightarrow> 'b upload_fun \<Rightarrow> nat \<Rightarrow> string \<Rightarrow> batch \<Rightarrow> ('b, 'd) server \<Rightarrow> ('b, 'd) server"
where
  "worker_upload srt upload i uuid b s =
     (case upload_batch srt upload uuid (batch_records b) (store s) of
        (None, st) \<Rightarrow>
          s\<lparr>store := st, uuids := uuid # uuids s, workers := (workers s)[i := Uploaded uuid b]\<rparr>
      | (Some e, st) \<Rightarrow>
          (let s = s\<lparr>store := st, uuids := uuid # uuids s\<rparr> in
           if is_panic e then s\<lparr>panicked := True\<rparr>
           else notify b (Some e) (without_worker i s)))"

definition worker_insert ::
  "Record sorter \<Rightarrow> (WALAttrs \<Rightarrow> 'd \<Rightarrow> go_error option \<times> 'd) \<Rightarrow> nat \<Rightarrow> string \<Rightarrow> int \<Rightarrow> batch \<Rightarrow>
   ('b, 'd) server \<Rightarrow> ('b, 'd) server"
where
  "worker_insert srt add_wal i uuid now b s =
     (case insert_batch srt add_wal uuid now (batch_records b) (db s) of
        (r, d) \<Rightarrow> notify b r (without_worker i (s\<lparr>db := d\<rparr>)))"

fun step ::
  "Config \<Rightarrow> Record sorter \<Rightarrow> 'b upload_fun \<Rightarrow> (WALAttrs \<Rightarrow> 'd \<Rightarrow> go_error option \<times> 'd) \<Rightarrow>
   event \<Rightarrow> ('b, 'd) server \<Rightarrow> ('b, 'd) server option"
where
  "step cfg srt upload add_wal (Accept cb ws) s =
     (if loop s = Selecting \<and> cb \<notin> fst ` set (accepted s) \<and> check_keys ws = None
      then Some (receive cfg cb ws s) else None)"
| "step cfg srt upload add_wal SendBatch s =
     (case loop s of
        Sending b \<Rightarrow>
          if int (length (processing s)) < MaxConcurrent cfg
          then Some (s\<lparr>processing := processing s @ [b], loop := Selecting\<rparr>) else None
      | _ \<Rightarrow> None)"
| "step cfg srt upload add_wal TimerFires s =
     (if loop s = Selecting \<and> timer s = TimerArmed then Some (fire_timer s) else None)"
| "step cfg srt upload add_wal ContextDone s = Some (s\<lparr>ctx_done := True\<rparr>)"
| "step cfg srt upload add_wal StopLoop s =
     (if loop s = Selecting \<and> ctx_done s then Some (stop_loop s) else None)"
| "step cfg srt upload add_wal SpawnWorkers s =
     (if spawned s then None else Some (s\<lparr>spawned := True, done_closed := True\<rparr>))"
| "step cfg srt upload add_wal TakeBatch s =
     (case processing s of
        b # bs \<Rightarrow>
          if spawned s \<and> int (length (workers s)) < MaxConcurrent cfg
          then Some (s\<lparr>processing := bs, workers := workers s @ [Taken b]\<rparr>) else None
      | [] \<Rightarrow> None)"
| "step cfg srt upload add_wal (UploadBatch i uuid) s =
     (if i < length (workers s) \<and> uuid \<notin> set (uuids s) then
        (case workers s ! i of
           Taken b \<Rightarrow> Some (worker_upload srt upload i uuid b s)
         | Uploaded _ _ \<Rightarrow> None)
      else None)"
| "step cfg srt upload add_wal (InsertBatch i now) s =
     (if i < length (workers s) then
        (case workers s ! i of
           Uploaded uuid b \<Rightarrow> Some (worker_insert srt add_wal i uuid now b s)
         | Taken _ \<Rightarrow> None)
      else None)"

text \<open>A panic ends the process: no step after it.\<close>

definition server_step where
  "server_step cfg srt upload add_wal e s =
     (if panicked s then None else step cfg srt upload add_wal e s)"

fun run where
  "run cfg srt upload add_wal [] s = Some s"
| "run cfg srt upload add_wal (e # es) s =
     Option.bind (server_step cfg srt upload add_wal e s) (run cfg srt upload add_wal es)"

inductive reachable ::
  "Config \<Rightarrow> Record sorter \<Rightarrow> 'b upload_fun \<Rightarrow> (WALAttrs \<Rightarrow> 'd \<Rightarrow> go_error option \<times> 'd) \<Rightarrow>
   'b \<Rightarrow> 'd \<Rightarrow> ('b, 'd) server \<Rightarrow> bool"
  for cfg srt upload add_wal b d
where
  start: "NewHandler cfg b d = Inr s \<Longrightarrow> reachable cfg srt upload add_wal b d s"
| step: "reachable cfg srt upload add_wal b d s \<Longrightarrow>
    server_step cfg srt upload add_wal e s = Some s' \<Longrightarrow> reachable cfg srt upload add_wal b d s'"

text \<open>
  \<^verbatim>\<open>shutdown\<close>: waits for \<^verbatim>\<open>h.done\<close> or its own context; None while neither is ready. When both
  are, the select may take either case, named by the last argument.
\<close>

definition shutdown :: "go_error option \<Rightarrow> bool \<Rightarrow> ('b, 'd) server \<Rightarrow> go_error option option" where
  "shutdown caller_err prefer_done s =
     (if done_closed s \<and> (prefer_done \<or> caller_err = None) then Some None
      else (case caller_err of Some e \<Rightarrow> Some (Some e) | None \<Rightarrow> None))"

text \<open>The two steps of a worker, by the batch it holds.\<close>

lemma step_UploadBatchE:
  assumes "step cfg srt up ins (UploadBatch i uuid) s = Some s'"
  obtains b where "i < length (workers s)" "workers s ! i = Taken b" "uuid \<notin> set (uuids s)"
    "s' = worker_upload srt up i uuid b s"
  using assms by (auto split: if_splits worker.splits)

lemma step_InsertBatchE:
  assumes "step cfg srt up ins (InsertBatch i now) s = Some s'"
  obtains uuid b where "i < length (workers s)" "workers s ! i = Uploaded uuid b"
    "s' = worker_insert srt ins i uuid now b s"
  using assms by (auto split: if_splits worker.splits)

section \<open>Every callback is accounted for\<close>

definition in_flight :: "('b, 'd) server \<Rightarrow> batch list" where
  "in_flight s =
     (case loop s of Sending b \<Rightarrow> [b] | _ \<Rightarrow> []) @
     (case current s of None \<Rightarrow> [] | Some b \<Rightarrow> [b]) @
     processing s @ map worker_batch (workers s)"

definition cbs :: "batch list \<Rightarrow> nat multiset" where
  "cbs bs = mset (concat (map callbacks bs))"

lemma cbs_simps [simp]:
  "cbs [] = {#}" "cbs (b # bs) = mset (callbacks b) + cbs bs" "cbs (xs @ ys) = cbs xs + cbs ys"
  by (simp_all add: cbs_def)

definition accounted :: "('b, 'd) server \<Rightarrow> bool" where
  "accounted s \<longleftrightarrow>
     distinct (map fst (accepted s)) \<and>
     mset (map fst (accepted s)) = cbs (in_flight s) + mset (map fst (replies s))"

lemma server_stepD: "server_step cfg srt up ins e s = Some s' \<Longrightarrow>
    \<not> panicked s \<and> step cfg srt up ins e s = Some s'"
  by (simp add: server_step_def split: if_splits)

lemma worker_batches_without:
  "i < length ws \<Longrightarrow>
   cbs (map worker_batch ws) =
     cbs (map worker_batch (take i ws @ drop (Suc i) ws)) + mset (callbacks (worker_batch (ws ! i)))"
  by (subst (1) id_take_nth_drop [of i ws]) (simp_all add: take_map drop_map)

lemma worker_batches_uploaded:
  "i < length ws \<Longrightarrow> ws ! i = Taken b \<Longrightarrow>
   map worker_batch (ws[i := Uploaded uuid b]) = map worker_batch ws"
  by (rule nth_equalityI) (auto simp: nth_list_update)

lemma accounted_finish:
  assumes "accounted s" and "i < length (workers s)" and "worker_batch (workers s ! i) = b"
    and "loop s' = loop s" "current s' = current s" "processing s' = processing s"
    "workers s' = workers s" "accepted s' = accepted s" "replies s' = replies s"
  shows "accounted (notify b r (without_worker i s'))"
  using assms worker_batches_without [OF assms(2)]
  by (simp add: accounted_def in_flight_def notify_def without_worker_def comp_def)

lemma worker_upload_cases:
  obtains (uploaded) st where "upload_batch srt up uuid (batch_records b) (store s) = (None, st)"
      "worker_upload srt up i uuid b s =
        s\<lparr>store := st, uuids := uuid # uuids s, workers := (workers s)[i := Uploaded uuid b]\<rparr>"
  | (panics) e st where "upload_batch srt up uuid (batch_records b) (store s) = (Some e, st)"
      "is_panic e"
      "worker_upload srt up i uuid b s = s\<lparr>store := st, uuids := uuid # uuids s, panicked := True\<rparr>"
  | (fails) e st where "upload_batch srt up uuid (batch_records b) (store s) = (Some e, st)"
      "\<not> is_panic e"
      "worker_upload srt up i uuid b s =
        notify b (Some e) (without_worker i (s\<lparr>store := st, uuids := uuid # uuids s\<rparr>))"
  unfolding worker_upload_def Let_def
  by (cases "upload_batch srt up uuid (batch_records b) (store s)"; cases "fst (upload_batch srt up uuid (batch_records b) (store s))") (auto split: if_splits)

lemma worker_upload_simps [simp]:
  "accepted (worker_upload srt up i uuid b s) = accepted s"
  "db (worker_upload srt up i uuid b s) = db s"
  "uuids (worker_upload srt up i uuid b s) = uuid # uuids s"
  "current (worker_upload srt up i uuid b s) = current s"
  "timer (worker_upload srt up i uuid b s) = timer s"
  "loop (worker_upload srt up i uuid b s) = loop s"
  "processing (worker_upload srt up i uuid b s) = processing s"
  "spawned (worker_upload srt up i uuid b s) = spawned s"
  by (rule worker_upload_cases [of srt up uuid b s i]; simp add: notify_def without_worker_def)+

lemma accounted_step:
  assumes "accounted s" and "step cfg srt up ins e s = Some s'"
  shows "accounted s'"
proof (cases e)
  case (Accept cb ws)
  then show ?thesis
    using assms
    by (auto simp: accounted_def in_flight_def receive_def Let_def empty_batch_def
        split: if_splits option.splits)
next
  case StopLoop
  then show ?thesis
    using assms
    by (auto simp: accounted_def in_flight_def stop_loop_def notify_def Let_def comp_def
        multiset.map_comp split: if_splits option.splits)
next
  case (UploadBatch i uuid)
  then obtain b where i: "i < length (workers s)" "workers s ! i = Taken b"
    and s': "s' = worker_upload srt up i uuid b s"
    using assms(2) unfolding UploadBatch by (blast elim: step_UploadBatchE)
  show ?thesis
  proof (cases rule: worker_upload_cases [of srt up uuid b s i])
    case (uploaded st)
    then show ?thesis
      using assms(1) worker_batches_uploaded [OF i] by (simp add: s' accounted_def in_flight_def)
  next
    case (panics e st)
    then show ?thesis using assms(1) by (simp add: s' accounted_def in_flight_def)
  next
    case (fails e st)
    then show ?thesis using i unfolding s' by (auto intro: accounted_finish [OF assms(1)])
  qed
next
  case (InsertBatch i now)
  then obtain uuid b where i: "i < length (workers s)" "workers s ! i = Uploaded uuid b"
    and s': "s' = worker_insert srt ins i uuid now b s"
    using assms(2) unfolding InsertBatch by (blast elim: step_InsertBatchE)
  then show ?thesis
    by (auto simp: worker_insert_def intro!: accounted_finish [OF assms(1)] split: prod.splits)
qed (use assms in \<open>auto simp: accounted_def in_flight_def fire_timer_def
      split: if_splits option.splits list.splits loop_pc.splits\<close>)

lemma accounted_start: "NewHandler cfg b d = Inr s \<Longrightarrow> accounted s"
  by (auto simp: NewHandler_def accounted_def in_flight_def split: if_splits)

lemma reachable_accounted: "reachable cfg srt up ins b d s \<Longrightarrow> accounted s"
  by (induction rule: reachable.induct) (auto intro: accounted_start accounted_step dest: server_stepD)

section \<open>Batches are made of their requests\<close>

definition batch_ok :: "(nat \<times> WriteRequest list) list \<Rightarrow> batch \<Rightarrow> bool" where
  "batch_ok acc b \<longleftrightarrow>
     batch_records b = concat (map (\<lambda>cb. map to_record (the (map_of acc cb))) (callbacks b)) \<and>
     set (callbacks b) \<subseteq> fst ` set acc \<and> callbacks b \<noteq> [] \<and>
     totalSize b = go_int (sum_list (map recordSize (batch_records b)))"

definition batches_ok :: "('b, 'd) server \<Rightarrow> bool" where
  "batches_ok s \<longleftrightarrow> (\<forall>b \<in> set (in_flight s). batch_ok (accepted s) b)"

lemma map_of_extend:
  "cb' \<in> fst ` set acc \<Longrightarrow> map_of (acc @ [(cb, ws)]) cb' = map_of acc cb'"
  by (cases "map_of acc cb'") (auto simp: map_of_eq_None_iff map_add_def split: option.split)

lemma batch_ok_extend:
  assumes "batch_ok acc b"
  shows "batch_ok (acc @ [(cb, ws)]) b"
proof -
  have "map (\<lambda>cb'. map to_record (the (map_of (acc @ [(cb, ws)]) cb'))) (callbacks b) =
      map (\<lambda>cb'. map to_record (the (map_of acc cb'))) (callbacks b)"
    using assms by (intro map_cong) (simp_all only: batch_ok_def map_of_extend subset_iff)
  then show ?thesis using assms by (simp only: batch_ok_def) auto
qed

lemma batch_ok_records:
  assumes "batch_ok acc b"
  shows "set (batch_records b) \<subseteq> (\<Union>(cb, ws) \<in> set acc. to_record ` set ws)"
proof
  fix r assume "r \<in> set (batch_records b)"
  then obtain cb where cb: "cb \<in> set (callbacks b)" "r \<in> to_record ` set (the (map_of acc cb))"
    using assms by (auto simp: batch_ok_def)
  then have "cb \<in> fst ` set acc" using assms by (auto simp: batch_ok_def)
  then obtain ws where "map_of acc cb = Some ws" by (metis map_of_eq_None_iff not_Some_eq)
  then show "r \<in> (\<Union>(cb, ws) \<in> set acc. to_record ` set ws)"
    using cb(2) map_of_SomeD by fastforce
qed

lemma totalSize_add_request:
  assumes "totalSize b = go_int (sum_list (map recordSize (batch_records b)))"
  shows "totalSize (add_request b cb ws) =
    go_int (sum_list (map recordSize (batch_records (add_request b cb ws))))"
proof -
  have wrapped: "totalSize b = go_int (totalSize b) \<Longrightarrow>
      totalSize (add_writes b ws) = go_int (totalSize (add_writes b ws))" for b
    by (induction ws arbitrary: b) auto
  have "totalSize (b\<lparr>callbacks := callbacks b @ [cb]\<rparr>) = go_int (totalSize b)"
    using assms by simp
  then show ?thesis
    using wrapped [of "b\<lparr>callbacks := callbacks b @ [cb]\<rparr>"]
      totalSize_add_writes [of "b\<lparr>callbacks := callbacks b @ [cb]\<rparr>" ws] assms
    by (simp add: add_request_def go_int_add)
qed

lemma batch_ok_add_request:
  assumes "batch_ok acc b \<or> b = empty_batch" and "cb \<notin> fst ` set acc"
  shows "batch_ok (acc @ [(cb, ws)]) (add_request b cb ws)"
proof -
  have size: "totalSize b = go_int (sum_list (map recordSize (batch_records b)))"
    using assms(1) by (auto simp: batch_ok_def empty_batch_def go_int_id)
  have recs: "batch_records b =
      concat (map (\<lambda>cb'. map to_record (the (map_of (acc @ [(cb, ws)]) cb'))) (callbacks b))"
    using assms(1) batch_ok_extend [of acc b cb ws]
    by (auto simp: batch_ok_def empty_batch_def simp del: map_of_append)
  have "map_of (acc @ [(cb, ws)]) cb = Some ws"
    using assms(2) by (simp add: map_add_def map_of_eq_None_iff [symmetric] split: option.split)
  then show ?thesis
    using recs totalSize_add_request [OF size] assms(1)
    by (auto simp: batch_ok_def empty_batch_def simp del: map_of_append)
qed

lemma batches_ok_receive:
  assumes "batches_ok s" and "loop s = Selecting" and "cb \<notin> fst ` set (accepted s)"
  shows "batches_ok (receive cfg cb ws s)"
proof -
  let ?b = "case current s of None \<Rightarrow> empty_batch | Some b \<Rightarrow> b"
  have "batch_ok (accepted s) ?b \<or> ?b = empty_batch"
    using assms(1) by (auto simp: batches_ok_def in_flight_def split: option.splits)
  then have "batch_ok (accepted s @ [(cb, ws)]) (add_request ?b cb ws)"
    using assms(3) by (rule batch_ok_add_request)
  then show ?thesis
    using assms(1,2) batch_ok_extend [of "accepted s" _ cb ws]
    by (auto simp: batches_ok_def in_flight_def receive_def Let_def split: if_splits)
qed

lemma set_without_worker: "set (take i xs @ drop (Suc i) xs) \<subseteq> set xs"
  by (auto dest: in_set_takeD in_set_dropD)

lemma in_flight_finish:
  "set (in_flight (notify b r (without_worker i s))) \<subseteq> set (in_flight s)"
  using set_without_worker [of i "workers s"]
  by (auto simp: in_flight_def notify_def without_worker_def)

lemma batches_ok_mono:
  "batches_ok s \<Longrightarrow> set (in_flight s') \<subseteq> set (in_flight s) \<Longrightarrow> accepted s' = accepted s \<Longrightarrow> batches_ok s'"
  by (auto simp: batches_ok_def)

lemma finish_simps [simp]:
  "accepted (notify b r (without_worker i s)) = accepted s"
  "store (notify b r (without_worker i s)) = store s"
  "db (notify b r (without_worker i s)) = db s"
  "uuids (notify b r (without_worker i s)) = uuids s"
  "current (notify b r (without_worker i s)) = current s"
  "timer (notify b r (without_worker i s)) = timer s"
  "loop (notify b r (without_worker i s)) = loop s"
  "processing (notify b r (without_worker i s)) = processing s"
  "spawned (notify b r (without_worker i s)) = spawned s"
  "panicked (notify b r (without_worker i s)) = panicked s"
  by (simp_all add: notify_def without_worker_def)

lemma in_flight_worker_upload:
  assumes "i < length (workers s)" and "workers s ! i = Taken b"
  shows "set (in_flight (worker_upload srt up i uuid b s)) \<subseteq> set (in_flight s)"
proof (cases rule: worker_upload_cases [of srt up uuid b s i])
  case (uploaded st)
  then show ?thesis using worker_batches_uploaded [OF assms] by (simp add: in_flight_def flip: set_map)
next
  case (panics e st)
  then show ?thesis by (simp add: in_flight_def)
next
  case (fails e st)
  then show ?thesis
    using in_flight_finish [of b "Some e" i "s\<lparr>store := st, uuids := uuid # uuids s\<rparr>"]
    by (simp add: in_flight_def)
qed

lemma in_flight_worker_insert:
  "set (in_flight (worker_insert srt ins i uuid now b s)) \<subseteq> set (in_flight s)"
proof -
  obtain r d where "insert_batch srt ins uuid now (batch_records b) (db s) = (r, d)" by fastforce
  then show ?thesis
    using in_flight_finish [of b r i "s\<lparr>db := d\<rparr>"] by (simp add: worker_insert_def in_flight_def)
qed

lemma worker_insert_simps [simp]:
  "accepted (worker_insert srt ins i uuid now b s) = accepted s"
  "store (worker_insert srt ins i uuid now b s) = store s"
  "uuids (worker_insert srt ins i uuid now b s) = uuids s"
  "current (worker_insert srt ins i uuid now b s) = current s"
  "timer (worker_insert srt ins i uuid now b s) = timer s"
  "loop (worker_insert srt ins i uuid now b s) = loop s"
  "processing (worker_insert srt ins i uuid now b s) = processing s"
  "panicked (worker_insert srt ins i uuid now b s) = panicked s"
  by (simp_all add: worker_insert_def split: prod.splits)

lemma batches_ok_step:
  assumes "batches_ok s" and "step cfg srt up ins e s = Some s'"
  shows "batches_ok s'"
proof (cases e)
  case (Accept cb ws)
  then show ?thesis
    using assms by (auto intro: batches_ok_receive split: if_splits)
next
  case (UploadBatch i uuid)
  then obtain b where i: "i < length (workers s)" "workers s ! i = Taken b"
    and s': "s' = worker_upload srt up i uuid b s"
    using assms(2) unfolding UploadBatch by (blast elim: step_UploadBatchE)
  show ?thesis
    unfolding s' using assms(1) in_flight_worker_upload [OF i] by (rule batches_ok_mono) simp
next
  case (InsertBatch i now)
  then obtain uuid b where s': "s' = worker_insert srt ins i uuid now b s"
    using assms(2) unfolding InsertBatch by (blast elim: step_InsertBatchE)
  show ?thesis
    unfolding s' using assms(1) in_flight_worker_insert by (rule batches_ok_mono) simp
qed (use assms in \<open>auto simp: batches_ok_def in_flight_def fire_timer_def stop_loop_def notify_def Let_def
      split: if_splits option.splits list.splits loop_pc.splits\<close>)

lemma batches_ok_start: "NewHandler cfg b d = Inr s \<Longrightarrow> batches_ok s"
  by (auto simp: NewHandler_def batches_ok_def in_flight_def split: if_splits)

lemma reachable_batches_ok: "reachable cfg srt up ins b d s \<Longrightarrow> batches_ok s"
  by (induction rule: reachable.induct) (auto intro: batches_ok_start batches_ok_step dest: server_stepD)

section \<open>Limits\<close>

definition nonempty_requests :: "('b, 'd) server \<Rightarrow> bool" where
  "nonempty_requests s \<longleftrightarrow> list_all (\<lambda>(cb, ws). ws \<noteq> []) (accepted s)"

lemma batch_ok_nonempty:
  assumes "batch_ok acc b" and "list_all (\<lambda>(cb, ws). ws \<noteq> []) acc"
  shows "batch_records b \<noteq> []"
proof -
  obtain cb where cb: "cb \<in> set (callbacks b)"
    using assms(1) by (cases "callbacks b") (auto simp: batch_ok_def)
  then have "cb \<in> fst ` set acc" using assms(1) by (auto simp: batch_ok_def)
  then obtain ws where ws: "map_of acc cb = Some ws" by (metis map_of_eq_None_iff not_Some_eq)
  then have "ws \<noteq> []" using assms(2) by (auto simp: list_all_iff dest: map_of_SomeD)
  then show ?thesis using assms(1) cb ws by (force simp: batch_ok_def)
qed

text \<open>The waiting batch is under the size limit and its timer is running; queues are bounded.\<close>

definition within_limits :: "Config \<Rightarrow> ('b, 'd) server \<Rightarrow> bool" where
  "within_limits cfg s \<longleftrightarrow>
     (case current s of None \<Rightarrow> True | Some b \<Rightarrow> totalSize b < MaxBatchBytes cfg) \<and>
     int (length (processing s)) \<le> MaxConcurrent cfg \<and>
     int (length (workers s)) \<le> MaxConcurrent cfg"

lemma length_without_worker: "length (workers (without_worker i s)) \<le> length (workers s)"
  by (simp add: without_worker_def)

lemma workers_finish:
  "workers (notify b r (without_worker i s)) = take i (workers s) @ drop (Suc i) (workers s)"
  by (simp add: notify_def without_worker_def)

lemma length_workers_upload:
  "length (workers (worker_upload srt up i uuid b s)) \<le> length (workers s)"
  by (rule worker_upload_cases [of srt up uuid b s i]) (simp_all add: workers_finish)

lemma length_workers_insert:
  "length (workers (worker_insert srt ins i uuid now b s)) \<le> length (workers s)"
  by (simp add: worker_insert_def workers_finish split: prod.splits)

lemma within_limits_step:
  assumes "within_limits cfg s" and "step cfg srt up ins e s = Some s'"
  shows "within_limits cfg s'"
proof (cases e)
  case (UploadBatch i uuid)
  then obtain b where "s' = worker_upload srt up i uuid b s"
    using assms(2) unfolding UploadBatch by (blast elim: step_UploadBatchE)
  then show ?thesis
    using assms(1) length_workers_upload [of srt up i uuid b s]
    by (auto simp: within_limits_def split: option.splits)
next
  case (InsertBatch i now)
  then obtain uuid b where "s' = worker_insert srt ins i uuid now b s"
    using assms(2) unfolding InsertBatch by (blast elim: step_InsertBatchE)
  then show ?thesis
    using assms(1) length_workers_insert [of srt ins i uuid now b s]
    by (auto simp: within_limits_def split: option.splits)
qed (use assms in \<open>auto simp: within_limits_def receive_def fire_timer_def stop_loop_def notify_def
      Let_def split: if_splits option.splits list.splits loop_pc.splits\<close>)

lemma within_limits_start: "NewHandler cfg b d = Inr s \<Longrightarrow> within_limits cfg s"
  by (auto simp: NewHandler_def within_limits_def split: if_splits)

lemma reachable_within_limits: "reachable cfg srt up ins b d s \<Longrightarrow> within_limits cfg s"
  by (induction rule: reachable.induct)
    (auto intro: within_limits_start within_limits_step dest: server_stepD)

text \<open>No request is empty, so no batch is, so a batch has its timer and no worker panics.\<close>

lemma accepted_step: "step cfg srt up ins e s = Some s' \<Longrightarrow> \<exists>xs. accepted s' = accepted s @ xs"
  by (cases e) (auto simp: receive_def fire_timer_def stop_loop_def notify_def Let_def
      split: if_splits option.splits list.splits loop_pc.splits worker.splits)

definition timer_runs :: "('b, 'd) server \<Rightarrow> bool" where
  "timer_runs s \<longleftrightarrow> \<not> panicked s \<and> (current s \<noteq> None \<longrightarrow> timer s = TimerArmed)"

lemma timer_runs_step:
  assumes srt: "slice_sort srt" and inv: "timer_runs s" and ok: "batches_ok s"
    and ne: "nonempty_requests s'" and st: "step cfg srt up ins e s = Some s'"
  shows "timer_runs s'"
proof -
  have ne': "list_all (\<lambda>(cb, ws). ws \<noteq> []) (accepted s)"
    using ne accepted_step [OF st] by (auto simp: nonempty_requests_def)
  have full: "batch_records b \<noteq> []" if "b \<in> set (in_flight s)" for b
    using batch_ok_nonempty [OF _ ne'] ok that by (auto simp: batches_ok_def)
  show ?thesis
  proof (cases e)
    case TimerFires
    then show ?thesis
      using inv st full by (auto simp: timer_runs_def fire_timer_def in_flight_def split: if_splits option.splits)
  next
    case (UploadBatch i uuid)
    then obtain b where i: "i < length (workers s)" "workers s ! i = Taken b"
      and s': "s' = worker_upload srt up i uuid b s"
      using st unfolding UploadBatch by (blast elim: step_UploadBatchE)
    have "b \<in> worker_batch ` set (workers s)"
      using i by (metis image_eqI nth_mem worker_batch.simps(1))
    then have "batch_records b \<noteq> []" by (intro full) (simp add: in_flight_def)
    then have "\<not> is_panic err" if "upload_batch srt up uuid (batch_records b) (store s) = (Some err, st)"
      for err st
      using that upload_batch_panics_iff [OF srt, of up uuid "batch_records b" "store s"]
      by (cases err) auto
    then show ?thesis
      using inv unfolding s'
      by (rule_tac worker_upload_cases [of srt up uuid b s i]) (auto simp: timer_runs_def)
  next
    case (InsertBatch i now)
    then show ?thesis using inv st by (auto simp: timer_runs_def split: if_splits worker.splits)
  qed (use inv st in \<open>auto simp: timer_runs_def receive_def stop_loop_def notify_def
      Let_def split: if_splits option.splits list.splits loop_pc.splits\<close>)
qed

lemma nonempty_requests_back:
  "step cfg srt up ins e s = Some s' \<Longrightarrow> nonempty_requests s' \<Longrightarrow> nonempty_requests s"
  using accepted_step by (force simp: nonempty_requests_def)

lemma reachable_timer_runs:
  assumes "slice_sort srt"
  shows "reachable cfg srt up ins b d s \<Longrightarrow> nonempty_requests s \<Longrightarrow> timer_runs s"
proof (induction rule: reachable.induct)
  case (step s e s')
  then show ?case
    using timer_runs_step [OF assms] reachable_batches_ok nonempty_requests_back server_stepD by metis
qed (auto simp: NewHandler_def timer_runs_def split: if_splits)

section \<open>Acknowledged requests are durable\<close>

definition stored_as ::
  "Record sorter \<Rightarrow> (string \<Rightarrow> bytes option) \<Rightarrow> string \<Rightarrow> batch \<Rightarrow> bool"
where
  "stored_as srt objs uuid b \<longleftrightarrow>
     objs (wal_path uuid) = Some (WriteRecords (batch_table srt (batch_records b)))"

definition durable where
  "durable srt contents rows s cb \<longleftrightarrow>
     (\<exists>b uuid. cb \<in> set (callbacks b) \<and> batch_ok (accepted s) b \<and> uuid \<in> set (uuids s) \<and>
        wal_path uuid \<in> Path ` Attrs ` set (rows (db s)) \<and>
        stored_as srt (contents (store s)) uuid b)"

definition acks_durable where
  "acks_durable srt contents rows valid s \<longleftrightarrow>
     valid (db s) \<and>
     (\<forall>uuid b. Uploaded uuid b \<in> set (workers s) \<longrightarrow>
        uuid \<in> set (uuids s) \<and> stored_as srt (contents (store s)) uuid b) \<and>
     (\<forall>cb. (cb, None) \<in> set (replies s) \<longrightarrow> durable srt contents rows s cb)"

lemma wal_path_inj [simp]: "wal_path u = wal_path v \<longleftrightarrow> u = v"
  by (simp add: wal_path_def)

lemma durable_mono:
  assumes "durable srt contents rows s cb"
    and "accepted s' = accepted s \<or> (\<exists>cb' ws. accepted s' = accepted s @ [(cb', ws)])"
    and "set (uuids s) \<subseteq> set (uuids s')" and "set (rows (db s)) \<subseteq> set (rows (db s'))"
    and "\<And>u. u \<in> set (uuids s) \<Longrightarrow> contents (store s') (wal_path u) = contents (store s) (wal_path u)"
  shows "durable srt contents rows s' cb"
proof -
  from assms(1) obtain b uuid where b: "cb \<in> set (callbacks b)" "batch_ok (accepted s) b"
    "uuid \<in> set (uuids s)" "wal_path uuid \<in> Path ` Attrs ` set (rows (db s))"
    "stored_as srt (contents (store s)) uuid b"
    unfolding durable_def by blast
  moreover have "batch_ok (accepted s') b" using b(2) assms(2) batch_ok_extend by metis
  ultimately show ?thesis
    using assms(3,4,5) unfolding durable_def stored_as_def by (metis image_mono subsetD)
qed

lemma acks_durable_same:
  assumes "acks_durable srt contents rows valid s"
    and "accepted s' = accepted s \<or> (\<exists>cb' ws. accepted s' = accepted s @ [(cb', ws)])"
    and "uuids s' = uuids s" "db s' = db s" "store s' = store s"
    and "\<And>uuid b. Uploaded uuid b \<in> set (workers s') \<Longrightarrow> Uploaded uuid b \<in> set (workers s)"
    and "\<And>cb. (cb, None) \<in> set (replies s') \<Longrightarrow> (cb, None) \<in> set (replies s)"
  shows "acks_durable srt contents rows valid s'"
proof -
  have "durable srt contents rows s' cb" if "durable srt contents rows s cb" for cb
    using that assms(2-5) by (auto intro: durable_mono)
  then show ?thesis using assms(1,3-7) unfolding acks_durable_def by simp blast
qed

lemma upload_batch_keeps:
  assumes "object_store up fetch contents" and "upload_batch srt up uuid rs st = (r, st')"
    and "u \<noteq> uuid"
  shows "contents st' (wal_path u) = contents st (wal_path u)"
  using upload_batch_other [OF assms(1), of "wal_path u" uuid srt rs st] assms(2,3) by simp

lemma acks_durable_upload:
  assumes os: "object_store up fetch contents" and inv: "acks_durable srt contents rows valid s"
    and i: "i < length (workers s)" and fresh: "uuid \<notin> set (uuids s)"
  shows "acks_durable srt contents rows valid (worker_upload srt up i uuid b s)"
proof -
  let ?s' = "worker_upload srt up i uuid b s"
  have store: "contents (store ?s') (wal_path u) = contents (store s) (wal_path u)"
    if "u \<in> set (uuids s)" for u
    using that fresh
    by (rule_tac worker_upload_cases [of srt up uuid b s i])
      (auto dest!: upload_batch_keeps [OF os, where u = u])
  have dur: "durable srt contents rows ?s' cb" if "durable srt contents rows s cb" for cb
    using that by (rule durable_mono) (auto simp: store)
  have replies: "(cb, None) \<in> set (replies s)" if "(cb, None) \<in> set (replies ?s')" for cb
    using that by (rule_tac worker_upload_cases [of srt up uuid b s i])
      (auto simp: notify_def without_worker_def)
  have workers: "u \<in> set (uuids ?s') \<and> stored_as srt (contents (store ?s')) u b'"
    if w: "Uploaded u b' \<in> set (workers ?s')" for u b'
  proof (cases "Uploaded u b' \<in> set (workers s)")
    case True
    then show ?thesis using inv store by (auto simp: acks_durable_def stored_as_def)
  next
    case False
    then have "u = uuid" "b' = b"
      and up: "upload_batch srt up uuid (batch_records b) (store s) = (None, store ?s')"
      using w by (rule_tac worker_upload_cases [of srt up uuid b s i];
          auto simp: workers_finish dest!: set_update_subset_insert [THEN subsetD]
            in_set_takeD in_set_dropD)+
    then show ?thesis using upload_batch_ok [OF os up] by (simp add: stored_as_def)
  qed
  show ?thesis using inv dur replies workers by (auto simp: acks_durable_def)
qed

lemma acks_durable_insert:
  assumes wl: "wal_log ins rows valid" and inv: "acks_durable srt contents rows valid s"
    and i: "i < length (workers s)" "workers s ! i = Uploaded uuid b"
    and ok: "batches_ok s"
  shows "acks_durable srt contents rows valid (worker_insert srt ins i uuid now b s)"
proof -
  let ?s' = "worker_insert srt ins i uuid now b s"
  obtain r d where ins: "insert_batch srt ins uuid now (batch_records b) (db s) = (r, d)" by fastforce
  then have s': "?s' = notify b r (without_worker i (s\<lparr>db := d\<rparr>))" by (simp add: worker_insert_def)
  have valid: "valid (db s)" using inv by (simp add: acks_durable_def)
  have d: "d = snd (ins (batch_attrs uuid now (batch_table srt (batch_records b))) (db s))"
    using insert_batch_snd [of srt ins uuid now "batch_records b" "db s"] ins by simp
  have up: "uuid \<in> set (uuids s)" "stored_as srt (contents (store s)) uuid b"
    using inv i nth_mem by (fastforce simp: acks_durable_def)+
  have "b \<in> worker_batch ` set (workers s)"
    using i by (metis image_eqI nth_mem worker_batch.simps(2))
  then have bok: "batch_ok (accepted s) b" using ok by (auto simp: batches_ok_def in_flight_def)
  have dur: "durable srt contents rows ?s' cb" if "durable srt contents rows s cb" for cb
    using that wal_log.add_wal_rows_mono [OF wl valid]
    by (rule_tac durable_mono) (auto simp: s' d)
  have new: "durable srt contents rows ?s' cb" if cb: "cb \<in> set (callbacks b)" and r: "r = None" for cb
  proof -
    from insert_batch_ok ins r have
      "ins (batch_attrs uuid now (batch_table srt (batch_records b))) (db s) = (None, d)" by metis
    from wal_log.add_wal_acknowledged [OF wl valid this]
    have "wal_path uuid \<in> Path ` Attrs ` set (rows d)" using imageI [of _ _ Path] by (metis WALAttrs.select_convs(1) batch_attrs_def)
    then show ?thesis using cb bok up by (auto simp: durable_def s')
  qed
  have replies: "durable srt contents rows ?s' cb" if "(cb, None) \<in> set (replies ?s')" for cb
  proof -
    from that have "(cb, None) \<in> set (replies s) \<or> cb \<in> set (callbacks b) \<and> r = None"
      by (auto simp: s' notify_def without_worker_def)
    then show ?thesis using inv dur new by (auto simp: acks_durable_def)
  qed
  have workers: "Uploaded u b' \<in> set (workers s)" if "Uploaded u b' \<in> set (workers ?s')" for u b'
    using that set_without_worker [of i "workers s"] by (auto simp: s' workers_finish)
  have "valid (db ?s')" using wal_log.add_wal_valid [OF wl valid] by (simp add: s' d)
  then show ?thesis
    using inv replies workers unfolding acks_durable_def worker_insert_simps by blast
qed

lemma acks_durable_step:
  assumes os: "object_store up fetch contents" and wl: "wal_log ins rows valid"
    and inv: "acks_durable srt contents rows valid s" and ok: "batches_ok s"
    and st: "step cfg srt up ins e s = Some s'"
  shows "acks_durable srt contents rows valid s'"
proof (cases e)
  case (UploadBatch i uuid)
  then show ?thesis
    using st acks_durable_upload [OF os inv] unfolding UploadBatch by (blast elim: step_UploadBatchE)
next
  case (InsertBatch i now)
  then show ?thesis
    using st acks_durable_insert [OF wl inv _ _ ok] unfolding InsertBatch by (blast elim: step_InsertBatchE)
qed (use st in \<open>auto simp: receive_def fire_timer_def stop_loop_def notify_def Let_def
      intro!: acks_durable_same [OF inv]
      split: if_splits option.splits list.splits loop_pc.splits\<close>)

lemma reachable_acks_durable:
  assumes "object_store up fetch contents" and "wal_log ins rows valid" and "valid d"
  shows "reachable cfg srt up ins b d s \<Longrightarrow> acks_durable srt contents rows valid s"
proof (induction rule: reachable.induct)
  case (step s e s')
  then show ?case
    using acks_durable_step [OF assms(1,2)] reachable_batches_ok server_stepD by metis
qed (use assms(3) in \<open>auto simp: NewHandler_def acks_durable_def split: if_splits\<close>)

section \<open>Progress\<close>

text \<open>The server's own steps: all but new requests and the end of its context.\<close>

fun internal :: "event \<Rightarrow> bool" where
  "internal (Accept _ _) = False"
| "internal ContextDone = False"
| "internal StopLoop = False"
| "internal _ = True"

fun worker_work :: "worker \<Rightarrow> nat" where
  "worker_work (Taken _) = 2"
| "worker_work (Uploaded _ _) = 1"

definition work :: "('b, 'd) server \<Rightarrow> nat" where
  "work s =
     (case current s of None \<Rightarrow> 0 | Some _ \<Rightarrow> 5) + (if timer s = TimerArmed then 1 else 0) +
     (case loop s of Sending _ \<Rightarrow> 4 | _ \<Rightarrow> 0) + 3 * length (processing s) +
     sum_list (map worker_work (workers s)) + (if spawned s then 0 else 1)"

lemma work_without:
  assumes "i < length ws"
  shows "sum_list (map worker_work ws) =
    sum_list (map worker_work (take i ws @ drop (Suc i) ws)) + worker_work (ws ! i)"
  by (subst (1) id_take_nth_drop [OF assms]) simp

lemma work_replaced:
  assumes "i < length ws" and "ws ! i = Taken b"
  shows "sum_list (map worker_work ws) =
    sum_list (map worker_work (ws[i := Uploaded uuid b])) + 1"
  using assms(1) work_without [OF assms(1)] assms(2)
  by (simp add: upd_conv_take_nth_drop)

lemma internal_step_works:
  assumes "step cfg srt up ins e s = Some s'" and "internal e"
  shows "work s' < work s \<or> panicked s'"
proof (cases e)
  case (UploadBatch i uuid)
  then obtain b where i: "i < length (workers s)" "workers s ! i = Taken b"
    and s': "s' = worker_upload srt up i uuid b s"
    using assms(1) unfolding UploadBatch by (blast elim: step_UploadBatchE)
  show ?thesis
  proof (cases rule: worker_upload_cases [of srt up uuid b s i])
    case (uploaded st)
    then show ?thesis using work_replaced [OF i, of uuid] by (simp add: s' work_def)
  next
    case (panics e st)
    then show ?thesis by (simp add: s')
  next
    case (fails e st)
    then show ?thesis using work_without [OF i(1)] i(2) by (simp add: s' work_def workers_finish)
  qed
next
  case (InsertBatch i now)
  then obtain uuid b where i: "i < length (workers s)" "workers s ! i = Uploaded uuid b"
    and s': "s' = worker_insert srt ins i uuid now b s"
    using assms(1) unfolding InsertBatch by (blast elim: step_InsertBatchE)
  obtain r d where ins: "insert_batch srt ins uuid now (batch_records b) (db s) = (r, d)" by fastforce
  have "s' = notify b r (without_worker i (s\<lparr>db := d\<rparr>))" using s' ins by (simp add: worker_insert_def)
  then show ?thesis using work_without [OF i(1)] i(2) by (simp add: work_def workers_finish)
next
  case TimerFires
  then have "loop s = Selecting" "timer s = TimerArmed" "s' = fire_timer s"
    using assms(1) by (auto split: if_splits)
  then show ?thesis by (cases "current s") (auto simp: work_def fire_timer_def)
next
  case SendBatch
  then show ?thesis using assms(1) by (auto simp: work_def split: loop_pc.splits if_splits)
next
  case TakeBatch
  then show ?thesis using assms(1) by (auto simp: work_def split: list.splits if_splits)
next
  case SpawnWorkers
  then show ?thesis using assms(1) by (auto simp: work_def split: if_splits)
qed (use assms in simp_all)

lemma fresh_uuid: "\<exists>u :: string. u \<notin> set us"
  using ex_new_if_finite [OF infinite_UNIV_listI] by blast

text \<open>While a batch is in flight, the server can step on its own.\<close>

lemma internal_step_enabled:
  assumes lim: "within_limits cfg s" and timer: "timer_runs s" and c: "1 \<le> MaxConcurrent cfg"
    and busy: "in_flight s \<noteq> []" and stop: "loop s = Stopped \<longrightarrow> current s = None"
  shows "\<exists>e s'. internal e \<and> server_step cfg srt up ins e s = Some s'"
proof (cases "workers s")
  case (Cons w ws)
  obtain u where u: "u \<notin> set (uuids s)" using fresh_uuid by blast
  show ?thesis
  proof (cases w)
    case (Taken b)
    then show ?thesis using Cons u timer
      by (intro exI [of _ "UploadBatch 0 u"]) (simp add: server_step_def timer_runs_def)
  next
    case (Uploaded uuid b)
    then show ?thesis using Cons timer
      by (intro exI [of _ "InsertBatch 0 0"]) (simp add: server_step_def timer_runs_def)
  qed
next
  case no_workers: Nil
  show ?thesis
  proof (cases "spawned s")
    case False
    then show ?thesis using timer
      by (intro exI [of _ SpawnWorkers]) (simp add: server_step_def timer_runs_def)
  next
    case spawned: True
    show ?thesis
    proof (cases "processing s")
      case (Cons b bs)
      then show ?thesis using spawned no_workers timer c
        by (intro exI [of _ TakeBatch]) (simp add: server_step_def timer_runs_def)
    next
      case idle: Nil
      show ?thesis
      proof (cases "loop s")
        case (Sending b)
        then show ?thesis using idle timer c
          by (intro exI [of _ SendBatch]) (simp add: server_step_def timer_runs_def)
      next
        case Selecting
        with busy no_workers idle have "current s \<noteq> None"
          by (auto simp: in_flight_def split: option.splits)
        with Selecting timer show ?thesis
          by (intro exI [of _ TimerFires]) (simp add: server_step_def timer_runs_def)
      next
        case Stopped
        with busy no_workers idle stop show ?thesis by (simp add: in_flight_def)
      qed
    qed
  qed
qed

lemma stopped_step:
  assumes "loop s = Stopped \<longrightarrow> current s = None" and "step cfg srt up ins e s = Some s'"
  shows "loop s' = Stopped \<longrightarrow> current s' = None"
  using assms by (cases e) (auto simp: receive_def fire_timer_def stop_loop_def notify_def Let_def
      split: if_splits option.splits list.splits loop_pc.splits worker.splits)

lemma reachable_stopped: "reachable cfg srt up ins b d s \<Longrightarrow> loop s = Stopped \<longrightarrow> current s = None"
proof (induction rule: reachable.induct)
  case (step s e s')
  then show ?case using stopped_step server_stepD by metis
qed (auto simp: NewHandler_def split: if_splits)

lemma internal_accepted:
  "step cfg srt up ins e s = Some s' \<Longrightarrow> internal e \<Longrightarrow> accepted s' = accepted s"
  by (cases e) (auto simp: fire_timer_def split: if_splits option.splits list.splits loop_pc.splits
      worker.splits)

lemma answered_when_idle:
  assumes "accounted s" and "in_flight s = []"
  shows "mset (map fst (replies s)) = mset (map fst (accepted s))"
  using assms by (simp add: accounted_def)

lemma drain:
  assumes srt: "slice_sort srt" and c: "1 \<le> MaxConcurrent cfg"
  shows "reachable cfg srt up ins b d s \<Longrightarrow> nonempty_requests s \<Longrightarrow>
    \<exists>es s'. run cfg srt up ins es s = Some s' \<and> list_all internal es \<and>
      accepted s' = accepted s \<and> in_flight s' = [] \<and> reachable cfg srt up ins b d s'"
proof (induction "work s" arbitrary: s rule: less_induct)
  case less
  note r = less(2) and ne = less(3)
  show ?case
  proof (cases "in_flight s = []")
    case True
    then show ?thesis using r by (intro exI [of _ "[]"]) simp
  next
    case False
    from internal_step_enabled [OF reachable_within_limits [OF r] reachable_timer_runs [OF srt r ne]
        c False reachable_stopped [OF r]]
    obtain e s1 where e: "internal e" "server_step cfg srt up ins e s = Some s1" by blast
    then have st: "step cfg srt up ins e s = Some s1" by (simp add: server_stepD)
    have r1: "reachable cfg srt up ins b d s1" using r e(2) by (rule reachable.step)
    have acc: "accepted s1 = accepted s" using internal_accepted [OF st e(1)] .
    then have ne1: "nonempty_requests s1" using ne by (simp add: nonempty_requests_def)
    have "work s1 < work s"
      using internal_step_works [OF st e(1)] reachable_timer_runs [OF srt r1 ne1]
      by (auto simp: timer_runs_def)
    from less(1) [OF this r1 ne1] obtain es s' where
      "run cfg srt up ins es s1 = Some s'" "list_all internal es" "accepted s' = accepted s1"
      "in_flight s' = []" "reachable cfg srt up ins b d s'" by blast
    then show ?thesis using e acc by (intro exI [of _ "e # es"] exI [of _ s']) simp
  qed
qed

lemma internal_run_bound:
  assumes srt: "slice_sort srt"
  shows "reachable cfg srt up ins b d s \<Longrightarrow> nonempty_requests s \<Longrightarrow>
    run cfg srt up ins es s = Some s' \<Longrightarrow> list_all internal es \<Longrightarrow> length es \<le> work s"
proof (induction es arbitrary: s)
  case (Cons e es)
  from Cons(4) obtain s1 where e: "server_step cfg srt up ins e s = Some s1"
    and rest: "run cfg srt up ins es s1 = Some s'" by (auto split: bind_splits)
  then have st: "step cfg srt up ins e s = Some s1" by (simp add: server_stepD)
  have r1: "reachable cfg srt up ins b d s1" using Cons(2) e by (rule reachable.step)
  have ne1: "nonempty_requests s1"
    using Cons(3,5) internal_accepted [OF st] by (simp add: nonempty_requests_def)
  have "work s1 < work s"
    using internal_step_works [OF st] Cons(5) reachable_timer_runs [OF srt r1 ne1]
    by (auto simp: timer_runs_def)
  then show ?case using Cons.IH [OF r1 ne1 rest] Cons(5) by simp
qed simp

section \<open>Properties\<close>

text \<open>C8. Exactly-once replies: in every reachable state each accepted request is either in a batch
  in flight (waiting, queued or with a worker) or has been answered, and never both or twice.\<close>

theorem replies_exactly_once:
  assumes "reachable cfg srt upload add_wal b d s"
  shows "distinct (concat (map callbacks (in_flight s)) @ map fst (replies s)) \<and>
    set (map fst (accepted s)) =
      set (concat (map callbacks (in_flight s)) @ map fst (replies s))"
proof -
  have acc: "accounted s" using assms by (rule reachable_accounted)
  then have m: "mset (map fst (accepted s)) =
      mset (concat (map callbacks (in_flight s)) @ map fst (replies s))"
    by (simp add: accounted_def cbs_def)
  show ?thesis
    using acc mset_eq_imp_distinct_iff [OF m] mset_eq_setD [OF m] unfolding accounted_def by blast
qed

text \<open>What a worker writes is what its callbacks wait for: in every reachable state a batch in
  flight holds the records of exactly the requests whose callbacks it carries, in their order, and
  its size is the sum of its records' sizes.\<close>

lemma batches_hold_their_requests:
  assumes "reachable cfg srt upload add_wal b d s" and "x \<in> set (in_flight s)"
  shows "batch_records x =
      concat (map (\<lambda>cb. map to_record (the (map_of (accepted s) cb))) (callbacks x)) \<and>
    totalSize x = go_int (sum_list (map recordSize (batch_records x)))"
  using reachable_batches_ok [OF assms(1)] assms(2) by (auto simp: batches_ok_def batch_ok_def)

text \<open>C26. Bounded buffering: the waiting batch is always smaller than \<^verbatim>\<open>MaxBatchBytes\<close>, and neither
  the queue nor the set of busy workers exceeds \<^verbatim>\<open>MaxConcurrent\<close>.\<close>

theorem buffering_bounded:
  assumes "reachable cfg srt upload add_wal b d s"
  shows "(case current s of None \<Rightarrow> True | Some x \<Rightarrow> totalSize x < MaxBatchBytes cfg) \<and>
    int (length (in_flight s)) \<le> 2 * MaxConcurrent cfg + 2"
  using reachable_within_limits [OF assms]
  by (auto simp: within_limits_def in_flight_def split: option.splits loop_pc.splits)

text \<open>C27. As long as no accepted request is empty, no worker ever panics on an empty batch and the
  waiting batch's timer is running.\<close>

theorem no_panic_and_timer_runs:
  assumes "slice_sort srt" and "reachable cfg srt upload add_wal b d s"
    and "list_all (\<lambda>(cb, ws). ws \<noteq> []) (accepted s)"
  shows "\<not> panicked s \<and> (current s \<noteq> None \<longrightarrow> timer s = TimerArmed)"
  using reachable_timer_runs [OF assms(1,2)] assms(3) by (simp add: nonempty_requests_def timer_runs_def)

text \<open>C7. An acknowledged write is durable: once a request's callback has received nil, now and ever
  after there is a row in the log table whose object holds the encoded table of a batch that
  contains the request's records (and only records of accepted requests), whatever other workers
  do and whichever calls fail.\<close>

theorem acknowledged_writes_durable:
  assumes os: "object_store upload fetch contents" and wl: "wal_log add_wal rows valid"
    and d: "valid d" and r: "reachable cfg srt upload add_wal b d s"
    and ack: "(cb, None) \<in> set (replies s)" and ws: "map_of (accepted s) cb = Some ws"
  shows "\<exists>row recs. row \<in> set (rows (db s)) \<and> to_record ` set ws \<subseteq> set recs \<and>
    set recs \<subseteq> (\<Union>(cb, ws) \<in> set (accepted s). to_record ` set ws) \<and>
    contents (store s) (Path (Attrs row)) = Some (WriteRecords (batch_table srt recs))"
proof -
  have "durable srt contents rows s cb"
    using reachable_acks_durable [OF os wl d r] ack by (simp add: acks_durable_def)
  then obtain x uuid where x: "cb \<in> set (callbacks x)" "batch_ok (accepted s) x"
    "wal_path uuid \<in> Path ` Attrs ` set (rows (db s))"
    "stored_as srt (contents (store s)) uuid x" unfolding durable_def by blast
  obtain row where row: "row \<in> set (rows (db s))" "Path (Attrs row) = wal_path uuid"
    using x(3) by auto
  have "to_record ` set ws \<subseteq> set (batch_records x)"
    using x(1,2) ws by (force simp: batch_ok_def)
  moreover have "set (batch_records x) \<subseteq> (\<Union>(cb, ws) \<in> set (accepted s). to_record ` set ws)"
    using x(2) by (rule batch_ok_records)
  ultimately show ?thesis using row x(4) unfolding stored_as_def by metis
qed


section \<open>A run\<close>

text \<open>One request through the server, from its arrival to its acknowledgement.\<close>

definition demo_config :: Config where
  "demo_config = \<lparr>BatcherEnabled = True, MaxBatchBytes = 100, MaxBatchAge = 500, MaxConcurrent = 1\<rparr>"

definition demo_request :: "WriteRequest list" where
  "demo_request = [\<lparr>wr_key = ''k'', wr_op = Put [1]\<rparr>]"

definition demo_start :: "(mem_bucket, conn) server" where
  "demo_start = projr (NewHandler demo_config empty_bucket fresh_conn)"

definition demo_run :: "event list \<Rightarrow> (mem_bucket, conn) server" where
  "demo_run es =
     the (run demo_config insertion_sort mem_upload Queries_AddWriteAheadLog es demo_start)"

lemmas demo_simps = demo_run_def demo_start_def demo_config_def demo_request_def NewHandler_def
  server_step_def receive_def fire_timer_def worker_upload_def worker_insert_def notify_def
  without_worker_def add_request_def empty_batch_def to_record_def recordSize_def GetKey_def
  GetPut_def GetDelete_def upload_batch_def insert_batch_def batch_table_def dedup_def
  insertion_sort_def mem_upload_def Queries_AddWriteAheadLog_def empty_bucket_def fresh_conn_def
  stop_loop_def

lemma reachable_run:
  "reachable cfg srt up ins b d s \<Longrightarrow> run cfg srt up ins es s = Some s' \<Longrightarrow>
   reachable cfg srt up ins b d s'"
  by (induction es arbitrary: s) (auto split: bind_splits intro: reachable.step)

lemma reachable_demo:
  assumes "run demo_config insertion_sort mem_upload Queries_AddWriteAheadLog es demo_start \<noteq> None"
  shows "reachable demo_config insertion_sort mem_upload Queries_AddWriteAheadLog empty_bucket
    fresh_conn (demo_run es)"
proof -
  have "NewHandler demo_config empty_bucket fresh_conn = Inr demo_start"
    by (simp add: demo_start_def NewHandler_def demo_config_def)
  then show ?thesis
    using assms unfolding demo_run_def by (auto intro: reachable_run reachable.start)
qed

definition arrived :: "event list" where
  "arrived = [SpawnWorkers, Accept 0 demo_request]"

definition acknowledged :: "event list" where
  "acknowledged = arrived @ [TimerFires, SendBatch, TakeBatch, UploadBatch 0 ''x'', InsertBatch 0 7]"

lemma reachable_arrived: "reachable demo_config insertion_sort mem_upload Queries_AddWriteAheadLog
    empty_bucket fresh_conn (demo_run arrived)"
  by (rule reachable_demo) (simp add: arrived_def demo_simps go_int_def)

lemma reachable_acknowledged: "reachable demo_config insertion_sort mem_upload
    Queries_AddWriteAheadLog empty_bucket fresh_conn (demo_run acknowledged)"
  by (rule reachable_demo) (simp add: acknowledged_def arrived_def demo_simps go_int_def)

lemma demo_facts:
  "accepted (demo_run arrived) = [(0, demo_request)]"
  "accepted (demo_run acknowledged) = [(0, demo_request)]"
  "replies (demo_run acknowledged) = [(0, None)]"
  "in_flight (demo_run arrived) = [add_request empty_batch 0 demo_request]"
  by (simp_all add: acknowledged_def arrived_def in_flight_def demo_simps go_int_def)

theorem replies_exactly_once_witness:
  "set (concat (map callbacks (in_flight (demo_run arrived))) @
     map fst (replies (demo_run arrived))) = {0}"
  using replies_exactly_once [OF reachable_arrived] by (simp add: demo_facts)

lemma batches_hold_their_requests_example:
  "batch_records (add_request empty_batch 0 demo_request) = map to_record demo_request"
  using batches_hold_their_requests [OF reachable_arrived,
      of "add_request empty_batch 0 demo_request"]
  by (simp add: demo_facts empty_batch_def)

theorem buffering_bounded_witness:
  "totalSize (add_request empty_batch 0 demo_request) < MaxBatchBytes demo_config \<and>
   int (length (in_flight (demo_run arrived))) \<le> 4"
  using buffering_bounded [OF reachable_arrived]
  by (auto simp: demo_config_def demo_facts) (simp add: arrived_def demo_simps go_int_def)

theorem no_panic_and_timer_runs_witness: "\<not> panicked (demo_run arrived)"
  using no_panic_and_timer_runs [OF insertion.slice_sort_axioms reachable_arrived]
  by (simp add: demo_facts demo_request_def)

theorem acknowledged_writes_durable_witness:
  "\<exists>row recs. row \<in> set (conn_rows (db (demo_run acknowledged))) \<and>
    to_record ` set demo_request \<subseteq> set recs \<and>
    mem_contents (store (demo_run acknowledged)) (Path (Attrs row)) =
      Some (WriteRecords (batch_table insertion_sort recs))"
  using acknowledged_writes_durable [OF mem.object_store_axioms querier.wal_log_axioms
      db_ok_fresh_conn reachable_acknowledged, of 0 demo_request]
  by (auto simp: demo_facts)


text \<open>\<^verbatim>\<open>shutdown\<close> does not wait for the workers: \<^verbatim>\<open>processLoop\<close> closes \<^verbatim>\<open>done\<close> when it has
  started them, so with a request still waiting \<^verbatim>\<open>shutdown\<close> returns nil at once, and a later
  cancellation fails that request.\<close>

lemma shutdown_does_not_wait:
  "in_flight (demo_run arrived) \<noteq> [] \<and> replies (demo_run arrived) = [] \<and>
   shutdown None True (demo_run arrived) = Some None \<and>
   replies (demo_run (arrived @ [ContextDone, StopLoop])) = [(0, Some ErrCanceled)]"
  by (simp add: shutdown_def arrived_def in_flight_def demo_simps go_int_def)

text \<open>The timer is not restarted: a request without writes (its slice not nil, so not one that was decoded)
  starts a batch, its timer fires on the
  empty batch and is spent, and the next request joins a batch that no timer will flush: the
  server has no step of its own left although the request is unanswered.\<close>

lemma timer_lost_after_empty_request:
  "let s = demo_run [SpawnWorkers, Accept 0 [], TimerFires, Accept 1 demo_request] in
     concat (map callbacks (in_flight s)) = [0, 1] \<and> replies s = [] \<and>
     list_all (\<lambda>e. server_step demo_config insertion_sort mem_upload Queries_AddWriteAheadLog e s = None)
       [SendBatch, TimerFires, SpawnWorkers, TakeBatch, UploadBatch i u, InsertBatch i now]"
  by (simp add: in_flight_def demo_simps go_int_def)

end
