(* ===== verification/Storage.thy ===== *)
theory Storage
  imports ObjStore
begin

text \<open>
  \<^verbatim>\<open>internal/storage/bucket.go\<close>: opening the bucket a storage URL names. The parser of URLs, the
  environment and the S3 client of the object-store package are parameters; what is modelled is
  how the path of the URL is taken apart into the bucket's name and the prefix of its objects, with
  the slice expression that panics when the path has no leading slash. The lemmas: the name and
  the prefix for every path, and which URLs are refused.
\<close>

record url =
  Scheme :: string
  Host :: string
  UrlPath :: string

record s3_config =
  BucketName :: string
  Endpoint :: string
  Region :: string
  AccessKey :: string
  SecretKey :: string
  Insecure :: bool

text \<open>\<^verbatim>\<open>strings.TrimPrefix(s, "/")\<close>, \<^verbatim>\<open>strings.Index(s, "/")\<close> and \<^verbatim>\<open>cmp.Or\<close>.\<close>

fun trim_slash :: "string \<Rightarrow> string" where
  "trim_slash [] = []"
| "trim_slash (c # s) = (if c = CHR ''/'' then s else c # s)"

fun index_slash :: "string \<Rightarrow> int" where
  "index_slash [] = -1"
| "index_slash (c # s) =
     (if c = CHR ''/'' then 0 else (let i = index_slash s in if i < 0 then -1 else i + 1))"

definition cmp_or :: "string \<Rightarrow> string \<Rightarrow> string" where
  "cmp_or a b = (if a = [] then b else a)"

definition bucket_name :: "string \<Rightarrow> string" where
  "bucket_name p =
     (let n = trim_slash p in if index_slash n > 0 then take (nat (index_slash n)) n else n)"

text \<open>The result: the bucket, behind a prefix if the URL has one.\<close>

datatype 'b opened = Plain 'b | Prefixed 'b string

definition New ::
  "(string \<Rightarrow> url result) \<Rightarrow> (string \<Rightarrow> string) \<Rightarrow> (s3_config \<Rightarrow> 'b result) \<Rightarrow> string \<Rightarrow>
   'b opened result"
where
  "New parse getenv open_bucket bucketURL =
     (case parse bucketURL of
        Inl e \<Rightarrow> Inl (ErrWrap ''parsing bucket URL'' e)
      | Inr u \<Rightarrow>
          (let useSSL = Scheme u = ''https''; bucketName = bucket_name (UrlPath u) in
           if bucketName = [] then Inl (ErrText ''bucket name is empty'')
           else
             (case open_bucket \<lparr>BucketName = bucketName, Endpoint = Host u,
                       Region = cmp_or (getenv ''AWS_REGION'') ''us-east-1'',
                       AccessKey = getenv ''AWS_ACCESS_KEY_ID'',
                       SecretKey = getenv ''AWS_SECRET_ACCESS_KEY'', Insecure = \<not> useSSL\<rparr> of
                Inl e \<Rightarrow> Inl (ErrWrap ''creating S3 bucket'' e)
              | Inr bucket \<Rightarrow>
                  (case go_slice (UrlPath u) (int (length bucketName) + 1) (int (length (UrlPath u))) of
                     None \<Rightarrow> Inl (ErrPanic ''slice bounds out of range'')
                   | Some rest \<Rightarrow>
                       (let prefix = trim_slash rest in
                        if prefix \<noteq> [] then Inr (Prefixed bucket prefix) else Inr (Plain bucket))))))"

section \<open>The parts of a path\<close>

lemma index_slash_none: "CHR ''/'' \<notin> set s \<Longrightarrow> index_slash s = -1"
  by (induction s) auto

lemma index_slash_first: "CHR ''/'' \<notin> set s \<Longrightarrow> index_slash (s @ CHR ''/'' # t) = int (length s)"
  by (induction s) auto

lemma trim_slash_cons [simp]: "trim_slash (CHR ''/'' # s) = s"
  by simp

lemma bucket_name_whole: "CHR ''/'' \<notin> set n \<Longrightarrow> bucket_name (CHR ''/'' # n) = n"
  by (simp add: bucket_name_def index_slash_none)

lemma bucket_name_first:
  "CHR ''/'' \<notin> set n \<Longrightarrow> n \<noteq> [] \<Longrightarrow> bucket_name (CHR ''/'' # n @ CHR ''/'' # rest) = n"
  by (simp add: bucket_name_def index_slash_first)

lemma go_slice_rest: "go_slice (xs @ ys) (int (length xs)) (int (length (xs @ ys))) = Some ys"
  by (simp add: go_slice_def)

lemma rest_of_path:
  "go_slice (CHR ''/'' # n @ rest) (int (length n) + 1) (int (length (CHR ''/'' # n @ rest))) = Some rest"
  using go_slice_rest [of "CHR ''/'' # n" rest] by (simp add: add.commute)

lemma New_empty_name: "parse url = Inr u \<Longrightarrow> bucket_name (UrlPath u) = [] \<Longrightarrow>
   New parse getenv open_bucket url = Inl (ErrText ''bucket name is empty'')"
  by (simp add: New_def)

section \<open>Properties\<close>

text \<open>The first segment of the path names the bucket and the rest, without its slash, is the
  prefix of the objects, and neither is confused with the other: for a path \<open>/name\<close>, \<open>/name/\<close> or
  \<open>/name/prefix\<close> the bucket opened is \<open>name\<close> at the URL's host, over TLS exactly for https, and the
  prefix is there exactly if it is not empty.\<close>

lemma storage_url_names_bucket:
  assumes "parse url = Inr u" and "name \<noteq> []" and "CHR ''/'' \<notin> set name"
    and "UrlPath u = CHR ''/'' # name @ rest" and "rest = [] \<or> rest = CHR ''/'' # prefix"
    and "New parse getenv open_bucket url = r"
  shows "\<exists>cfg. BucketName cfg = name \<and> Endpoint cfg = Host u \<and> (Insecure cfg \<longleftrightarrow> Scheme u \<noteq> ''https'') \<and>
    r = (case open_bucket cfg of
           Inl e \<Rightarrow> Inl (ErrWrap ''creating S3 bucket'' e)
         | Inr b \<Rightarrow> Inr (if rest = [] \<or> prefix = [] then Plain b else Prefixed b prefix))"
proof -
  have n: "bucket_name (UrlPath u) = name"
    using assms(2-5) bucket_name_first [of name prefix] by (auto simp: bucket_name_whole)
  have s: "go_slice (UrlPath u) (int (length name) + 1) (int (length (UrlPath u))) = Some rest"
    unfolding assms(4) by (rule rest_of_path)
  have t: "trim_slash rest = (if rest = [] then [] else prefix)" using assms(5) by auto
  let ?cfg = "\<lparr>BucketName = name, Endpoint = Host u,
      Region = cmp_or (getenv ''AWS_REGION'') ''us-east-1'', AccessKey = getenv ''AWS_ACCESS_KEY_ID'',
      SecretKey = getenv ''AWS_SECRET_ACCESS_KEY'', Insecure = Scheme u \<noteq> ''https''\<rparr>"
  have "r = (case open_bucket ?cfg of
           Inl e \<Rightarrow> Inl (ErrWrap ''creating S3 bucket'' e)
         | Inr b \<Rightarrow> Inr (if rest = [] \<or> prefix = [] then Plain b else Prefixed b prefix))"
    unfolding assms(6) [symmetric] New_def assms(1) using n s t assms(2)
    by (simp add: Let_def split: sum.split)
  then show ?thesis by (intro exI [of _ ?cfg]) simp
qed

text \<open>A parser for the URLs of the witness and of the defaults.\<close>

definition demo_parse :: "string \<Rightarrow> url result" where
  "demo_parse s =
     (if s = ''http://minio:9000/objstore/a/b'' then
        Inr \<lparr>Scheme = ''http'', Host = ''minio:9000'', UrlPath = ''/objstore/a/b''\<rparr>
      else if s = ''filesystem://objstore'' then
        Inr \<lparr>Scheme = ''filesystem'', Host = ''objstore'', UrlPath = ''''\<rparr>
      else Inl (ErrText ''parse''))"

lemma storage_url_names_bucket_witness:
  "New demo_parse (\<lambda>_. '''') Inr ''http://minio:9000/objstore/a/b'' =
     Inr (Prefixed \<lparr>BucketName = ''objstore'', Endpoint = ''minio:9000'', Region = ''us-east-1'',
       AccessKey = '''', SecretKey = '''', Insecure = True\<rparr> ''a/b'')"
proof -
  let ?r = "New demo_parse (\<lambda>_. '''') Inr ''http://minio:9000/objstore/a/b'' :: s3_config opened result"
  have p: "demo_parse ''http://minio:9000/objstore/a/b'' =
      Inr \<lparr>Scheme = ''http'', Host = ''minio:9000'', UrlPath = ''/objstore/a/b''\<rparr>"
    by (simp add: demo_parse_def)
  have "\<exists>cfg. BucketName cfg = ''objstore'' \<and> Endpoint cfg = ''minio:9000'' \<and> Insecure cfg \<and>
      ?r = Inr (Prefixed cfg ''a/b'')"
    using storage_url_names_bucket [where name = "''objstore''" and rest = "''/a/b''" and
        prefix = "''a/b''" and open_bucket = "Inr :: s3_config \<Rightarrow> s3_config result" and getenv = "\<lambda>_. ''''" and
        parse = demo_parse and url = "''http://minio:9000/objstore/a/b''", OF p _ _ _ _ refl]
    by auto
  then show ?thesis by (auto simp: New_def p bucket_name_def go_slice_def cmp_or_def)
qed

text \<open>The program's default URL has no path.\<close>

lemma default_storage_url_refused:
  "parse ''filesystem://objstore'' =
     Inr \<lparr>Scheme = ''filesystem'', Host = ''objstore'', UrlPath = ''''\<rparr> \<Longrightarrow>
   New parse getenv open_bucket ''filesystem://objstore'' = Inl (ErrText ''bucket name is empty'')"
  by (simp add: New_def bucket_name_def)

text \<open>A path without its leading slash loses the slice expression's range.\<close>

lemma relative_path_panics:
  "parse url = Inr u \<Longrightarrow> UrlPath u = n \<Longrightarrow> n \<noteq> [] \<Longrightarrow> CHR ''/'' \<notin> set n \<Longrightarrow> accept = (\<lambda>c. Inr c) \<Longrightarrow>
   New parse getenv accept url = Inl (ErrPanic ''slice bounds out of range'')"
  by (cases n) (auto simp: New_def bucket_name_def index_slash_none go_slice_def)

end
