(* ===== verification/Pool.thy ===== *)
theory Pool
  imports Database
begin

text \<open>
  \<^verbatim>\<open>internal/database/pool.go\<close>: opening the database. The calls of the database packages are third
  party: a record says which of them fail. A run also gives the list of what it has done, in order,
  the deferred close of the temporary pool included. The lemmas: the pool handed out has both sets
  of migrations behind it, and the temporary pool never stays open.
\<close>

text \<open>\<^verbatim>\<open>m.Up\<close> has an error for having had nothing to do, \<^verbatim>\<open>migrate.ErrNoChange\<close>.\<close>

datatype migrate_up = UpApplied | UpNoChange | UpFailed go_error

record pool_calls =
  parse_fault :: "go_error option"
  temp_fault :: "go_error option"
  river_new_fault :: "go_error option"
  river_fault :: "go_error option"
  files_fault :: "go_error option"
  migrate_new_fault :: "go_error option"
  migrate_result :: migrate_up
  pool_fault :: "go_error option"

datatype pool_action = OpenTemp | CloseTemp | RiverMigrated | SchemaMigrated | OpenPool

definition check :: "string \<Rightarrow> go_error option \<Rightarrow> pool_action list \<Rightarrow> go_error option \<times> pool_action list \<Rightarrow>
  go_error option \<times> pool_action list"
where
  "check what fault acts rest =
     (case fault of
        Some e \<Rightarrow> (Some (ErrWrap what e), [])
      | None \<Rightarrow> (case rest of (r, as) \<Rightarrow> (r, acts @ as)))"

definition with_temp_pool :: "pool_calls \<Rightarrow> go_error option \<times> pool_action list" where
  "with_temp_pool c =
     check ''creating river migrate'' (river_new_fault c) []
    (check ''applying river migrations'' (river_fault c) [RiverMigrated]
    (check ''loading migrations'' (files_fault c) []
    (check ''creating driver'' (migrate_new_fault c) []
    (check ''applying migrations''
       (case migrate_result c of UpFailed e \<Rightarrow> Some e | _ \<Rightarrow> None) [SchemaMigrated]
    (check ''connecting to database'' (pool_fault c) [OpenPool] (None, []))))))"

definition Pool :: "pool_calls \<Rightarrow> go_error option \<times> pool_action list" where
  "Pool c =
     check ''parsing database config'' (parse_fault c) []
    (check ''connecting to database'' (temp_fault c) [OpenTemp]
      (case with_temp_pool c of (r, as) \<Rightarrow> (r, as @ [CloseTemp])))"

text \<open>Success is all calls going through, in this order.\<close>

lemma Pool_succeeds:
  "Pool c = (None, as) \<Longrightarrow> as = [OpenTemp, RiverMigrated, SchemaMigrated, OpenPool, CloseTemp]"
  by (auto simp: Pool_def with_temp_pool_def check_def split: option.splits prod.splits migrate_up.splits)

text \<open>No pool is opened on a schema that is not migrated, and a failed call leaves none open.\<close>

lemma Pool_fails: "Pool c = (Some e, as) \<Longrightarrow> OpenPool \<notin> set as"
  by (auto simp: Pool_def with_temp_pool_def check_def split: option.splits prod.splits migrate_up.splits)

lemma temp_pool_closed: "Pool c = (r, as) \<Longrightarrow> count_list as OpenTemp = count_list as CloseTemp"
  by (auto simp: Pool_def with_temp_pool_def check_def split: option.splits prod.splits migrate_up.splits)

end
