(* ===== verification/Worker.thy ===== *)
theory Worker
  imports Compaction
begin

text \<open>
  \<^verbatim>\<open>internal/worker/worker.go\<close> and \<^verbatim>\<open>internal/middleware/logging.go\<close>: the worker service, which
  runs the compaction jobs behind a logging middleware, and the interceptor that logs failed calls.
  A log is the list of its lines, each with the arguments that vary (durations are left out). The
  lemmas: both only observe, whatever the code inside does, a panic included.
\<close>

record WorkerConfig =
  WorkerEnabled :: bool
  NumWorkers :: int

text \<open>
  \<^verbatim>\<open>NewHandler\<close>: the client is made with its queue's number of workers and is started in the
  background, where an error of the start is dropped.
\<close>

record worker_handler =
  worker_config :: WorkerConfig
  max_workers :: int

definition NewWorkerHandler :: "(int \<Rightarrow> go_error option) \<Rightarrow> WorkerConfig \<Rightarrow> worker_handler result" where
  "NewWorkerHandler new_client cfg =
     (case new_client (NumWorkers cfg) of
        Some e \<Rightarrow> Inl (ErrWrap ''failed to create river client'' e)
      | None \<Rightarrow> Inr \<lparr>worker_config = cfg, max_workers = NumWorkers cfg\<rparr>)"

datatype work_line = WorkingOn job_id
  | WorkedOn job_id
  | WorkError job_id go_error
  | WorkPanic job_id go_error

text \<open>The middleware: the deferred function logs a panic and raises it again.\<close>

definition logging_Work ::
  "('s \<Rightarrow> go_error option \<times> 's) \<Rightarrow> job_id \<Rightarrow> 's \<Rightarrow> (go_error option \<times> 's) \<times> work_line list"
where
  "logging_Work doInner i s =
     (case doInner s of
        (None, s) \<Rightarrow> ((None, s), [WorkingOn i, WorkedOn i])
      | (Some e, s) \<Rightarrow>
          ((Some e, s), [WorkingOn i, if is_panic e then WorkPanic i e else WorkError i e]))"

definition work_job where
  "work_job srtW srtR fetch upload complete_tx faults uuid j s =
     logging_Work (Work srtW srtR fetch upload complete_tx faults uuid j) (JobID j) s"

lemma logging_Work_result [simp]: "fst (logging_Work doInner i s) = doInner s"
  by (auto simp: logging_Work_def split: prod.split option.split)

lemma logging_Work_lines:
  "snd (logging_Work doInner i s) = [WorkingOn i, x] \<Longrightarrow> x = WorkedOn i \<longleftrightarrow> fst (doInner s) = None"
  by (auto simp: logging_Work_def split: prod.splits option.splits if_splits)

section \<open>The interceptor\<close>

datatype rpc_line = RPCFailed string rpc_code go_error | RPCFailedPlain string go_error

text \<open>
  The type assertion \<^verbatim>\<open>err.(*connect.Error)\<close> looks at the error itself, not at what it wraps.
\<close>

definition LogErrors ::
  "('req \<Rightarrow> 'w \<Rightarrow> 'resp result \<times> 'w) \<Rightarrow> string \<Rightarrow> 'req \<Rightarrow> 'w \<Rightarrow> ('resp result \<times> 'w) \<times> rpc_line list"
where
  "LogErrors next procedure req w =
     (case next req w of
        (Inl (ErrRPC code e), w) \<Rightarrow> ((Inl (ErrRPC code e), w), [RPCFailed procedure code e])
      | (Inl e, w) \<Rightarrow> ((Inl e, w), [RPCFailedPlain procedure e])
      | (Inr resp, w) \<Rightarrow> ((Inr resp, w), []))"

lemma LogErrors_result [simp]: "fst (LogErrors next procedure req w) = next req w"
  by (auto simp: LogErrors_def split: prod.split sum.split go_error.split)

lemma LogErrors_lines: "snd (LogErrors next procedure req w) = [] \<longleftrightarrow> (\<exists>resp. fst (next req w) = Inr resp)"
  by (auto simp: LogErrors_def split: prod.split sum.split go_error.split)

end
