(* ===== verification/Connect.thy ===== *)
theory Connect
  imports Prelude "HOL-Library.Sublist"
begin

text \<open>
  The generated \<^verbatim>\<open>v1connect\<close> packages (\<^verbatim>\<open>gen/proto/*/v1/v1connect/service.connect.go\<close>): names of
  services and procedures, clients, handlers with their dispatch on the path, and handlers for
  services that are not implemented; and the router of \<^verbatim>\<open>net/http\<close> they are mounted on. The connect
  library is a parameter: what it makes of a procedure and a method is a handler, of a URL a
  client. The shape that all services share is the locale \<open>rpc_service\<close>, from which it follows
  that a client's URL is dispatched to its method and nothing else is.
\<close>

section \<open>Routing\<close>

text \<open>
  \<^verbatim>\<open>http.ServeMux\<close>: patterns with an optional method and a path, which stands for all below it when it
  ends in a slash. The most specific pattern that matches serves the request; a path that lacks
  only the last slash of a pattern is redirected. Paths are clean (no dots, no double slashes) and
  patterns have no host and no wildcards, as those of the program.
\<close>

type_synonym 'h mux = "(string \<times> (string \<Rightarrow> 'h)) list"

datatype 'h routed = Handled 'h | RedirectTo string | MethodNotAllowed | NotFoundPage

definition pattern_method :: "string \<Rightarrow> string option" where
  "pattern_method p = (if CHR '' '' \<in> set p then Some (takeWhile (\<lambda>c. c \<noteq> CHR '' '') p) else None)"

definition pattern_path :: "string \<Rightarrow> string" where
  "pattern_path p = (if CHR '' '' \<in> set p then tl (dropWhile (\<lambda>c. c \<noteq> CHR '' '') p) else p)"

definition subtree :: "string \<Rightarrow> bool" where
  "subtree p \<longleftrightarrow> p \<noteq> [] \<and> last p = CHR ''/''"

definition path_matches :: "string \<Rightarrow> string \<Rightarrow> bool" where
  "path_matches p path \<longleftrightarrow> (if subtree p then prefix p path else p = path)"

definition method_matches :: "string \<Rightarrow> string \<Rightarrow> bool" where
  "method_matches p verb \<longleftrightarrow>
     (case pattern_method p of
        None \<Rightarrow> True
      | Some m \<Rightarrow> m = verb \<or> m = ''GET'' \<and> verb = ''HEAD'')"

fun longest :: "'h mux \<Rightarrow> (string \<times> (string \<Rightarrow> 'h)) option" where
  "longest [] = None"
| "longest (e # es) =
     (case longest es of
        None \<Rightarrow> Some e
      | Some e' \<Rightarrow>
          if length (pattern_path (fst e)) \<ge> length (pattern_path (fst e')) then Some e else Some e')"

definition candidates :: "string \<Rightarrow> string \<Rightarrow> 'h mux \<Rightarrow> 'h mux" where
  "candidates verb path m =
     filter (\<lambda>(p, _). method_matches p verb \<and> path_matches (pattern_path p) path) m"

definition mux_handler :: "'h mux \<Rightarrow> string \<Rightarrow> string \<Rightarrow> 'h routed" where
  "mux_handler m verb path =
     (let named = (\<lambda>path. path \<in> pattern_path ` fst ` set (candidates verb path m)) in
      if \<not> named path \<and> \<not> subtree path \<and> named (path @ ''/'') then RedirectTo (path @ ''/'')
      else
        (case longest (candidates verb path m) of
           Some (_, h) \<Rightarrow> Handled (h path)
         | None \<Rightarrow>
             if list_ex (\<lambda>(p, _). path_matches (pattern_path p) path) m then MethodNotAllowed
             else NotFoundPage))"

text \<open>\<^verbatim>\<open>strings.TrimRight\<close>, and the path of a URL without query or fragment.\<close>

definition TrimRight :: "string \<Rightarrow> string \<Rightarrow> string" where
  "TrimRight s cutset = rev (dropWhile (\<lambda>c. c \<in> set cutset) (rev s))"

definition url_path :: "string \<Rightarrow> string" where
  "url_path u = dropWhile (\<lambda>c. c \<noteq> CHR ''/'') (drop (length ''http://'') u)"

section \<open>The services\<close>

text \<open>
  The connect library's \<^verbatim>\<open>NewUnaryHandler\<close> and \<^verbatim>\<open>NewClient\<close>: both get the method's schema (its
  service and its name) and options.
\<close>

type_synonym schema = "string \<times> string"
type_synonym ('m, 'o, 'h) new_unary_handler = "string \<Rightarrow> 'm \<Rightarrow> schema \<Rightarrow> 'o list \<Rightarrow> 'h"
type_synonym ('o, 'c) new_client = "string \<Rightarrow> schema \<Rightarrow> 'o list \<Rightarrow> 'c"

subsection \<open>BatcherService\<close>

definition BatcherServiceName :: string where
  "BatcherServiceName = ''batcher.v1.BatcherService''"

definition BatcherServiceBatchWriteProcedure :: string where
  "BatcherServiceBatchWriteProcedure = ''/batcher.v1.BatcherService/BatchWrite''"

record 'c batcherServiceClient =
  batchWrite_client :: 'c

definition NewBatcherServiceClient ::
  "('o, 'c) new_client \<Rightarrow> string \<Rightarrow> 'o list \<Rightarrow> 'c batcherServiceClient"
where
  "NewBatcherServiceClient NewClient baseURL opts =
     (let baseURL = TrimRight baseURL ''/'' in
      \<lparr>batchWrite_client = NewClient (baseURL @ BatcherServiceBatchWriteProcedure) (''BatcherService'', ''BatchWrite'') opts\<rparr>)"

definition call_BatchWrite :: "('c \<Rightarrow> 'q \<Rightarrow> 'r result) \<Rightarrow> 'c batcherServiceClient \<Rightarrow> 'q \<Rightarrow> 'r result" where
  "call_BatchWrite CallUnary c req = CallUnary (batchWrite_client c) req"

record 'm BatcherServiceHandler =
  BatchWrite_method :: 'm

definition NewBatcherServiceHandler ::
  "('m, 'o, 'h) new_unary_handler \<Rightarrow> 'h \<Rightarrow> 'm BatcherServiceHandler \<Rightarrow> 'o list \<Rightarrow> string \<times> (string \<Rightarrow> 'h)"
where
  "NewBatcherServiceHandler NewUnaryHandler not_found svc opts =
     (let batchWriteHandler =
            NewUnaryHandler BatcherServiceBatchWriteProcedure (BatchWrite_method svc) (''BatcherService'', ''BatchWrite'') opts
      in (''/batcher.v1.BatcherService/'',
          \<lambda>path. if path = BatcherServiceBatchWriteProcedure then batchWriteHandler else not_found))"

definition UnimplementedBatcherServiceHandler :: "('q \<Rightarrow> 'r result) BatcherServiceHandler" where
  "UnimplementedBatcherServiceHandler =
     \<lparr>BatchWrite_method = \<lambda>_. Inl (ErrRPC CodeUnimplemented
        (ErrText ''batcher.v1.BatcherService.BatchWrite is not implemented''))\<rparr>"

subsection \<open>CacheService\<close>

definition CacheServiceName :: string where
  "CacheServiceName = ''cache.v1.CacheService''"

definition CacheServiceGetProcedure :: string where
  "CacheServiceGetProcedure = ''/cache.v1.CacheService/Get''"

record 'c cacheServiceClient =
  get_client :: 'c

definition NewCacheServiceClient ::
  "('o, 'c) new_client \<Rightarrow> string \<Rightarrow> 'o list \<Rightarrow> 'c cacheServiceClient"
where
  "NewCacheServiceClient NewClient baseURL opts =
     (let baseURL = TrimRight baseURL ''/'' in
      \<lparr>get_client = NewClient (baseURL @ CacheServiceGetProcedure) (''CacheService'', ''Get'') opts\<rparr>)"

definition call_Get :: "('c \<Rightarrow> 'q \<Rightarrow> 'r result) \<Rightarrow> 'c cacheServiceClient \<Rightarrow> 'q \<Rightarrow> 'r result" where
  "call_Get CallUnary c req = CallUnary (get_client c) req"

record 'm CacheServiceHandler =
  Get_method :: 'm

definition NewCacheServiceHandler ::
  "('m, 'o, 'h) new_unary_handler \<Rightarrow> 'h \<Rightarrow> 'm CacheServiceHandler \<Rightarrow> 'o list \<Rightarrow> string \<times> (string \<Rightarrow> 'h)"
where
  "NewCacheServiceHandler NewUnaryHandler not_found svc opts =
     (let getHandler =
            NewUnaryHandler CacheServiceGetProcedure (Get_method svc) (''CacheService'', ''Get'') opts
      in (''/cache.v1.CacheService/'',
          \<lambda>path. if path = CacheServiceGetProcedure then getHandler else not_found))"

definition UnimplementedCacheServiceHandler :: "('q \<Rightarrow> 'r result) CacheServiceHandler" where
  "UnimplementedCacheServiceHandler =
     \<lparr>Get_method = \<lambda>_. Inl (ErrRPC CodeUnimplemented
        (ErrText ''cache.v1.CacheService.Get is not implemented''))\<rparr>"

subsection \<open>IndexService\<close>

definition IndexServiceName :: string where
  "IndexServiceName = ''index.v1.IndexService''"

definition IndexServiceBatchGetProcedure :: string where
  "IndexServiceBatchGetProcedure = ''/index.v1.IndexService/BatchGet''"

record 'c indexServiceClient =
  batchGet_client :: 'c

definition NewIndexServiceClient ::
  "('o, 'c) new_client \<Rightarrow> string \<Rightarrow> 'o list \<Rightarrow> 'c indexServiceClient"
where
  "NewIndexServiceClient NewClient baseURL opts =
     (let baseURL = TrimRight baseURL ''/'' in
      \<lparr>batchGet_client = NewClient (baseURL @ IndexServiceBatchGetProcedure) (''IndexService'', ''BatchGet'') opts\<rparr>)"

definition call_BatchGet :: "('c \<Rightarrow> 'q \<Rightarrow> 'r result) \<Rightarrow> 'c indexServiceClient \<Rightarrow> 'q \<Rightarrow> 'r result" where
  "call_BatchGet CallUnary c req = CallUnary (batchGet_client c) req"

record 'm IndexServiceHandler =
  BatchGet_method :: 'm

definition NewIndexServiceHandler ::
  "('m, 'o, 'h) new_unary_handler \<Rightarrow> 'h \<Rightarrow> 'm IndexServiceHandler \<Rightarrow> 'o list \<Rightarrow> string \<times> (string \<Rightarrow> 'h)"
where
  "NewIndexServiceHandler NewUnaryHandler not_found svc opts =
     (let batchGetHandler =
            NewUnaryHandler IndexServiceBatchGetProcedure (BatchGet_method svc) (''IndexService'', ''BatchGet'') opts
      in (''/index.v1.IndexService/'',
          \<lambda>path. if path = IndexServiceBatchGetProcedure then batchGetHandler else not_found))"

definition UnimplementedIndexServiceHandler :: "('q \<Rightarrow> 'r result) IndexServiceHandler" where
  "UnimplementedIndexServiceHandler =
     \<lparr>BatchGet_method = \<lambda>_. Inl (ErrRPC CodeUnimplemented
        (ErrText ''index.v1.IndexService.BatchGet is not implemented''))\<rparr>"

subsection \<open>OrchestratorService\<close>

definition OrchestratorServiceName :: string where
  "OrchestratorServiceName = ''orchestrator.v1.OrchestratorService''"

definition OrchestratorServiceListWriteAheadLogsProcedure :: string where
  "OrchestratorServiceListWriteAheadLogsProcedure = ''/orchestrator.v1.OrchestratorService/ListWriteAheadLogs''"

record 'c orchestratorServiceClient =
  listWriteAheadLogs_client :: 'c

definition NewOrchestratorServiceClient ::
  "('o, 'c) new_client \<Rightarrow> string \<Rightarrow> 'o list \<Rightarrow> 'c orchestratorServiceClient"
where
  "NewOrchestratorServiceClient NewClient baseURL opts =
     (let baseURL = TrimRight baseURL ''/'' in
      \<lparr>listWriteAheadLogs_client = NewClient (baseURL @ OrchestratorServiceListWriteAheadLogsProcedure) (''OrchestratorService'', ''ListWriteAheadLogs'') opts\<rparr>)"

definition call_ListWriteAheadLogs :: "('c \<Rightarrow> 'q \<Rightarrow> 'r result) \<Rightarrow> 'c orchestratorServiceClient \<Rightarrow> 'q \<Rightarrow> 'r result" where
  "call_ListWriteAheadLogs CallUnary c req = CallUnary (listWriteAheadLogs_client c) req"

record 'm OrchestratorServiceHandler =
  ListWriteAheadLogs_method :: 'm

definition NewOrchestratorServiceHandler ::
  "('m, 'o, 'h) new_unary_handler \<Rightarrow> 'h \<Rightarrow> 'm OrchestratorServiceHandler \<Rightarrow> 'o list \<Rightarrow> string \<times> (string \<Rightarrow> 'h)"
where
  "NewOrchestratorServiceHandler NewUnaryHandler not_found svc opts =
     (let listWriteAheadLogsHandler =
            NewUnaryHandler OrchestratorServiceListWriteAheadLogsProcedure (ListWriteAheadLogs_method svc) (''OrchestratorService'', ''ListWriteAheadLogs'') opts
      in (''/orchestrator.v1.OrchestratorService/'',
          \<lambda>path. if path = OrchestratorServiceListWriteAheadLogsProcedure then listWriteAheadLogsHandler else not_found))"

definition UnimplementedOrchestratorServiceHandler :: "('q \<Rightarrow> 'r result) OrchestratorServiceHandler" where
  "UnimplementedOrchestratorServiceHandler =
     \<lparr>ListWriteAheadLogs_method = \<lambda>_. Inl (ErrRPC CodeUnimplemented
        (ErrText ''orchestrator.v1.OrchestratorService.ListWriteAheadLogs is not implemented''))\<rparr>"

subsection \<open>WorkerService\<close>

text \<open>The worker's service has no procedures.\<close>

definition WorkerServiceName :: string where
  "WorkerServiceName = ''worker.v1.WorkerService''"

datatype WorkerServiceClient = WorkerClient

definition NewWorkerServiceClient :: "string \<Rightarrow> 'o list \<Rightarrow> WorkerServiceClient" where
  "NewWorkerServiceClient baseURL opts = WorkerClient"

datatype WorkerServiceHandler = UnimplementedWorkerServiceHandler

definition NewWorkerServiceHandler :: "'h \<Rightarrow> 'w \<Rightarrow> 'o list \<Rightarrow> string \<times> (string \<Rightarrow> 'h)" where
  "NewWorkerServiceHandler not_found svc opts = (''/worker.v1.WorkerService/'', \<lambda>path. not_found)"

section \<open>What the services share\<close>

text \<open>No pattern of the mux concerns a path.\<close>

definition apart :: "string \<Rightarrow> 'h mux \<Rightarrow> bool" where
  "apart path m \<longleftrightarrow>
     list_all (\<lambda>(p, _). \<not> path_matches (pattern_path p) path \<and> pattern_path p \<noteq> path @ ''/'') m"

lemma apart_simps [simp]:
  "apart path []"
  "apart path ((p, f) # m) \<longleftrightarrow>
     \<not> path_matches (pattern_path p) path \<and> pattern_path p \<noteq> path @ ''/'' \<and> apart path m"
  "apart path (m @ m') \<longleftrightarrow> apart path m \<and> apart path m'"
  by (simp_all add: apart_def)

lemma candidates_append: "candidates verb path (m @ m') = candidates verb path m @ candidates verb path m'"
  by (simp add: candidates_def)

lemma candidates_Cons: "candidates verb path (e # m) =
    (if method_matches (fst e) verb \<and> path_matches (pattern_path (fst e)) path then [e] else []) @
    candidates verb path m"
  by (simp add: candidates_def split_beta)

text \<open>A service with one procedure: its name, the procedure's name, what it is mounted with for a
  method's handler, and the URL its client calls.\<close>

locale rpc_service =
  fixes name :: string
    and procedure :: string
    and mounted :: "'h \<Rightarrow> 'h \<Rightarrow> string \<times> (string \<Rightarrow> 'h)"
    and client_url :: "string \<Rightarrow> string"
  assumes procedure_below: "\<exists>m. m \<noteq> [] \<and> CHR ''/'' \<notin> set m \<and> procedure = ''/'' @ name @ ''/'' @ m"
    and mounted_at: "fst (mounted h nf) = ''/'' @ name @ ''/''"
    and dispatches: "snd (mounted h nf) path = (if path = procedure then h else nf)"
    and client_calls: "client_url base = TrimRight base ''/'' @ procedure"
    and plain_name: "CHR '' '' \<notin> set name"
begin

lemma procedure_matches: "path_matches (pattern_path (fst (mounted h nf))) procedure"
    "method_matches (fst (mounted h nf)) verb"
  using procedure_below plain_name
  by (auto simp: path_matches_def subtree_def pattern_path_def method_matches_def pattern_method_def
      mounted_at)

lemma client_path:
  assumes "CHR ''/'' \<notin> set host" and "host \<noteq> []"
  shows "url_path (client_url (''http://'' @ host @ replicate n CHR ''/'')) = procedure"
proof -
  have "dropWhile (\<lambda>c. c = CHR ''/'') (replicate n CHR ''/'' @ rev host @ rev ''http://'') =
      rev host @ rev ''http://''"
    using assms by (induction n; cases host rule: rev_cases) auto
  then have "TrimRight (''http://'' @ host @ replicate n CHR ''/'') ''/'' = ''http://'' @ host"
    by (simp add: TrimRight_def)
  moreover have "dropWhile (\<lambda>c. c \<noteq> CHR ''/'') (host @ procedure) = procedure"
    using assms(1) procedure_below by (subst dropWhile_append2) auto
  ultimately show ?thesis by (simp add: url_path_def client_calls)
qed

text \<open>A request for the procedure reaches the method on a mux where nothing but this service matches
  it; where nothing at all does, it is not found.\<close>

lemma routed_to_method:
  assumes "apart procedure xs" and "apart procedure ys"
  shows "mux_handler (xs @ mounted h nf # ys) verb procedure = Handled h"
proof -
  let ?m = "xs @ mounted h nf # ys"
  have "pattern_path (fst (mounted h nf)) \<noteq> procedure @ ''/''"
    using procedure_below plain_name by (auto simp: pattern_path_def mounted_at)
  then have "procedure @ ''/'' \<notin> pattern_path ` fst ` set (candidates verb (procedure @ ''/'') ?m)"
    using assms by (auto simp: candidates_def apart_def list_all_iff)
  moreover have "candidates verb procedure zs = []" if "apart procedure zs" for zs :: "'h mux"
    using that by (auto simp: candidates_def apart_def list_all_iff filter_empty_conv)
  then have "candidates verb procedure ?m = [mounted h nf]"
    using assms procedure_matches [of h nf] by (simp add: candidates_append candidates_Cons)
  moreover obtain p f where "mounted h nf = (p, f)" "f procedure = h"
    using dispatches [of h nf procedure] by (cases "mounted h nf") auto
  ultimately show ?thesis by (simp add: mux_handler_def)
qed

lemma not_routed:
  assumes "apart procedure m"
  shows "mux_handler m verb procedure = NotFoundPage"
proof -
  have "procedure @ ''/'' \<notin> pattern_path ` fst ` set (candidates verb (procedure @ ''/'') m)"
    "candidates verb procedure m = []"
    using assms by (auto simp: candidates_def apart_def list_all_iff filter_empty_conv)
  moreover have "\<not> list_ex (\<lambda>(p, f). path_matches (pattern_path p) procedure) m"
    using assms by (auto simp: list_ex_iff apart_def list_all_iff)
  ultimately show ?thesis by (simp add: mux_handler_def)
qed

lemma routed_if:
  assumes "apart procedure xs" and "apart procedure ys"
  shows "mux_handler (xs @ (if b then [mounted h nf] else []) @ ys) verb procedure =
    (if b then Handled h else NotFoundPage)"
  using routed_to_method [OF assms, of h nf verb] not_routed [of "xs @ ys" verb] assms by simp

end

interpretation batcher_rpc: rpc_service BatcherServiceName BatcherServiceBatchWriteProcedure
  "\<lambda>h nf. NewBatcherServiceHandler (\<lambda>_ h _ _. h) nf \<lparr>BatchWrite_method = h\<rparr> ([] :: unit list)"
  "\<lambda>base. batchWrite_client (NewBatcherServiceClient (\<lambda>url _ _. url) base ([] :: unit list))"
proof
  show "\<exists>m. m \<noteq> [] \<and> CHR ''/'' \<notin> set m \<and>
      BatcherServiceBatchWriteProcedure = ''/'' @ BatcherServiceName @ ''/'' @ m"
    by (intro exI [of _ "''BatchWrite''"]) (simp add: BatcherServiceBatchWriteProcedure_def BatcherServiceName_def)
qed (simp_all add: NewBatcherServiceHandler_def NewBatcherServiceClient_def BatcherServiceName_def)

interpretation cache_rpc: rpc_service CacheServiceName CacheServiceGetProcedure
  "\<lambda>h nf. NewCacheServiceHandler (\<lambda>_ h _ _. h) nf \<lparr>Get_method = h\<rparr> ([] :: unit list)"
  "\<lambda>base. get_client (NewCacheServiceClient (\<lambda>url _ _. url) base ([] :: unit list))"
proof
  show "\<exists>m. m \<noteq> [] \<and> CHR ''/'' \<notin> set m \<and>
      CacheServiceGetProcedure = ''/'' @ CacheServiceName @ ''/'' @ m"
    by (intro exI [of _ "''Get''"]) (simp add: CacheServiceGetProcedure_def CacheServiceName_def)
qed (simp_all add: NewCacheServiceHandler_def NewCacheServiceClient_def CacheServiceName_def)

interpretation index_rpc: rpc_service IndexServiceName IndexServiceBatchGetProcedure
  "\<lambda>h nf. NewIndexServiceHandler (\<lambda>_ h _ _. h) nf \<lparr>BatchGet_method = h\<rparr> ([] :: unit list)"
  "\<lambda>base. batchGet_client (NewIndexServiceClient (\<lambda>url _ _. url) base ([] :: unit list))"
proof
  show "\<exists>m. m \<noteq> [] \<and> CHR ''/'' \<notin> set m \<and>
      IndexServiceBatchGetProcedure = ''/'' @ IndexServiceName @ ''/'' @ m"
    by (intro exI [of _ "''BatchGet''"]) (simp add: IndexServiceBatchGetProcedure_def IndexServiceName_def)
qed (simp_all add: NewIndexServiceHandler_def NewIndexServiceClient_def IndexServiceName_def)

interpretation orchestrator_rpc: rpc_service OrchestratorServiceName OrchestratorServiceListWriteAheadLogsProcedure
  "\<lambda>h nf. NewOrchestratorServiceHandler (\<lambda>_ h _ _. h) nf \<lparr>ListWriteAheadLogs_method = h\<rparr> ([] :: unit list)"
  "\<lambda>base. listWriteAheadLogs_client (NewOrchestratorServiceClient (\<lambda>url _ _. url) base ([] :: unit list))"
proof
  show "\<exists>m. m \<noteq> [] \<and> CHR ''/'' \<notin> set m \<and>
      OrchestratorServiceListWriteAheadLogsProcedure = ''/'' @ OrchestratorServiceName @ ''/'' @ m"
    by (intro exI [of _ "''ListWriteAheadLogs''"]) (simp add: OrchestratorServiceListWriteAheadLogsProcedure_def OrchestratorServiceName_def)
qed (simp_all add: NewOrchestratorServiceHandler_def NewOrchestratorServiceClient_def OrchestratorServiceName_def)

end
