(* ===== verification/Skyvault.thy ===== *)
theory Skyvault
  imports System BatchLoop Storage Pool Worker Connect
begin

text \<open>
  \<^verbatim>\<open>cmd/skyvault/main.go\<close>: the program's start, which puts the components together, and its end.
  What third parties and the environment answer is a record; the components are started with their
  own models. Logging and the exporters are left out but for the calls that can end the program.
  The lemmas: which services a started program serves, reports healthy and lists, in terms of the
  configuration, and that the start ends in one of the ways the code has for it.
\<close>

record app_config =
  Addr :: string
  DatabaseURL :: string
  StorageURL :: string
  BatcherCfg :: Config
  CacheCfg :: CacheConfig
  IndexCfg :: IndexConfig
  OrchestratorCfg :: OrchestratorConfig
  WorkerCfg :: WorkerConfig

record flags =
  help_flag :: bool
  version_flag :: bool

text \<open>The answers the start depends on.\<close>

record ('b, 'd, 'c) environment =
  dotenv_error :: "(go_error \<times> bool) option"  \<comment> \<open>with what \<^verbatim>\<open>os.IsNotExist\<close> says of it\<close>
  env_config :: "app_config result"
  prometheus_fault :: "go_error option"
  otel_fault :: "go_error option"
  database_calls :: pool_calls
  database_handle :: 'd
  parse_url :: "string \<Rightarrow> url result"
  env_var :: "string \<Rightarrow> string"
  bucket_client :: "s3_config \<Rightarrow> 'b result"
  lru_package :: "'c lru"
  slices :: "WriteAheadLog sorter \<times> SharedRun sorter \<times> Partition sorter"
  cluster_fault :: "go_error option"
  kubernetes_fault :: "go_error option"
  pods_fault :: "go_error option"
  wal_watch :: "WriteAheadLog watch_start"
  run_watch :: "SharedRun watch_start"
  partition_watch :: "Partition watch_start"
  river_client :: "go_error option"
  river_workers :: "int \<Rightarrow> go_error option"
  health_path :: string
  health_service :: string
  reflection_path :: string

text \<open>What answers a request: a method of a service, the reply that there is no such procedure, or one of
  the common handlers.\<close>

datatype rpc = RpcBatchWrite | RpcGet | RpcBatchGet | RpcListWriteAheadLogs

datatype endpoint = Method rpc | NoProcedure | Health | Reflection | Metrics | Version

datatype interceptor = LogErrorsInterceptor | OpenTelemetry

text \<open>The program: its handlers, the patterns and handlers of its mux, the health map and the reflection list.\<close>

record ('b, 'd, 'c) app =
  batcher :: "('b opened, 'd) server option"
  cache_handler :: "'c sizeAwareCache option"
  index_service :: "index_handler option"
  orchestrator :: "OrchestratorConfig option"
  worker_service :: "worker_handler option"
  routes :: "endpoint mux"
  healthy :: "string list"
  enabledServices :: "string list"

definition new_app :: "('b, 'd, 'c) app" where
  "new_app = \<lparr>batcher = None, cache_handler = None, index_service = None, orchestrator = None,
     worker_service = None, routes = [], healthy = [], enabledServices = []\<rparr>"

text \<open>\<^verbatim>\<open>mux.Handle\<close> panics on a pattern it has already.\<close>

definition handle ::
  "string \<times> (string \<Rightarrow> endpoint) \<Rightarrow> ('b, 'd, 'c) app \<Rightarrow> ('b, 'd, 'c) app result"
where
  "handle e a =
     (if fst e \<in> fst ` set (routes a) then Inl (ErrPanic ''pattern conflicts'')
      else Inr (a\<lparr>routes := routes a @ [e]\<rparr>))"

text \<open>What every service's block does with its handler once it has one.\<close>

definition register ::
  "string \<Rightarrow> string \<times> (string \<Rightarrow> endpoint) \<Rightarrow> ('b, 'd, 'c) app \<Rightarrow> ('b, 'd, 'c) app result"
where
  "register name e a =
     (case handle e a of
        Inl err \<Rightarrow> Inl err
      | Inr a \<Rightarrow> Inr (a\<lparr>healthy := healthy a @ [name], enabledServices := enabledServices a @ [name]\<rparr>))"

text \<open>The library's handler for a method is that method here; the interceptors are on every service.\<close>

definition unary :: "(rpc, interceptor, endpoint) new_unary_handler" where
  "unary procedure m schema opts = Method m"

definition interceptors :: "interceptor list" where
  "interceptors = [LogErrorsInterceptor, OpenTelemetry]"

definition batcher_mount :: "string \<times> (string \<Rightarrow> endpoint)" where
  "batcher_mount =
     NewBatcherServiceHandler unary NoProcedure \<lparr>BatchWrite_method = RpcBatchWrite\<rparr> interceptors"

definition cache_mount :: "string \<times> (string \<Rightarrow> endpoint)" where
  "cache_mount = NewCacheServiceHandler unary NoProcedure \<lparr>Get_method = RpcGet\<rparr> interceptors"

definition index_mount :: "string \<times> (string \<Rightarrow> endpoint)" where
  "index_mount = NewIndexServiceHandler unary NoProcedure \<lparr>BatchGet_method = RpcBatchGet\<rparr> interceptors"

definition orchestrator_mount :: "string \<times> (string \<Rightarrow> endpoint)" where
  "orchestrator_mount =
     NewOrchestratorServiceHandler unary NoProcedure
       \<lparr>ListWriteAheadLogs_method = RpcListWriteAheadLogs\<rparr> interceptors"

definition worker_mount :: "string \<times> (string \<Rightarrow> endpoint)" where
  "worker_mount = NewWorkerServiceHandler NoProcedure () interceptors"

definition start_service ::
  "bool \<Rightarrow> 'h result \<Rightarrow> ('h \<Rightarrow> ('b, 'd, 'c) app \<Rightarrow> ('b, 'd, 'c) app) \<Rightarrow>
   string \<Rightarrow> string \<times> (string \<Rightarrow> endpoint) \<Rightarrow> ('b, 'd, 'c) app \<Rightarrow> ('b, 'd, 'c) app result"
where
  "start_service enabled made put name mount a =
     (if enabled then (case made of Inl e \<Rightarrow> Inl e | Inr h \<Rightarrow> register name mount (put h a)) else Inr a)"

definition start_batcher where
  "start_batcher env cfg bkt =
     start_service (BatcherEnabled (BatcherCfg cfg))
       (NewHandler (BatcherCfg cfg) bkt (database_handle env))
       (\<lambda>h a. a\<lparr>batcher := Some h\<rparr>) BatcherServiceName batcher_mount"

definition start_cache where
  "start_cache env cfg =
     start_service (CacheEnabled (CacheCfg cfg)) (NewCacheHandler (lru_package env) (CacheCfg cfg))
       (\<lambda>h a. a\<lparr>cache_handler := Some h\<rparr>) CacheServiceName cache_mount"

definition start_index where
  "start_index env cfg =
     start_service (IndexEnabled (IndexCfg cfg))
       (case slices env of (srtW, srtR, srtP) \<Rightarrow>
          NewIndexHandler srtW srtR srtP (IndexCfg cfg) (cluster_fault env) (kubernetes_fault env)
            (pods_fault env) (wal_watch env) (run_watch env) (partition_watch env))
       (\<lambda>h a. a\<lparr>index_service := Some h\<rparr>) IndexServiceName index_mount"

definition start_orchestrator where
  "start_orchestrator env cfg =
     start_service (OrchestratorEnabled (OrchestratorCfg cfg))
       (NewOrchestratorHandler (OrchestratorCfg cfg) (river_client env))
       (\<lambda>h a. a\<lparr>orchestrator := Some h\<rparr>) OrchestratorServiceName orchestrator_mount"

definition start_worker where
  "start_worker env cfg =
     start_service (WorkerEnabled (WorkerCfg cfg)) (NewWorkerHandler (river_workers env) (WorkerCfg cfg))
       (\<lambda>h a. a\<lparr>worker_service := Some h\<rparr>) WorkerServiceName worker_mount"

text \<open>The handlers every program has: health, reflection, metrics and version.\<close>

definition start_common where
  "start_common env a =
     (case handle (health_path env, \<lambda>_. Health) (a\<lparr>healthy := healthy a @ ['''']\<rparr>) of Inl e \<Rightarrow> Inl e | Inr a \<Rightarrow>
     (case handle (reflection_path env, \<lambda>_. Reflection)
        (a\<lparr>enabledServices := enabledServices a @ [health_service env]\<rparr>) of Inl e \<Rightarrow> Inl e | Inr a \<Rightarrow>
     (case handle (''GET /metrics'', \<lambda>_. Metrics) a of Inl e \<Rightarrow> Inl e | Inr a \<Rightarrow>
        handle (''GET /version'', \<lambda>_. Version) a)))"

text \<open>How a start ends: the two informative flags, an exit with status 1, a panic, or serving.\<close>

datatype 'a start = Usage | ShownVersion | Exit1 string go_error | Crashed go_error | Serving 'a

definition or_exit :: "string \<Rightarrow> 'x result \<Rightarrow> ('x \<Rightarrow> 'a start) \<Rightarrow> 'a start" where
  "or_exit what x k =
     (case x of
        Inl e \<Rightarrow> if is_panic e then Crashed e else Exit1 what e
      | Inr v \<Rightarrow> k v)"

definition of_fault :: "go_error option \<Rightarrow> unit result" where
  "of_fault f = (case f of Some e \<Rightarrow> Inl e | None \<Rightarrow> Inr ())"

definition main_start ::
  "('b, 'd, 'c) environment \<Rightarrow> flags \<Rightarrow> ('b, 'd, 'c) app start"
where
  "main_start env fl =
     (if help_flag fl then Usage else if version_flag fl then ShownVersion
      else
        or_exit ''error loading .env file''
          (case dotenv_error env of Some (e, False) \<Rightarrow> Inl e | _ \<Rightarrow> Inr ()) (\<lambda>_.
        or_exit ''error processing environment variables'' (env_config env) (\<lambda>cfg.
        or_exit ''setting up Prometheus exporter'' (of_fault (prometheus_fault env)) (\<lambda>_.
        or_exit ''setting up OpenTelemetry interceptor'' (of_fault (otel_fault env)) (\<lambda>_.
        or_exit ''setting up database'' (of_fault (fst (Pool (database_calls env)))) (\<lambda>_.
        or_exit ''setting up storage''
          (New (parse_url env) (env_var env) (bucket_client env) (StorageURL cfg)) (\<lambda>bkt.
        or_exit ''setting up batcher'' (start_batcher env cfg bkt new_app) (\<lambda>a.
        or_exit ''setting up cache'' (start_cache env cfg a) (\<lambda>a.
        or_exit ''setting up index'' (start_index env cfg a) (\<lambda>a.
        or_exit ''setting up orchestrator'' (start_orchestrator env cfg a) (\<lambda>a.
        or_exit ''setting up worker'' (start_worker env cfg a) (\<lambda>a.
        or_exit ''serving'' (start_common env a) Serving))))))))))))"

text \<open>
  While the program serves: the listener fails, or a signal comes. The signal cancels the context
  the handlers share and shuts the HTTP server down; nothing waits for the handlers, and the
  batcher's \<^verbatim>\<open>shutdown\<close> is not called.
\<close>

datatype server_event = ListenerFailed go_error | ListenerClosed | Signal

datatype 'a stop = StillServing 'a | Exited1 go_error | ShutDown 'a

definition cancel :: "('b, 'd, 'c) app \<Rightarrow> ('b, 'd, 'c) app" where
  "cancel a = a\<lparr>batcher := map_option (\<lambda>h. h\<lparr>ctx_done := True\<rparr>) (batcher a)\<rparr>"

fun main_serve :: "server_event list \<Rightarrow> ('b, 'd, 'c) app \<Rightarrow> ('b, 'd, 'c) app stop" where
  "main_serve [] a = StillServing a"
| "main_serve (ListenerFailed e # es) a = Exited1 e"
| "main_serve (ListenerClosed # es) a = main_serve es a"
| "main_serve (Signal # es) a = ShutDown (cancel a)"

section \<open>What is served\<close>

definition enabled_mounts :: "app_config \<Rightarrow> (string \<times> string \<times> (string \<Rightarrow> endpoint)) list" where
  "enabled_mounts cfg =
     (if BatcherEnabled (BatcherCfg cfg) then [(BatcherServiceName, batcher_mount)] else []) @
     (if CacheEnabled (CacheCfg cfg) then [(CacheServiceName, cache_mount)] else []) @
     (if IndexEnabled (IndexCfg cfg) then [(IndexServiceName, index_mount)] else []) @
     (if OrchestratorEnabled (OrchestratorCfg cfg) then [(OrchestratorServiceName, orchestrator_mount)]
      else []) @
     (if WorkerEnabled (WorkerCfg cfg) then [(WorkerServiceName, worker_mount)] else [])"

definition enabled_names :: "app_config \<Rightarrow> string list" where
  "enabled_names cfg = map fst (enabled_mounts cfg)"

definition route :: "string \<Rightarrow> string" where
  "route name = ''/'' @ name @ ''/''"

text \<open>The state after the services \<open>es\<close> have been started.\<close>

definition app_shows :: "(string \<times> string \<times> (string \<Rightarrow> endpoint)) list \<Rightarrow> ('b, 'd, 'c) app \<Rightarrow> bool" where
  "app_shows es a \<longleftrightarrow>
     routes a = map snd es \<and> healthy a = map fst es \<and> enabledServices a = map fst es"

lemma or_exit_cases:
  "or_exit what x k = Serving a \<longleftrightarrow> (\<exists>v. x = Inr v \<and> k v = Serving a)"
  by (auto simp: or_exit_def split: sum.split)

lemma handle_ok:
  "handle e a = Inr a' \<longleftrightarrow> fst e \<notin> fst ` set (routes a) \<and> a' = a\<lparr>routes := routes a @ [e]\<rparr>"
  by (auto simp: handle_def)

lemma start_service_shows:
  assumes "start_service enabled made put name mount a = Inr a'" and "app_shows es a"
    and "\<And>h. app_shows es (put h a)"
  shows "app_shows (es @ (if enabled then [(name, mount)] else [])) a'"
  using assms(1,2) assms(3) [of "projr made"]
  by (cases made) (auto simp: start_service_def register_def handle_def app_shows_def split: if_splits)

lemma start_shows:
  "start_batcher env cfg bkt a = Inr a' \<Longrightarrow> app_shows es a \<Longrightarrow>
    app_shows (es @ (if BatcherEnabled (BatcherCfg cfg) then [(BatcherServiceName, batcher_mount)] else [])) a'"
  "start_cache env cfg a = Inr a' \<Longrightarrow> app_shows es a \<Longrightarrow>
    app_shows (es @ (if CacheEnabled (CacheCfg cfg) then [(CacheServiceName, cache_mount)] else [])) a'"
  "start_index env cfg a = Inr a' \<Longrightarrow> app_shows es a \<Longrightarrow>
    app_shows (es @ (if IndexEnabled (IndexCfg cfg) then [(IndexServiceName, index_mount)] else [])) a'"
  "start_orchestrator env cfg a = Inr a' \<Longrightarrow> app_shows es a \<Longrightarrow>
    app_shows (es @ (if OrchestratorEnabled (OrchestratorCfg cfg)
      then [(OrchestratorServiceName, orchestrator_mount)] else [])) a'"
  "start_worker env cfg a = Inr a' \<Longrightarrow> app_shows es a \<Longrightarrow>
    app_shows (es @ (if WorkerEnabled (WorkerCfg cfg) then [(WorkerServiceName, worker_mount)] else [])) a'"
  unfolding start_batcher_def start_cache_def start_index_def start_orchestrator_def start_worker_def
  by (erule start_service_shows; simp add: app_shows_def)+

lemma start_services_show:
  assumes "start_batcher env cfg bkt new_app = Inr a1" and "start_cache env cfg a1 = Inr a2"
    and "start_index env cfg a2 = Inr a3" and "start_orchestrator env cfg a3 = Inr a4"
    and "start_worker env cfg a4 = Inr a5"
  shows "app_shows (enabled_mounts cfg) a5"
proof -
  have "app_shows [] new_app" by (simp add: app_shows_def new_app_def)
  note start_shows(5) [OF assms(5) start_shows(4) [OF assms(4) start_shows(3) [OF assms(3)
        start_shows(2) [OF assms(2) start_shows(1) [OF assms(1) this]]]]]
  then show ?thesis unfolding enabled_mounts_def by (simp only: append_Nil append_assoc)
qed

lemmas names = BatcherServiceName_def CacheServiceName_def IndexServiceName_def
  OrchestratorServiceName_def WorkerServiceName_def

lemmas mounts = batcher_mount_def cache_mount_def index_mount_def orchestrator_mount_def worker_mount_def
  NewBatcherServiceHandler_def NewCacheServiceHandler_def NewIndexServiceHandler_def
  NewOrchestratorServiceHandler_def NewWorkerServiceHandler_def

lemma mount_patterns: "map (fst \<circ> snd) (enabled_mounts cfg) = map route (enabled_names cfg)"
  by (simp add: enabled_names_def enabled_mounts_def route_def mounts names)

lemma distinct_routes: "distinct (map route (enabled_names cfg))"
  by (simp add: enabled_names_def enabled_mounts_def route_def names)

lemma start_common_ok:
  assumes "start_common env a = Inr a'"
  shows "a' = a\<lparr>healthy := healthy a @ [''''], enabledServices := enabledServices a @ [health_service env],
      routes := routes a @ [(health_path env, \<lambda>_. Health), (reflection_path env, \<lambda>_. Reflection),
        (''GET /metrics'', \<lambda>_. Metrics), (''GET /version'', \<lambda>_. Version)]\<rparr>"
    and "distinct (map fst (routes a)) \<Longrightarrow> distinct (map fst (routes a'))"
  using assms by (auto simp: start_common_def handle_ok split: sum.splits)

text \<open>The mux of a program that serves.\<close>

lemma serving_routes:
  assumes "main_start env fl = Serving a" and "env_config env = Inr cfg"
  shows "routes a = map snd (enabled_mounts cfg) @
    [(health_path env, \<lambda>_. Health), (reflection_path env, \<lambda>_. Reflection),
     (''GET /metrics'', \<lambda>_. Metrics), (''GET /version'', \<lambda>_. Version)]"
proof -
  from assms obtain bkt a1 a2 a3 a4 a5 where
    starts: "start_batcher env cfg bkt new_app = Inr a1" "start_cache env cfg a1 = Inr a2"
      "start_index env cfg a2 = Inr a3" "start_orchestrator env cfg a3 = Inr a4"
      "start_worker env cfg a4 = Inr a5" and common: "start_common env a5 = Inr a"
    by (auto simp: main_start_def or_exit_cases split: if_splits)
  show ?thesis
    using start_common_ok(1) [OF common] start_services_show [OF starts] by (simp add: app_shows_def)
qed

text \<open>The services whose handlers are there.\<close>

definition running :: "('b, 'd, 'c) app \<Rightarrow> bool list" where
  "running a = [batcher a \<noteq> None, cache_handler a \<noteq> None, index_service a \<noteq> None, orchestrator a \<noteq> None,
     worker_service a \<noteq> None]"

lemma start_service_put:
  assumes "start_service enabled made put name mount a = Inr a'"
  obtains "\<not> enabled" "a' = a"
    | h rs hs es where "enabled" "a' = put h a\<lparr>routes := rs, healthy := hs, enabledServices := es\<rparr>"
  using assms by (auto simp: start_service_def register_def handle_def split: if_splits sum.splits)

lemma start_running:
  "start_batcher env cfg bkt a = Inr a' \<Longrightarrow> running a = [False, False, False, False, False] \<Longrightarrow>
     running a' = [BatcherEnabled (BatcherCfg cfg), False, False, False, False]"
  "start_cache env cfg a = Inr a' \<Longrightarrow> running a = [r1, False, False, False, False] \<Longrightarrow>
     running a' = [r1, CacheEnabled (CacheCfg cfg), False, False, False]"
  "start_index env cfg a = Inr a' \<Longrightarrow> running a = [r1, r2, False, False, False] \<Longrightarrow>
     running a' = [r1, r2, IndexEnabled (IndexCfg cfg), False, False]"
  "start_orchestrator env cfg a = Inr a' \<Longrightarrow> running a = [r1, r2, r3, False, False] \<Longrightarrow>
     running a' = [r1, r2, r3, OrchestratorEnabled (OrchestratorCfg cfg), False]"
  "start_worker env cfg a = Inr a' \<Longrightarrow> running a = [r1, r2, r3, r4, False] \<Longrightarrow>
     running a' = [r1, r2, r3, r4, WorkerEnabled (WorkerCfg cfg)]"
  unfolding start_batcher_def start_cache_def start_index_def start_orchestrator_def start_worker_def
  by (erule start_service_put; auto simp: running_def)+

definition enabled_services :: "app_config \<Rightarrow> bool list" where
  "enabled_services cfg = [BatcherEnabled (BatcherCfg cfg), CacheEnabled (CacheCfg cfg),
     IndexEnabled (IndexCfg cfg), OrchestratorEnabled (OrchestratorCfg cfg), WorkerEnabled (WorkerCfg cfg)]"

section \<open>Properties\<close>

text \<open>A program that gets to serve, serves exactly what its configuration enables: the enabled
  services, in their order, are the ones it routes requests to, reports healthy and lists for
  reflection, next to the four common handlers; each enabled service's handler is there and no
  other; and both sets of migrations have been applied before any of them was started.\<close>

lemma serves_what_is_enabled:
  assumes "main_start env fl = Serving a" and "env_config env = Inr cfg"
  shows "enabledServices a = enabled_names cfg @ [health_service env] \<and>
    healthy a = enabled_names cfg @ [''''] \<and>
    map fst (routes a) = map route (enabled_names cfg) @
      [health_path env, reflection_path env, ''GET /metrics'', ''GET /version''] \<and>
    distinct (map fst (routes a)) \<and> running a = enabled_services cfg \<and>
    snd (Pool (database_calls env)) = [OpenTemp, RiverMigrated, SchemaMigrated, OpenPool, CloseTemp]"
proof -
  from assms obtain bkt a1 a2 a3 a4 a5 where
    starts: "start_batcher env cfg bkt new_app = Inr a1" "start_cache env cfg a1 = Inr a2"
      "start_index env cfg a2 = Inr a3" "start_orchestrator env cfg a3 = Inr a4"
      "start_worker env cfg a4 = Inr a5" and common: "start_common env a5 = Inr a"
    and pool: "of_fault (fst (Pool (database_calls env))) = Inr ()"
    by (auto simp: main_start_def or_exit_cases split: if_splits)
  have shows5: "app_shows (enabled_mounts cfg) a5" by (rule start_services_show [OF starts])
  have "Pool (database_calls env) = (None, snd (Pool (database_calls env)))"
    using pool by (simp add: prod_eq_iff of_fault_def split: option.splits)
  then have "snd (Pool (database_calls env)) = [OpenTemp, RiverMigrated, SchemaMigrated, OpenPool, CloseTemp]"
    by (rule Pool_succeeds)
  moreover have "running new_app = [False, False, False, False, False]"
    by (simp add: running_def new_app_def)
  then have "running a5 = enabled_services cfg"
    unfolding enabled_services_def
    by (rule start_running(5) [OF starts(5) start_running(4) [OF starts(4) start_running(3) [OF starts(3)
          start_running(2) [OF starts(2) start_running(1) [OF starts(1)]]]]])
  moreover have "map fst (routes a5) = map route (enabled_names cfg)"
    using mount_patterns [of cfg] shows5 by (simp add: comp_def app_shows_def)
  moreover from this have "distinct (map fst (routes a))"
    using start_common_ok(2) [OF common] distinct_routes [of cfg] by simp
  moreover have "map fst (routes a) = map fst (routes a5) @
      [health_path env, reflection_path env, ''GET /metrics'', ''GET /version'']"
    "enabledServices a = enabled_names cfg @ [health_service env]" "healthy a = enabled_names cfg @ ['''']"
    "running a = running a5"
    using start_common_ok(1) [OF common] shows5 by (simp_all add: app_shows_def running_def enabled_names_def)
  ultimately show ?thesis by metis
qed

text \<open>The handler's patterns have nothing to do with another service's procedure.\<close>

lemmas procedures = BatcherServiceBatchWriteProcedure_def CacheServiceGetProcedure_def
  IndexServiceBatchGetProcedure_def OrchestratorServiceListWriteAheadLogsProcedure_def

lemma mounts_apart:
  "m \<in> {cache_mount, index_mount, orchestrator_mount, worker_mount} \<Longrightarrow>
     apart BatcherServiceBatchWriteProcedure [m]"
  "m \<in> {batcher_mount, index_mount, orchestrator_mount, worker_mount} \<Longrightarrow>
     apart CacheServiceGetProcedure [m]"
  "m \<in> {batcher_mount, cache_mount, orchestrator_mount, worker_mount} \<Longrightarrow>
     apart IndexServiceBatchGetProcedure [m]"
  "m \<in> {batcher_mount, cache_mount, index_mount, worker_mount} \<Longrightarrow>
     apart OrchestratorServiceListWriteAheadLogsProcedure [m]"
  by (auto simp: mounts procedures Let_def path_matches_def subtree_def pattern_path_def)

definition common_mounts :: "endpoint mux" where
  "common_mounts =
     [(''/grpc.health.v1.Health/'', \<lambda>_. Health), (''/grpc.reflection.v1.ServerReflection/'', \<lambda>_. Reflection),
      (''GET /metrics'', \<lambda>_. Metrics), (''GET /version'', \<lambda>_. Version)]"

lemma common_apart:
  "apart BatcherServiceBatchWriteProcedure common_mounts" "apart CacheServiceGetProcedure common_mounts"
  "apart IndexServiceBatchGetProcedure common_mounts"
  "apart OrchestratorServiceListWriteAheadLogsProcedure common_mounts"
  by (simp_all add: common_mounts_def procedures path_matches_def subtree_def pattern_path_def)

lemma mounts_are_services:
  "batcher_mount = NewBatcherServiceHandler (\<lambda>_ h _ _. h) NoProcedure
     \<lparr>BatchWrite_method = Method RpcBatchWrite\<rparr> ([] :: unit list)"
  "cache_mount = NewCacheServiceHandler (\<lambda>_ h _ _. h) NoProcedure
     \<lparr>Get_method = Method RpcGet\<rparr> ([] :: unit list)"
  "index_mount = NewIndexServiceHandler (\<lambda>_ h _ _. h) NoProcedure
     \<lparr>BatchGet_method = Method RpcBatchGet\<rparr> ([] :: unit list)"
  "orchestrator_mount = NewOrchestratorServiceHandler (\<lambda>_ h _ _. h) NoProcedure
     \<lparr>ListWriteAheadLogs_method = Method RpcListWriteAheadLogs\<rparr> ([] :: unit list)"
  by (simp_all add: mounts unary_def)

definition mount_if :: "bool \<Rightarrow> string \<times> (string \<Rightarrow> endpoint) \<Rightarrow> endpoint mux" where
  "mount_if b m = (if b then [m] else [])"

lemma apart_mount_if: "apart p [m] \<Longrightarrow> apart p (mount_if b m)"
  by (simp add: mount_if_def)

lemma batcher_routed:
  "apart BatcherServiceBatchWriteProcedure xs \<Longrightarrow> apart BatcherServiceBatchWriteProcedure ys \<Longrightarrow>
   mux_handler (xs @ mount_if b batcher_mount @ ys) verb BatcherServiceBatchWriteProcedure =
     (if b then Handled (Method RpcBatchWrite) else NotFoundPage)"
  unfolding mount_if_def mounts_are_services by (rule batcher_rpc.routed_if)

lemma cache_routed:
  "apart CacheServiceGetProcedure xs \<Longrightarrow> apart CacheServiceGetProcedure ys \<Longrightarrow>
   mux_handler (xs @ mount_if b cache_mount @ ys) verb CacheServiceGetProcedure =
     (if b then Handled (Method RpcGet) else NotFoundPage)"
  unfolding mount_if_def mounts_are_services by (rule cache_rpc.routed_if)

lemma index_routed:
  "apart IndexServiceBatchGetProcedure xs \<Longrightarrow> apart IndexServiceBatchGetProcedure ys \<Longrightarrow>
   mux_handler (xs @ mount_if b index_mount @ ys) verb IndexServiceBatchGetProcedure =
     (if b then Handled (Method RpcBatchGet) else NotFoundPage)"
  unfolding mount_if_def mounts_are_services by (rule index_rpc.routed_if)

lemma orchestrator_routed:
  "apart OrchestratorServiceListWriteAheadLogsProcedure xs \<Longrightarrow> apart OrchestratorServiceListWriteAheadLogsProcedure ys \<Longrightarrow>
   mux_handler (xs @ mount_if b orchestrator_mount @ ys) verb OrchestratorServiceListWriteAheadLogsProcedure =
     (if b then Handled (Method RpcListWriteAheadLogs) else NotFoundPage)"
  unfolding mount_if_def mounts_are_services by (rule orchestrator_rpc.routed_if)

lemma mounted_mux: "map snd (enabled_mounts cfg) =
    mount_if (BatcherEnabled (BatcherCfg cfg)) batcher_mount @
    mount_if (CacheEnabled (CacheCfg cfg)) cache_mount @
    mount_if (IndexEnabled (IndexCfg cfg)) index_mount @
    mount_if (OrchestratorEnabled (OrchestratorCfg cfg)) orchestrator_mount @
    mount_if (WorkerEnabled (WorkerCfg cfg)) worker_mount"
  by (simp add: enabled_mounts_def mount_if_def)

text \<open>The endpoint a POST request for a URL of the program reaches.\<close>

definition served_at :: "('b, 'd, 'c) app \<Rightarrow> string \<Rightarrow> endpoint routed" where
  "served_at a url = mux_handler (routes a) ''POST'' (url_path url)"

text \<open>C31. Calls reach their methods: a call of a procedure with the client of its service, made for
  the program's address (with or without slashes at its end), is routed to the method of that
  service exactly if the service is enabled, and is not found otherwise.\<close>

theorem calls_reach_their_methods:
  assumes "main_start env fl = Serving a" and "env_config env = Inr cfg"
    and "health_path env = ''/grpc.health.v1.Health/''"
    and "reflection_path env = ''/grpc.reflection.v1.ServerReflection/''"
    and "CHR ''/'' \<notin> set host" and "host \<noteq> []"
    and "base = ''http://'' @ host @ replicate n CHR ''/''"
  shows
    "served_at a (batchWrite_client (NewBatcherServiceClient (\<lambda>url _ _. url) base ([] :: unit list))) =
       (if BatcherEnabled (BatcherCfg cfg) then Handled (Method RpcBatchWrite) else NotFoundPage) \<and>
     served_at a (get_client (NewCacheServiceClient (\<lambda>url _ _. url) base ([] :: unit list))) =
       (if CacheEnabled (CacheCfg cfg) then Handled (Method RpcGet) else NotFoundPage) \<and>
     served_at a (batchGet_client (NewIndexServiceClient (\<lambda>url _ _. url) base ([] :: unit list))) =
       (if IndexEnabled (IndexCfg cfg) then Handled (Method RpcBatchGet) else NotFoundPage) \<and>
     served_at a (listWriteAheadLogs_client
         (NewOrchestratorServiceClient (\<lambda>url _ _. url) base ([] :: unit list))) =
       (if OrchestratorEnabled (OrchestratorCfg cfg) then Handled (Method RpcListWriteAheadLogs)
        else NotFoundPage)"
proof -
  let ?b = "mount_if (BatcherEnabled (BatcherCfg cfg)) batcher_mount"
    and ?c = "mount_if (CacheEnabled (CacheCfg cfg)) cache_mount"
    and ?i = "mount_if (IndexEnabled (IndexCfg cfg)) index_mount"
    and ?o = "mount_if (OrchestratorEnabled (OrchestratorCfg cfg)) orchestrator_mount"
    and ?w = "mount_if (WorkerEnabled (WorkerCfg cfg)) worker_mount"
  have R: "routes a = ?b @ ?c @ ?i @ ?o @ ?w @ common_mounts"
    using serving_routes [OF assms(1,2)] by (simp add: assms(3,4) mounted_mux common_mounts_def)
  have "mux_handler (routes a) ''POST'' BatcherServiceBatchWriteProcedure =
      (if BatcherEnabled (BatcherCfg cfg) then Handled (Method RpcBatchWrite) else NotFoundPage)"
    using batcher_routed [of "[]" "?c @ ?i @ ?o @ ?w @ common_mounts"]
    by (simp add: R mounts_apart common_apart apart_mount_if)
  moreover have "mux_handler (routes a) ''POST'' CacheServiceGetProcedure =
      (if CacheEnabled (CacheCfg cfg) then Handled (Method RpcGet) else NotFoundPage)"
    using cache_routed [of "?b" "?i @ ?o @ ?w @ common_mounts"]
    by (simp add: R mounts_apart common_apart apart_mount_if)
  moreover have "mux_handler (routes a) ''POST'' IndexServiceBatchGetProcedure =
      (if IndexEnabled (IndexCfg cfg) then Handled (Method RpcBatchGet) else NotFoundPage)"
    using index_routed [of "?b @ ?c" "?o @ ?w @ common_mounts"]
    by (simp add: R mounts_apart common_apart apart_mount_if)
  moreover have "mux_handler (routes a) ''POST'' OrchestratorServiceListWriteAheadLogsProcedure =
      (if OrchestratorEnabled (OrchestratorCfg cfg) then Handled (Method RpcListWriteAheadLogs)
       else NotFoundPage)"
    using orchestrator_routed [of "?b @ ?c @ ?i" "?w @ common_mounts"]
    by (simp add: R mounts_apart common_apart apart_mount_if)
  ultimately show ?thesis
    unfolding served_at_def assms(7) batcher_rpc.client_path [OF assms(5,6)]
      cache_rpc.client_path [OF assms(5,6)] index_rpc.client_path [OF assms(5,6)]
      orchestrator_rpc.client_path [OF assms(5,6)] by blast
qed

definition demo_app_config :: app_config where
  "demo_app_config =
     \<lparr>Addr = ''127.0.0.1:5001'', DatabaseURL = '''', StorageURL = ''http://minio:9000/objstore/a/b'',
      BatcherCfg = demo_config, CacheCfg = \<lparr>CacheEnabled = False, MaxSizeBytes = 100\<rparr>,
      IndexCfg = demo_config_index\<lparr>IndexEnabled := False\<rparr>,
      OrchestratorCfg = \<lparr>OrchestratorEnabled = True, MinWALsToCompact = 16\<rparr>,
      WorkerCfg = \<lparr>WorkerEnabled = False, NumWorkers = 10\<rparr>\<rparr>"

definition calm_pool_calls :: pool_calls where
  "calm_pool_calls = \<lparr>parse_fault = None, temp_fault = None, river_new_fault = None, river_fault = None,
     files_fault = None, migrate_new_fault = None, migrate_result = UpNoChange, pool_fault = None\<rparr>"

definition no_watch :: "'row watch_start" where
  "no_watch = \<lparr>initial_rows = Inr [], acquire_error = None, listen_error = None\<rparr>"

definition demo_environment :: "(s3_config, unit, (string \<times> bytes) list) environment" where
  "demo_environment =
     \<lparr>dotenv_error = Some (ErrText ''no such file'', True), env_config = Inr demo_app_config,
      prometheus_fault = None, otel_fault = None, database_calls = calm_pool_calls, database_handle = (),
      parse_url = demo_parse, env_var = (\<lambda>_. ''''), bucket_client = Inr,
      lru_package = list_lru max_items, slices = (insertion_sort, insertion_sort, insertion_sort),
      cluster_fault = None, kubernetes_fault = None, pods_fault = None, wal_watch = no_watch,
      run_watch = no_watch, partition_watch = no_watch, river_client = None,
      river_workers = (\<lambda>_. None), health_path = ''/grpc.health.v1.Health/'',
      health_service = ''grpc.health.v1.Health'',
      reflection_path = ''/grpc.reflection.v1.ServerReflection/''\<rparr>"

lemmas start_defs [model_defs] = main_start_def or_exit_def of_fault_def Pool_def with_temp_pool_def
  check_def New_def bucket_name_def go_slice_def start_batcher_def start_cache_def start_index_def
  start_orchestrator_def start_worker_def start_service_def NewHandler_def register_def handle_def
  new_app_def NewOrchestratorHandler_def start_common_def mounts

lemmas demo_defs [model_defs] = demo_environment_def demo_app_config_def calm_pool_calls_def
  demo_parse_def demo_config_def demo_config_index_def

lemma demo_start: "\<exists>a. main_start demo_environment \<lparr>help_flag = False, version_flag = False\<rparr> = Serving a"
  by (simp add: model_defs)

lemma serves_what_is_enabled_example:
  "\<exists>a. main_start demo_environment \<lparr>help_flag = False, version_flag = False\<rparr> = Serving a \<and>
     enabledServices a =
       [''batcher.v1.BatcherService'', ''orchestrator.v1.OrchestratorService'', ''grpc.health.v1.Health''] \<and>
     running a = [True, False, False, True, False]"
proof -
  obtain a where a: "main_start demo_environment \<lparr>help_flag = False, version_flag = False\<rparr> = Serving a"
    using demo_start by blast
  have "env_config demo_environment = Inr demo_app_config" by (simp add: demo_environment_def)
  from serves_what_is_enabled [OF a this] a show ?thesis
    by (simp add: enabled_names_def enabled_mounts_def names enabled_services_def demo_app_config_def
        demo_config_def demo_config_index_def demo_environment_def)
qed

theorem calls_reach_their_methods_witness:
  "\<exists>a. main_start demo_environment \<lparr>help_flag = False, version_flag = False\<rparr> = Serving a \<and>
     served_at a (batchWrite_client (NewBatcherServiceClient (\<lambda>url _ _. url) ''http://localhost:5001/''
       ([] :: unit list))) = Handled (Method RpcBatchWrite) \<and>
     served_at a (get_client (NewCacheServiceClient (\<lambda>url _ _. url) ''http://localhost:5001/''
       ([] :: unit list))) = NotFoundPage"
proof -
  obtain a where a: "main_start demo_environment \<lparr>help_flag = False, version_flag = False\<rparr> = Serving a"
    using demo_start by blast
  have e: "env_config demo_environment = Inr demo_app_config"
    "health_path demo_environment = ''/grpc.health.v1.Health/''"
    "reflection_path demo_environment = ''/grpc.reflection.v1.ServerReflection/''"
    by (simp_all add: demo_environment_def)
  have b: "''http://localhost:5001/'' = ''http://'' @ ''localhost:5001'' @ replicate 1 CHR ''/''" by simp
  have h: "CHR ''/'' \<notin> set ''localhost:5001''" "''localhost:5001'' \<noteq> ''''" by simp_all
  show ?thesis
    using calls_reach_their_methods [OF a e h b] a
    by (auto simp: demo_app_config_def demo_config_def)
qed

end
