(* ===== verification/Stress.thy ===== *)
theory Stress
  imports Batcher
begin

text \<open>
  \<^verbatim>\<open>cmd/stress/main.go\<close>: the load tester. Its keys, the requests its workers send, what it records
  of the replies, and its verdict on them. A run is a list of rounds in the order in which they
  end, each with its worker, the service's reply and its latency; a panic is None. Latencies are
  of any type with an addition and an order (the code's are floats), and the digest of the
  third-party package is an argument; what it prints is a list of lines or of rows. The clock, the
  timer and the parsing of flags, which packages of the standard library do, are left out. The lemmas:
  the keys are pairwise different, what the counters count, that the requests pass the batcher's checks, and
  that the verdict takes a correct reply for an error.
\<close>

record stress_config =
  Service :: string
  Concurrency :: int
  Duration :: int
  KeySize :: int
  ValueSize :: int
  BatchSize :: int
  BatcherAddr :: string
  IndexAddr :: string
  ReadMode :: string
  Debug :: bool

section \<open>Metrics\<close>

record ('f, 'g) metrics =
  serviceName :: string
  requestCount :: int
  errorCount :: int
  minLatency :: 'f
  maxLatency :: 'f
  totalLatency :: 'f
  digest :: 'g

definition newMetrics :: "string \<Rightarrow> 'f \<Rightarrow> 'f \<Rightarrow> 'g \<Rightarrow> ('f, 'g) metrics" where
  "newMetrics name zero hour no_digest =
     \<lparr>serviceName = name, requestCount = 0, errorCount = 0, minLatency = hour, maxLatency = zero,
      totalLatency = zero, digest = no_digest\<rparr>"

definition addLatency ::
  "('f \<Rightarrow> 'g \<Rightarrow> 'g) \<Rightarrow> 'f \<Rightarrow> ('f::{plus, ord}, 'g) metrics \<Rightarrow> ('f, 'g) metrics"
where
  "addLatency digest_add latency m =
     m\<lparr>requestCount := go_int (requestCount m + 1), totalLatency := totalLatency m + latency,
       minLatency := (if latency < minLatency m then latency else minLatency m),
       maxLatency := (if maxLatency m < latency then latency else maxLatency m),
       digest := digest_add latency (digest m)\<rparr>"

definition addError :: "('f, 'g) metrics \<Rightarrow> ('f, 'g) metrics" where
  "addError m =
     m\<lparr>errorCount := go_int (errorCount m + 1), requestCount := go_int (requestCount m + 1)\<rparr>"

section \<open>Test data\<close>

definition validChars :: string where
  "validChars = ''abcdefghijklmnopqrstuvwxyzABCDEFGHIJKLMNOPQRSTUVWXYZ0123456789''"

text \<open>\<^verbatim>\<open>fmt.Sprintf("W%04d_", i)\<close>, and the bytes after it.\<close>

definition pad4 :: "nat \<Rightarrow> string" where
  "pad4 i = replicate (4 - length (show_nat i)) (CHR ''0'') @ show_nat i"

definition key_prefix :: "char \<Rightarrow> nat \<Rightarrow> string" where
  "key_prefix c i = c # pad4 i @ ''_''"

definition fill_key :: "string \<Rightarrow> nat \<Rightarrow> string" where
  "fill_key prefix keyLength =
     fold (\<lambda>j key. key[j := validChars ! (j mod length validChars)]) [length prefix..<keyLength]
       (take keyLength prefix @ replicate (keyLength - length prefix) (char_of (0::nat)))"

definition test_key :: "stress_config \<Rightarrow> char \<Rightarrow> nat \<Rightarrow> string" where
  "test_key cfg c i =
     fill_key (key_prefix c i) (nat (max (KeySize cfg) (int (length (key_prefix CHR ''W'' i)))))"

record test_data =
  writtenKeys :: "string list"
  unwrittenKeys :: "string list"
  deletedKeys :: "string list"

definition make_test_data :: "stress_config \<Rightarrow> test_data option" where
  "make_test_data cfg =
     (let testDataSize = go_int (BatchSize cfg * 3); is = [0..<nat testDataSize] in
      if testDataSize < 0 then None
      else Some \<lparr>writtenKeys = map (test_key cfg CHR ''W'') is,
                 unwrittenKeys = map (test_key cfg CHR ''U'') is,
                 deletedKeys = map (test_key cfg CHR ''D'') is\<rparr>)"

section \<open>Writers\<close>

text \<open>Go's \<^verbatim>\<open>%\<close> has the sign of the dividend; an index that is negative panics.\<close>

definition go_rem :: "int \<Rightarrow> int \<Rightarrow> int" where
  "go_rem a b = sgn a * (\<bar>a\<bar> mod \<bar>b\<bar>)"

definition key_number :: "stress_config \<Rightarrow> int \<Rightarrow> nat \<Rightarrow> int" where
  "key_number cfg worker j = go_int (go_int (worker * BatchSize cfg) + int j)"

definition pick :: "string list \<Rightarrow> int \<Rightarrow> string option" where
  "pick keys x =
     (if keys = [] then None
      else (let i = go_rem x (int (length keys)) in if i < 0 then None else Some (keys ! nat i)))"

definition pick_keys :: "stress_config \<Rightarrow> int \<Rightarrow> string list \<Rightarrow> string list option" where
  "pick_keys cfg worker keys =
     those (map (\<lambda>j. pick keys (key_number cfg worker j)) [0..<nat (BatchSize cfg)])"

definition put_value :: "stress_config \<Rightarrow> bytes" where
  "put_value cfg =
     bytes_of (map (\<lambda>i. validChars ! (i mod length validChars)) [0..<nat (ValueSize cfg)])"

definition batcher_request ::
  "stress_config \<Rightarrow> test_data \<Rightarrow> int \<Rightarrow> (string list \<times> BatchWriteRequest) option"
where
  "batcher_request cfg data worker =
     (let isWriter = go_rem worker 2 = 0 in
      case pick_keys cfg worker (if isWriter then writtenKeys data else deletedKeys data) of
        None \<Rightarrow> None
      | Some batchKeys \<Rightarrow>
          Some (batchKeys, \<lparr>GetWrites = Some (map (\<lambda>k.
            \<lparr>wr_key = k, wr_op = (if isWriter then Put (put_value cfg) else Delete True)\<rparr>) batchKeys)\<rparr>))"

record ('f, 'g) tester =
  results :: "('f, 'g) metrics"
  actualWrittenKeys :: "string list"
  actualDeletedKeys :: "string list"

text \<open>One turn of a worker's loop, with the error its call returned and its latency.\<close>

definition batcher_round where
  "batcher_round digest_add cfg data r t =
     (case r of (worker, err, latency) \<Rightarrow>
       (case batcher_request cfg data worker of
          None \<Rightarrow> None
        | Some (batchKeys, req) \<Rightarrow>
            (case err of
               Some e \<Rightarrow> Some (t\<lparr>results := addError (results t)\<rparr>)
             | None \<Rightarrow>
                 Some ((if go_rem worker 2 = 0
                        then t\<lparr>actualWrittenKeys := fold List.insert batchKeys (actualWrittenKeys t)\<rparr>
                        else t\<lparr>actualDeletedKeys := fold List.insert batchKeys (actualDeletedKeys t)\<rparr>)
                       \<lparr>results := addLatency digest_add latency (results t)\<rparr>))))"

fun rounds :: "('r \<Rightarrow> 't \<Rightarrow> 't option) \<Rightarrow> 'r list \<Rightarrow> 't \<Rightarrow> 't option" where
  "rounds f [] t = Some t"
| "rounds f (r # rs) t = (case f r t of None \<Rightarrow> None | Some t \<Rightarrow> rounds f rs t)"

definition stressBatcher where
  "stressBatcher digest_add cfg data rs t = rounds (batcher_round digest_add cfg data) rs t"

section \<open>Readers\<close>

text \<open>
  The key a reader asks for. A mode other than the four counts as mixed; a remainder of 3 that is
  negative matches no case and leaves the key empty.
\<close>

definition pick_or :: "string list \<Rightarrow> string list \<Rightarrow> int \<Rightarrow> string option" where
  "pick_or keys unwritten x = (if keys \<noteq> [] then pick keys x else pick unwritten x)"

definition read_key ::
  "stress_config \<Rightarrow> string list \<Rightarrow> string list \<Rightarrow> string list \<Rightarrow> int \<Rightarrow> nat \<Rightarrow> string option"
where
  "read_key cfg written unwritten deleted worker j =
     (let x = key_number cfg worker j; r = go_rem x 3 in
      if ReadMode cfg = ''written'' then pick_or written unwritten x
      else if ReadMode cfg = ''notwritten'' then pick unwritten x
      else if ReadMode cfg = ''deleted'' then pick_or deleted unwritten x
      else if r = 0 then pick_or written unwritten x
      else if r = 1 then pick unwritten x
      else if r = 2 then pick_or deleted unwritten x
      else Some '''')"

definition read_keys ::
  "stress_config \<Rightarrow> string list \<Rightarrow> string list \<Rightarrow> string list \<Rightarrow> int \<Rightarrow> string list option"
where
  "read_keys cfg written unwritten deleted worker =
     those (map (read_key cfg written unwritten deleted worker) [0..<nat (BatchSize cfg)])"

text \<open>The verdict: the keys counted as incorrect.\<close>

fun incorrectCount :: "string list \<Rightarrow> string list \<Rightarrow> (string \<Rightarrow> bytes option) \<Rightarrow> string list \<Rightarrow> nat" where
  "incorrectCount written deleted found [] = 0"
| "incorrectCount written deleted found (k # ks) =
     (if k \<in> set written \<and> k \<notin> set deleted then (if found k = None then 1 else 0)
      else if k \<in> set deleted then (if found k = None then 1 else 0) else 0) +
     incorrectCount written deleted found ks"

definition index_round where
  "index_round digest_add cfg data r t =
     (case r of (worker, reply, latency) \<Rightarrow>
       (case read_keys cfg (actualWrittenKeys t) (unwrittenKeys data) (actualDeletedKeys t) worker of
          None \<Rightarrow> None
        | Some keys \<Rightarrow>
            Some (t\<lparr>results :=
              (case reply of
                 Inl (e :: go_error) \<Rightarrow> addError (results t)
               | Inr found \<Rightarrow>
                   if incorrectCount (actualWrittenKeys t) (actualDeletedKeys t) found keys = 0
                   then addLatency digest_add latency (results t) else addError (results t))\<rparr>)))"

definition stressIndex where
  "stressIndex digest_add cfg data rs t = rounds (index_round digest_add cfg data) rs t"

text \<open>The errors that the verification counts over a run, 64 bits wide, and what it prints of them: three
  of the four counters are never incremented.\<close>

fun verificationErrorCount ::
  "stress_config \<Rightarrow> test_data \<Rightarrow> ('f, 'g) tester \<Rightarrow> (int \<times> (string \<Rightarrow> bytes option) result \<times> 'f) list \<Rightarrow>
   int \<Rightarrow> int option"
where
  "verificationErrorCount cfg data t [] n = Some n"
| "verificationErrorCount cfg data t ((worker, reply, _) # rs) n =
     (case read_keys cfg (actualWrittenKeys t) (unwrittenKeys data) (actualDeletedKeys t) worker of
        None \<Rightarrow> None
      | Some keys \<Rightarrow>
          verificationErrorCount cfg data t rs
            (case reply of
               Inl e \<Rightarrow> n
             | Inr found \<Rightarrow>
                 go_int (n + int (incorrectCount (actualWrittenKeys t) (actualDeletedKeys t) found keys))))"

definition verification_report :: "stress_config \<Rightarrow> int \<Rightarrow> string list" where
  "verification_report cfg n =
     (if n > 0 then
        [''Index verification errors: '' @ show_int n @ '' total''] @
        (if Debug cfg then
           [''  Written keys with incorrect result: '' @ show_int 0,
            ''  Deleted keys with incorrect result: '' @ show_int 0,
            ''  NotFound keys with incorrect result: '' @ show_int 0]
         else [])
      else [])"

text \<open>The phases: the one or the other service or both, each with metrics of its own.\<close>

definition stress_main where
  "stress_main digest_add zero hour no_digest cfg writes reads =
     (case make_test_data cfg of
        None \<Rightarrow> None
      | Some data \<Rightarrow>
          (let t0 = \<lparr>results = newMetrics ''batcher'' zero hour no_digest, actualWrittenKeys = [],
                     actualDeletedKeys = []\<rparr>;
               both = Service cfg = ''both'' in
           case (if Service cfg = ''batcher'' \<or> both
                 then map_option (\<lambda>t. (t, [results t])) (stressBatcher digest_add cfg data writes t0)
                 else Some (t0, [])) of
             None \<Rightarrow> None
           | Some (t1, ms) \<Rightarrow>
               (if Service cfg = ''index'' \<or> both
                then map_option (\<lambda>t. ms @ [results t])
                  (stressIndex digest_add cfg data reads
                    (t1\<lparr>results := newMetrics ''index'' zero hour no_digest\<rparr>))
                else Some ms)))"

section \<open>Settings and results\<close>

text \<open>The flags' defaults; a \<^verbatim>\<open>time.Duration\<close> counts nanoseconds.\<close>

definition default_config :: stress_config where
  "default_config =
     \<lparr>Service = ''both'', Concurrency = 10, Duration = 10 * 1000000000, KeySize = 16, ValueSize = 100,
      BatchSize = 10, BatcherAddr = ''http://localhost:5001'', IndexAddr = ''http://localhost:5003'',
      ReadMode = ''mixed'', Debug = True\<rparr>"

definition print_config :: "(int \<Rightarrow> string) \<Rightarrow> stress_config \<Rightarrow> string list" where
  "print_config show_duration cfg =
     [''Stress testing service(s): '' @ Service cfg,
      ''Concurrency: '' @ show_int (Concurrency cfg) @ '', Duration: '' @ show_duration (Duration cfg),
      ''Key size: '' @ show_int (KeySize cfg) @ '' bytes, Value size: '' @ show_int (ValueSize cfg) @
        '' bytes, Batch size: '' @ show_int (BatchSize cfg)] @
     (if Service cfg = ''index'' \<or> Service cfg = ''both''
      then [''Index service read mode: '' @ ReadMode cfg] else []) @
     [''Press Ctrl+C to stop the test early'', '''']"

text \<open>
  The table of results. Of floats the rows need the arithmetic, the conversion of an integer and
  \<^verbatim>\<open>%.2f\<close>, of the digest its quantiles, all of them arguments; the times of a run appear as the
  seconds between them.
\<close>

definition calculatePercentile ::
  "('g \<Rightarrow> 'f \<Rightarrow> 'f) \<Rightarrow> (int \<Rightarrow> 'f) \<Rightarrow> ('f::divide, 'g) metrics \<Rightarrow> int \<Rightarrow> 'f"
where
  "calculatePercentile quantile float64 m p = quantile (digest m) (float64 p div float64 100)"

definition failed_percent :: "(int \<Rightarrow> 'f) \<Rightarrow> ('f::{divide, times}, 'g) metrics \<Rightarrow> 'f" where
  "failed_percent float64 m =
     float64 (errorCount m) div float64 (max (requestCount m) 1) * float64 100"

definition average_latency :: "(int \<Rightarrow> 'f) \<Rightarrow> ('f::divide, 'g) metrics \<Rightarrow> 'f" where
  "average_latency float64 m = totalLatency m div float64 (max (requestCount m) 1)"

definition result_row ::
  "('g \<Rightarrow> 'f \<Rightarrow> 'f) \<Rightarrow> (int \<Rightarrow> 'f) \<Rightarrow> ('f \<Rightarrow> string) \<Rightarrow> 'f \<Rightarrow> ('f::{minus, divide, times}, 'g) metrics \<Rightarrow>
   string list"
where
  "result_row quantile float64 fixed2 duration m =
     [serviceName m,
      show_int (requestCount m),
      show_int (go_int (requestCount m - errorCount m)) @ '' ('' @
        fixed2 (float64 100 - failed_percent float64 m) @ ''%)'',
      show_int (errorCount m) @ '' ('' @ fixed2 (failed_percent float64 m) @ ''%)'',
      fixed2 (float64 (requestCount m) div duration) @ ''/s'',
      fixed2 (minLatency m) @ ''ms'',
      fixed2 (maxLatency m) @ ''ms'',
      fixed2 (average_latency float64 m) @ ''ms'',
      fixed2 (calculatePercentile quantile float64 m 50) @ ''ms'',
      fixed2 (calculatePercentile quantile float64 m 90) @ ''ms'',
      fixed2 (calculatePercentile quantile float64 m 99) @ ''ms'']"

definition printResults ::
  "('g \<Rightarrow> 'f \<Rightarrow> 'f) \<Rightarrow> (int \<Rightarrow> 'f) \<Rightarrow> ('f \<Rightarrow> string) \<Rightarrow> ('f \<times> ('f::{minus, divide, times}, 'g) metrics) list \<Rightarrow>
   string list list"
where
  "printResults quantile float64 fixed2 allMetrics =
     [''Service'', ''Total'', ''Success'', ''Failed'', ''Throughput'', ''Min'', ''Max'', ''Avg'', ''P50'', ''P90'',
      ''P99''] #
     map (\<lambda>(duration, m). result_row quantile float64 fixed2 duration m) allMetrics"

section \<open>Keys\<close>

lemma fold_update_length: "length (fold (\<lambda>j key. key[j := f j]) js key) = length key"
  by (induction js arbitrary: key) auto

lemma fold_update_take:
  "\<forall>j \<in> set js. a \<le> j \<Longrightarrow> take a (fold (\<lambda>j key. key[j := f j]) js key) = take a key"
  by (induction js arbitrary: key) auto

lemma fill_key_prefix:
  assumes "length p \<le> n"
  shows "take (length p) (fill_key p n) = p" and "length (fill_key p n) = n"
  using assms by (simp_all add: fill_key_def fold_update_take fold_update_length)

lemma fill_key_split: "length p \<le> n \<Longrightarrow> \<exists>rest. fill_key p n = p @ rest"
  by (metis fill_key_prefix(1) append_take_drop_id)

lemma decimal_pad4 [simp]: "decimal (pad4 i) = i"
proof -
  have "foldl (\<lambda>v c. 10 * v + (of_char c - 48)) 0 (replicate k (CHR ''0'')) = (0::nat)" for k
    by (induction k) auto
  then show ?thesis using decimal_show_nat [of i] by (simp add: decimal_def pad4_def)
qed

lemma char_of_digit: "n < 10 \<Longrightarrow> char_of (48 + n) \<noteq> CHR ''_''" for n :: nat
proof
  assume n: "n < 10" and "char_of (48 + n) = CHR ''_''"
  then have "of_char (char_of (48 + n) :: char) = (of_char (CHR ''_'') :: nat)" by simp
  then show False using n by simp
qed

lemma show_nat_no_underscore: "CHR ''_'' \<notin> set (show_nat n)"
proof (induction n rule: show_nat.induct)
  case (1 n)
  then show ?case
    using char_of_digit [of n] char_of_digit [of "n mod 10"]
    by (subst show_nat.simps) (auto simp del: char_of_def)
qed

lemma test_key_split: "\<exists>rest. test_key cfg c i = c # pad4 i @ CHR ''_'' # rest"
proof -
  let ?n = "nat (max (KeySize cfg) (int (length (key_prefix CHR ''W'' i))))"
  have "length (key_prefix c i) \<le> ?n" by (simp add: key_prefix_def)
  from fill_key_split [OF this] show ?thesis by (auto simp: test_key_def key_prefix_def)
qed

lemma test_key_nonempty [simp]: "test_key cfg c i \<noteq> []"
  using test_key_split [of cfg c i] by auto

lemma test_key_inject: "test_key cfg c i = test_key cfg c' i' \<longleftrightarrow> c = c' \<and> i = i'"
proof
  assume eq: "test_key cfg c i = test_key cfg c' i'"
  have no: "CHR ''_'' \<notin> set (pad4 j)" for j
    using show_nat_no_underscore [of j] by (auto simp: pad4_def)
  have digits: "takeWhile (\<lambda>x. x \<noteq> CHR ''_'') (tl (test_key cfg d j)) = pad4 j" for d j
    using test_key_split [of cfg d j] no [of j] by (auto simp: takeWhile_tail)
  have "hd (test_key cfg d j) = d" for d j using test_key_split [of cfg d j] by auto
  with eq have "c = c'" by metis
  moreover have "decimal (pad4 i) = decimal (pad4 i')" using digits eq by metis
  ultimately show "c = c' \<and> i = i'" by simp
qed simp

lemma distinct_test_keys: "distinct (map (test_key cfg c) is) \<longleftrightarrow> distinct is"
  by (simp add: distinct_map inj_on_def test_key_inject)

lemma make_test_data_keys:
  assumes "make_test_data cfg = Some data"
  shows "distinct (writtenKeys data @ unwrittenKeys data @ deletedKeys data)"
    and "[] \<notin> set (writtenKeys data) \<union> set (deletedKeys data)"
  using assms
  by (auto simp: make_test_data_def Let_def distinct_test_keys test_key_inject test_key_nonempty [symmetric]
      split: if_splits)

section \<open>Rounds\<close>

lemma go_rem_bounds: "0 < b \<Longrightarrow> go_rem a b < b"
proof -
  assume b: "0 < b"
  then have "0 \<le> x mod b" "x mod b < b" for x by simp_all
  then have "- (- a mod b) < b" "a mod b < b" using b by (smt (verit))+
  then show ?thesis
    using b by (cases a "0 :: int" rule: linorder_cases) (simp_all add: go_rem_def)
qed

lemma pick_member: "pick keys x = Some k \<Longrightarrow> k \<in> set keys"
proof -
  assume k: "pick keys x = Some k"
  then have ne: "0 < int (length keys)" by (auto simp: pick_def split: if_splits)
  let ?i = "go_rem x (int (length keys))"
  have "0 \<le> ?i" "k = keys ! nat ?i" using k by (auto simp: pick_def Let_def split: if_splits)
  then show ?thesis using go_rem_bounds [OF ne, of x] by (auto simp: nat_less_iff)
qed

lemma those_map_members:
  "those (map f xs) = Some ys \<Longrightarrow> y \<in> set ys \<Longrightarrow> \<exists>x \<in> set xs. f x = Some y"
  by (induction xs arbitrary: ys) (auto split: option.splits)

lemma pick_keys_members: "pick_keys cfg worker keys = Some ks \<Longrightarrow> set ks \<subseteq> set keys"
  unfolding pick_keys_def by (auto dest!: those_map_members pick_member)

lemma check_keys_ok: "\<forall>w \<in> set ws. GetKey w \<noteq> '''' \<Longrightarrow> check_keys ws = None"
  by (induction ws) auto

text \<open>What a round of writing does to the counters and the keys.\<close>

lemma batcher_round_cases:
  assumes "batcher_round digest_add cfg data (worker, err, latency) t = Some t'"
  shows "requestCount (results t') = go_int (requestCount (results t) + 1) \<and>
    errorCount (results t') =
      (if err = None then errorCount (results t) else go_int (errorCount (results t) + 1)) \<and>
    set (actualWrittenKeys t') \<subseteq> set (actualWrittenKeys t) \<union> set (writtenKeys data) \<and>
    set (actualDeletedKeys t') \<subseteq> set (actualDeletedKeys t) \<union> set (deletedKeys data)"
proof -
  have m: "set ks \<subseteq> set (if go_rem worker 2 = 0 then writtenKeys data else deletedKeys data)"
    if "batcher_request cfg data worker = Some (ks, req)" for ks req
    using that by (auto simp: batcher_request_def Let_def dest!: pick_keys_members
        split: option.splits if_splits)
  have s: "set (fold List.insert ks xs) = set xs \<union> set ks" for ks xs :: "string list"
    by (induction ks arbitrary: xs) auto
  show ?thesis
    using assms m
    by (fastforce simp: batcher_round_def addLatency_def addError_def s
        split: option.splits prod.splits if_splits)
qed

definition failed :: "'r \<times> go_error option \<times> 'f \<Rightarrow> bool" where
  "failed r \<longleftrightarrow> fst (snd r) \<noteq> None"

lemma stressBatcher_counts:
  assumes "stressBatcher digest_add cfg data rs t = Some t'"
    and "int n = requestCount (results t)" and "int e = errorCount (results t)" and "e \<le> n"
    and "n + length rs < 2 ^ 63"
  shows "requestCount (results t') = int (n + length rs) \<and>
    errorCount (results t') = int (e + length (filter failed rs)) \<and>
    set (actualWrittenKeys t') \<subseteq> set (actualWrittenKeys t) \<union> set (writtenKeys data) \<and>
    set (actualDeletedKeys t') \<subseteq> set (actualDeletedKeys t) \<union> set (deletedKeys data)"
  using assms
proof (induction rs arbitrary: t n e)
  case Nil
  then show ?case by (simp add: stressBatcher_def)
next
  case (Cons r rs)
  obtain worker err latency where r: "r = (worker, err, latency)" by (metis prod.exhaust)
  obtain t1 where t1: "batcher_round digest_add cfg data r t = Some t1"
    "stressBatcher digest_add cfg data rs t1 = Some t'"
    using Cons.prems(1) by (auto simp: stressBatcher_def split: option.splits)
  note c = batcher_round_cases [OF t1(1) [unfolded r]]
  have n: "int (n + 1) = requestCount (results t1)"
    using c Cons.prems(2,5) by (simp add: go_int_id)
  let ?e = "if err = None then e else e + 1"
  have e: "int ?e = errorCount (results t1)"
    using c Cons.prems(3,4,5) by (auto simp: go_int_id)
  have "?e \<le> n + 1" "n + 1 + length rs < 2 ^ 63" using Cons.prems(4,5) by simp_all
  from Cons.IH [OF t1(2) n e this] c show ?case by (auto simp: r failed_def)
qed

section \<open>Properties\<close>

text \<open>The tester's books: the keys to write, to leave alone and to delete are pairwise different,
  whatever the sizes asked for; after a run of writers with fewer than \<open>2 ^ 63\<close> rounds the counters
  are the number of rounds and of failed ones; and the keys it holds for written and for deleted
  come from the lists meant for that, so that none is both.\<close>

lemma tester_keeps_its_books:
  assumes "make_test_data cfg = Some data"
    and "stressBatcher digest_add cfg data rs \<lparr>results = newMetrics name zero hour no_digest,
      actualWrittenKeys = [], actualDeletedKeys = []\<rparr> = Some t"
    and "length rs < 2 ^ 63"
  shows "distinct (writtenKeys data @ unwrittenKeys data @ deletedKeys data) \<and>
    requestCount (results t) = int (length rs) \<and>
    errorCount (results t) = int (length (filter failed rs)) \<and>
    set (actualWrittenKeys t) \<subseteq> set (writtenKeys data) \<and>
    set (actualDeletedKeys t) \<subseteq> set (deletedKeys data) \<and>
    set (actualWrittenKeys t) \<inter> set (actualDeletedKeys t) = {}"
proof -
  have "distinct (writtenKeys data @ unwrittenKeys data @ deletedKeys data)"
    by (rule make_test_data_keys(1) [OF assms(1)])
  then show ?thesis
    using stressBatcher_counts [OF assms(2), of 0 0] assms(3) by (auto simp: newMetrics_def)
qed

text \<open>The tester's requests pass the batcher's checks.\<close>

lemma tester_requests_accepted:
  assumes "make_test_data cfg = Some data" and "batcher_request cfg data worker = Some (ks, req)"
  shows "check_request req = None"
proof -
  have "set ks \<subseteq> set (writtenKeys data) \<union> set (deletedKeys data)"
    and "\<exists>f. GetWrites req = Some (map (\<lambda>k. \<lparr>wr_key = k, wr_op = f\<rparr>) ks)"
    using assms(2) pick_keys_members [of cfg worker _ ks]
    by (fastforce simp: batcher_request_def Let_def split: option.splits if_splits)+
  moreover have "[] \<notin> set ks" using calculation(1) make_test_data_keys(2) [OF assms(1)] by blast
  ultimately show ?thesis by (auto simp: check_request_def GetKey_def intro!: check_keys_ok)
qed

text \<open>A correct answer is taken for an error: the tester expects a deleted key among the results,
  where the service returns only keys that have a value. A reader that asks for a key known to be
  deleted counts every reply that leaves the key out as a failed request.\<close>

lemma absent_deleted_key_is_error:
  assumes "read_keys cfg (actualWrittenKeys t) (unwrittenKeys data) (actualDeletedKeys t) worker = Some keys"
    and "k \<in> set keys" and "k \<in> set (actualDeletedKeys t)" and "found k = None"
  shows "index_round digest_add cfg data (worker, Inr found, latency) t =
    Some (t\<lparr>results := addError (results t)\<rparr>)"
proof -
  have "incorrectCount w d found ks \<noteq> 0" if "k \<in> set ks" "k \<in> set d" for w d ks
    using that assms(4) by (induction ks) auto
  from this [OF assms(2,3), of "actualWrittenKeys t"] show ?thesis
    using assms(1) by (simp add: index_round_def del: incorrectCount.simps)
qed

section \<open>Witnesses\<close>

definition demo_stress :: stress_config where
  "demo_stress = \<lparr>Service = ''both'', Concurrency = 2, Duration = 10, KeySize = 8, ValueSize = 2,
     BatchSize = 1, BatcherAddr = ''http://localhost:5001'', IndexAddr = ''http://localhost:5003'',
     ReadMode = ''deleted'', Debug = True\<rparr>"

definition demo_data :: test_data where
  "demo_data = the (make_test_data demo_stress)"

lemma demo_data: "make_test_data demo_stress = Some demo_data"
  "length (writtenKeys demo_data) = 3" "length (deletedKeys demo_data) = 3"
  by (simp_all add: demo_data_def make_test_data_def demo_stress_def go_int_id Let_def)

definition demo_tester :: "(nat, nat list) tester" where
  "demo_tester = \<lparr>results = newMetrics ''batcher'' 0 3600 [], actualWrittenKeys = [],
     actualDeletedKeys = []\<rparr>"

lemma tester_keeps_its_books_example:
  "\<exists>t. stressBatcher (#) demo_stress demo_data [(0, None, 5), (1, Some ErrCanceled, 7)] demo_tester =
     Some t \<and> requestCount (results t) = 2 \<and> errorCount (results t) = 1"
proof -
  have "\<exists>t. stressBatcher (#) demo_stress demo_data [(0, None, 5), (1, Some ErrCanceled, 7)] demo_tester =
      Some t"
    using demo_data(2,3)
    by (auto simp: stressBatcher_def batcher_round_def batcher_request_def pick_keys_def pick_def
        demo_stress_def key_number_def go_rem_def go_int_id)
  then obtain t where t: "stressBatcher (#) demo_stress demo_data
      [(0, None, 5), (1, Some ErrCanceled, 7)] demo_tester = Some t" by blast
  from tester_keeps_its_books [OF demo_data(1) t [unfolded demo_tester_def]] t show ?thesis
    by (simp add: failed_def)
qed

lemma absent_deleted_key_is_error_example:
  "errorCount (results (the (index_round (#) demo_stress demo_data (0, Inr (\<lambda>_. None), 5)
     (demo_tester\<lparr>actualDeletedKeys := [''d'']\<rparr>)))) = 1"
proof -
  let ?t = "demo_tester\<lparr>actualDeletedKeys := [''d'']\<rparr>"
  have "read_keys demo_stress (actualWrittenKeys ?t) (unwrittenKeys demo_data) (actualDeletedKeys ?t) 0 =
      Some [''d'']"
    by (simp add: read_keys_def demo_stress_def read_key_def pick_or_def pick_def key_number_def
        go_rem_def go_int_id)
  from absent_deleted_key_is_error [OF this, of "''d''" "\<lambda>_. None" "(#)" 5] show ?thesis
    by (simp add: demo_tester_def newMetrics_def addError_def go_int_id)
qed

end
