(* ===== verification/Cluster.thy ===== *)
theory Cluster
  imports System BatchLoop
begin

text \<open>
  The services together, at the granularity of the steps that interleave: the batcher of the theory
  BatchLoop with its goroutines, the orchestrator's turns, any number of attempts at compaction
  jobs, each of which reads and uploads in one step and runs its transaction in another, and a
  connection to the database whose calls may fail in any way. The object store, the tables and the
  ids are those of the batcher's server, the other services work on the same. The list
  \<open>cl_batches\<close> records the batches whose rows were added, oldest first.

  The lemmas: the objects of a state stay as they are in every later one; the logs and the runs of a
  state split the batches into the newer and the older ones; and from the two, that an index whose
  lists come from two different states, the logs from the earlier, reads every key as it was at some
  point in between, so that an acknowledged write is read back.
\<close>

section \<open>Steps\<close>

text \<open>An attempt at a job that has uploaded its run: the run's id, the job and its logs.\<close>

type_synonym merge = "string \<times> job_id \<times> WriteAheadLog list"

record ('b, 'q) cluster =
  cl_server :: "('b, conn) server"
  cl_queue :: 'q
  cl_merges :: "merge list"
  cl_batches :: "batch list"

definition cl_db :: "('b, 'q) cluster \<Rightarrow> DB" where
  "cl_db c = database (db (cl_server c))"

definition cl_store :: "('b, 'q) cluster \<Rightarrow> 'b" where
  "cl_store c = store (cl_server c)"

definition set_db :: "DB \<Rightarrow> ('b, conn) server \<Rightarrow> ('b, conn) server" where
  "set_db d s = s\<lparr>db := (db s)\<lparr>database := d\<rparr>\<rparr>"

text \<open>A step of the batcher. A batch counts as committed when its row was added, whatever the caller
  was told.\<close>

fun inserted :: "event \<Rightarrow> ('b, conn) server \<Rightarrow> batch list" where
  "inserted (InsertBatch i now) s = [worker_batch (workers s ! i)]"
| "inserted _ s = []"

definition cl_serve :: "event \<Rightarrow> ('b, conn) server \<Rightarrow> ('b, 'q) cluster \<Rightarrow> ('b, 'q) cluster" where
  "cl_serve e s c =
     c\<lparr>cl_server := s,
       cl_batches := cl_batches c @
         (if write_ahead_logs (database (db s)) = write_ahead_logs (cl_db c) then []
          else inserted e (cl_server c))\<rparr>"

text \<open>A turn of the orchestrator, on rows its query returned earlier.\<close>

definition cl_schedule ::
  "OrchestratorConfig \<Rightarrow> (WriteAheadLog list \<Rightarrow> 'q \<Rightarrow> 'q result) \<Rightarrow> tx_faults \<Rightarrow>
   WriteAheadLog list \<Rightarrow> ('b, 'q) cluster \<Rightarrow> ('b, 'q) cluster"
where
  "cl_schedule cfg insert_tx faults ws c =
     (case maybeCompactWAL cfg insert_tx faults ws (cl_db c, cl_queue c) of
        (_, (d, q)) \<Rightarrow> c\<lparr>cl_server := set_db d (cl_server c), cl_queue := q\<rparr>)"

text \<open>An attempt at a job, up to its upload; and the transaction of an attempt.\<close>

definition cl_merge ::
  "WriteAheadLog sorter \<Rightarrow> Record sorter \<Rightarrow> 'b fetch_fun \<Rightarrow> 'b upload_fun \<Rightarrow> string \<Rightarrow> job_id \<Rightarrow>
   WriteAheadLog list \<Rightarrow> ('b, 'q) cluster \<Rightarrow> ('b, 'q) cluster"
where
  "cl_merge srtW srtR fetch upload uuid i ws c =
     (case compact_objects srtW srtR fetch upload uuid \<lparr>JobID = i, Args = \<lparr>WALs = ws\<rparr>\<rparr> (cl_store c) of
        (r, b) \<Rightarrow>
          c\<lparr>cl_server := (cl_server c)\<lparr>store := b, uuids := uuid # uuids (cl_server c)\<rparr>,
            cl_merges := (if r = None then [(uuid, i, ws)] else []) @ cl_merges c\<rparr>)"

definition cl_commit ::
  "WriteAheadLog sorter \<Rightarrow> (job_id \<Rightarrow> 'q \<Rightarrow> 'q result) \<Rightarrow> tx_faults \<Rightarrow> merge \<Rightarrow> ('b, 'q) cluster \<Rightarrow>
   ('b, 'q) cluster"
where
  "cl_commit srtW complete_tx faults m c =
     (case m of (uuid, i, ws) \<Rightarrow>
        (case compaction_tx complete_tx faults i (run_path uuid)
                (map SeqNo (srtW (\<lambda>a b. SeqNo a > SeqNo b) ws)) (cl_db c, cl_queue c) of
           (_, (d, q)) \<Rightarrow>
             c\<lparr>cl_server := set_db d (cl_server c), cl_queue := q, cl_merges := remove1 m (cl_merges c)\<rparr>))"

text \<open>
  Attempts may start on any pending job, any number of times, and end in any order; but the
  transaction of an attempt that can complete its job runs only for the job scheduled first
  (the theory System shows why). Uploaded objects are shorter than \<open>2 ^ 63\<close> bytes.
\<close>

inductive cluster_step for srtW srtR fetch upload contents insert_tx complete_tx pending bcfg ocfg
where
  served: "server_step bcfg srtR upload Queries_AddWriteAheadLog e (cl_server c) = Some s \<Longrightarrow>
    (\<And>i uuid. e = UploadBatch i uuid \<Longrightarrow> small_object contents (store s) (wal_path uuid)) \<Longrightarrow>
    cluster_step srtW srtR fetch upload contents insert_tx complete_tx pending bcfg ocfg c
      (cl_serve e s c)"
| connected:
   "cluster_step srtW srtR fetch upload contents insert_tx complete_tx pending bcfg ocfg c
      (c\<lparr>cl_server := (cl_server c)\<lparr>db := (db (cl_server c))\<lparr>outcomes := os\<rparr>\<rparr>\<rparr>)"
| scheduled: "ws = take n (GetWriteAheadLogsToCompact (cl_db c)) \<Longrightarrow>
    cluster_step srtW srtR fetch upload contents insert_tx complete_tx pending bcfg ocfg c
      (cl_schedule ocfg insert_tx faults ws c)"
| merged: "(i, ws) \<in> set (pending (cl_queue c)) \<Longrightarrow> uuid \<notin> set (uuids (cl_server c)) \<Longrightarrow>
    c' = cl_merge srtW srtR fetch upload uuid i ws c \<Longrightarrow>
    small_object contents (cl_store c') (run_path uuid) \<Longrightarrow>
    cluster_step srtW srtR fetch upload contents insert_tx complete_tx pending bcfg ocfg c c'"
| committed: "(uuid, i, ws) \<in> set (cl_merges c) \<Longrightarrow>
    (\<exists>rest. pending (cl_queue c) = (i, ws) # rest) \<or> (\<exists>err. complete_tx i (cl_queue c) = Inl err) \<Longrightarrow>
    cluster_step srtW srtR fetch upload contents insert_tx complete_tx pending bcfg ocfg c
      (cl_commit srtW complete_tx faults (uuid, i, ws) c)"

definition cluster_start :: "('b, conn) server \<Rightarrow> 'q \<Rightarrow> ('b, 'q) cluster" where
  "cluster_start s q = \<lparr>cl_server = s, cl_queue = q, cl_merges = [], cl_batches = []\<rparr>"

text \<open>What the stored tables of the committed batches say, oldest first.\<close>

definition batch_tables :: "Record sorter \<Rightarrow> batch list \<Rightarrow> Record list list" where
  "batch_tables srt bs = map (\<lambda>b. batch_table srt (batch_records b)) bs"

section \<open>The invariant\<close>

definition table_as :: "Record sorter \<Rightarrow> batch \<Rightarrow> Record list" where
  "table_as srt b = map stored (batch_table srt (batch_records b))"

definition uploads_inv ::
  "Record sorter \<Rightarrow> (string \<Rightarrow> Record list option) \<Rightarrow> string list \<Rightarrow> worker list \<Rightarrow> bool"
where
  "uploads_inv srt T us ws \<longleftrightarrow>
     (\<forall>uuid b. Uploaded uuid b \<in> set ws \<longrightarrow> uuid \<in> set us \<and> T (wal_path uuid) = Some (table_as srt b))"

definition at_paths :: "(string \<Rightarrow> Record list option) \<Rightarrow> string list \<Rightarrow> Record list list" where
  "at_paths T ps = map (\<lambda>p. the (T p)) ps"

definition merges_inv :: "(string \<Rightarrow> Record list option) \<Rightarrow> string list \<Rightarrow> merge list \<Rightarrow> bool" where
  "merges_inv T us ms \<longleftrightarrow>
     (\<forall>(uuid, i, ws) \<in> set ms. uuid \<in> set us \<and> set (wal_paths ws) \<subseteq> used us \<and>
        (\<exists>t. T (run_path uuid) = Some t \<and>
           (\<forall>k. entry t k = newest (at_paths T (wal_paths (rev (sort_key SeqNo ws)))) k)))"

lemma merges_inv_append: "merges_inv T us (ms @ ms') \<longleftrightarrow> merges_inv T us ms \<and> merges_inv T us ms'"
  by (simp add: merges_inv_def ball_Un)

text \<open>The logs hold the tables of the last batches, in order; the runs together say the same as the
  batches before these.\<close>

definition older :: "DB \<Rightarrow> batch list \<Rightarrow> nat" where
  "older d bs = length bs - length (write_ahead_logs d)"

definition history_inv ::
  "Record sorter \<Rightarrow> (string \<Rightarrow> Record list option) \<Rightarrow> DB \<Rightarrow> batch list \<Rightarrow> bool"
where
  "history_inv srt T d bs \<longleftrightarrow>
     length (write_ahead_logs d) \<le> length bs \<and>
     at_paths T (wal_paths (write_ahead_logs d)) = map (table_as srt) (drop (older d bs) bs) \<and>
     (\<forall>k. newest (at_paths T (shared_paths (newest_runs d))) k =
        newest (rev (map (table_as srt) (take (older d bs) bs))) k)"

definition acks_inv :: "('b, conn) server \<Rightarrow> batch list \<Rightarrow> bool" where
  "acks_inv s bs \<longleftrightarrow>
     batches_ok s \<and> (\<forall>b \<in> set bs. batch_ok (accepted s) b) \<and>
     (\<forall>cb. (cb, None) \<in> set (replies s) \<longrightarrow> (\<exists>b \<in> set bs. cb \<in> set (callbacks b)))"

definition cluster_inv ::
  "Record sorter \<Rightarrow> ('b \<Rightarrow> string \<Rightarrow> bytes option) \<Rightarrow> ('q \<Rightarrow> (job_id \<times> WriteAheadLog list) list) \<Rightarrow>
   ('b, 'q) cluster \<Rightarrow> bool"
where
  "cluster_inv srt contents pending c \<longleftrightarrow>
     (let s = cl_server c; T = stored_table contents (store s); us = uuids s; d = cl_db c in
      rows_inv d (pending (cl_queue c)) \<and> objects_inv T us d \<and> uploads_inv srt T us (workers s) \<and>
      merges_inv T us (cl_merges c) \<and> history_inv srt T d (cl_batches c) \<and>
      acks_inv s (cl_batches c))"

lemma table_as_entry: "entry (table_as srt b) k = entry (batch_table srt (batch_records b)) k"
  by (simp add: table_as_def)

lemma newest_tables: "newest (rev (map (table_as srt) bs)) k = newest (rev (batch_tables srt bs)) k"
  by (induction bs rule: rev_induct) (simp_all add: batch_tables_def table_as_entry split: option.split)

lemma at_paths_agree: "\<forall>p \<in> set ps. T' p = T p \<Longrightarrow> at_paths T' ps = at_paths T ps"
  by (simp add: at_paths_def)

lemma at_paths_simps [simp]:
  "at_paths T [] = []" "at_paths T (p # ps) = the (T p) # at_paths T ps"
  "at_paths T (ps @ qs) = at_paths T ps @ at_paths T qs" "at_paths T (rev ps) = rev (at_paths T ps)"
  by (simp_all add: at_paths_def rev_map)

lemma at_paths_tables: "at_paths (tbl w) ps = tables tbl w ps"
  by (simp add: at_paths_def tables_def)

lemma newest_runs_paths: "set (shared_paths (newest_runs d)) \<subseteq> refs d"
  by (auto simp: refs_def newest_runs_def shared_paths_def)

lemma log_paths_refs: "set (wal_paths (write_ahead_logs d)) \<subseteq> refs d"
  by (auto simp: refs_def)

text \<open>The parts of the invariant survive whatever keeps the objects under used names.\<close>

lemma inv_parts_later:
  assumes "\<forall>p \<in> used us. T' p = T p" and "set us \<subseteq> set us'" and "objects_inv T us d"
  shows "objects_inv T' us' d"
    and "uploads_inv srt T us ws \<Longrightarrow> uploads_inv srt T' us' ws"
    and "merges_inv T us ms \<Longrightarrow> merges_inv T' us' ms"
    and "history_inv srt T d bs \<Longrightarrow> history_inv srt T' d bs"
proof -
  have sub: "used us \<subseteq> used us'" using assms(2) by (auto simp: used_def)
  then show "objects_inv T' us' d" using assms(1,3) by (auto simp: objects_inv_def)
  show "uploads_inv srt T us ws \<Longrightarrow> uploads_inv srt T' us' ws"
    using assms(1,2) by (auto simp: uploads_inv_def used_def)
  have "at_paths T' ps = at_paths T ps" if "set ps \<subseteq> used us" for ps
    using assms(1) that by (intro at_paths_agree) auto
  moreover have "T' (run_path u) = T (run_path u)" if "u \<in> set us" for u
    using assms(1) that by (auto simp: used_def)
  moreover have "set (wal_paths (rev (sort_key SeqNo ws))) = set (wal_paths ws)" for ws
    by (simp add: wal_paths_def)
  ultimately show "merges_inv T us ms \<Longrightarrow> merges_inv T' us' ms"
    using assms(2) sub unfolding merges_inv_def by fastforce
  have "refs d \<subseteq> used us" using assms(3) by (auto simp: objects_inv_def)
  then have "at_paths T' ps = at_paths T ps" if "set ps \<subseteq> refs d" for ps
    using assms(1) that by (intro at_paths_agree) auto
  then show "history_inv srt T d bs \<Longrightarrow> history_inv srt T' d bs"
    using newest_runs_paths [of d] log_paths_refs [of d] by (simp add: history_inv_def)
qed

section \<open>The history of the logs and the runs\<close>

lemma history_insert:
  assumes h: "history_inv srt T d bs" and t: "T (Path a) = Some (table_as srt b)"
  shows "history_inv srt T (AddWriteAheadLog a d) (bs @ [b])"
proof -
  let ?d = "AddWriteAheadLog a d"
  have logs: "wal_paths (write_ahead_logs ?d) = wal_paths (write_ahead_logs d) @ [Path a]"
    "length (write_ahead_logs ?d) = length (write_ahead_logs d) + 1" "newest_runs ?d = newest_runs d"
    by (simp_all add: AddWriteAheadLog_def wal_paths_def newest_runs_def)
  have len: "length (write_ahead_logs d) \<le> length bs" using h by (simp add: history_inv_def)
  then have "older ?d (bs @ [b]) = older d bs" "older d bs \<le> length bs"
    by (simp_all add: older_def logs)
  then show ?thesis using h t len by (simp add: history_inv_def logs)
qed

lemma history_states:
  assumes "wal_paths (write_ahead_logs d') = wal_paths (write_ahead_logs d)"
    and "shared_runs d' = shared_runs d" and "history_inv srt T d bs"
  shows "history_inv srt T d' bs"
proof -
  have "length (write_ahead_logs d') = length (write_ahead_logs d)"
    using arg_cong [OF assms(1), of length] by (simp add: wal_paths_def)
  then show ?thesis using assms by (simp add: history_inv_def older_def newest_runs_def)
qed

lemma newest_rev_append:
  "newest (rev (xs @ ys)) k = (case newest (rev ys) k of None \<Rightarrow> newest (rev xs) k | Some x \<Rightarrow> Some x)"
  by (simp add: newest_append)

text \<open>The oldest logs become the newest run.\<close>

lemma history_compact:
  assumes h: "history_inv srt T d bs"
    and logs: "wal_paths (write_ahead_logs d) = ps @ wal_paths (write_ahead_logs d')"
    and runs: "shared_paths (newest_runs d') = p # shared_paths (newest_runs d)"
    and t: "T p = Some t" "\<And>k. entry t k = newest (at_paths T (rev ps)) k"
  shows "history_inv srt T d' bs"
proof -
  let ?n = "length ps" and ?m = "older d bs" and ?f = "map (table_as srt)"
  have len: "length (write_ahead_logs d) = ?n + length (write_ahead_logs d')"
    using arg_cong [OF logs, of length] by (simp add: wal_paths_def)
  have le: "length (write_ahead_logs d) \<le> length bs"
    and tabs: "at_paths T ps @ at_paths T (wal_paths (write_ahead_logs d')) = ?f (drop ?m bs)"
    and old: "\<And>k. newest (at_paths T (shared_paths (newest_runs d))) k =
        newest (rev (?f (take ?m bs))) k"
    using h by (simp_all add: history_inv_def logs)
  have m: "older d' bs = ?m + ?n" using le len by (simp add: older_def)
  have lp: "length (at_paths T ps) = ?n" by (simp add: at_paths_def)
  have ps: "at_paths T ps = ?f (take ?n (drop ?m bs))"
    using arg_cong [OF tabs, of "take ?n"] lp by (simp add: take_map)
  have rest: "at_paths T (wal_paths (write_ahead_logs d')) = ?f (drop (?m + ?n) bs)"
    using arg_cong [OF tabs, of "drop ?n"] lp by (simp add: drop_map add.commute)
  have "newest (at_paths T (shared_paths (newest_runs d'))) k =
      newest (rev (?f (take (?m + ?n) bs))) k" for k
    using t old by (simp add: runs ps take_add newest_append split: option.split)
  then show ?thesis using le len rest by (simp add: history_inv_def m)
qed

section \<open>Steps of the batcher\<close>

lemma quiet_step:
  assumes "step cfg srt up ins e s = Some s'"
    and "\<forall>i u. e \<noteq> UploadBatch i u" and "\<forall>i now. e \<noteq> InsertBatch i now"
  shows "store s' = store s \<and> db s' = db s \<and> uuids s' = uuids s \<and>
    (\<forall>u b. Uploaded u b \<in> set (workers s') \<longrightarrow> Uploaded u b \<in> set (workers s)) \<and>
    (\<forall>cb. (cb, None) \<in> set (replies s') \<longrightarrow> (cb, None) \<in> set (replies s))"
  using assms
  by (cases e) (auto simp: receive_def fire_timer_def stop_loop_def notify_def Let_def
      split: if_splits option.splits list.splits loop_pc.splits)

lemma batch_ok_step:
  assumes "step cfg srt up ins e s = Some s'" and "batch_ok (accepted s) b"
  shows "batch_ok (accepted s') b"
proof (cases e)
  case (Accept cb ws)
  then have "accepted s' = accepted s @ [(cb, ws)]"
    using assms(1) by (auto simp: receive_def Let_def split: if_splits)
  then show ?thesis using batch_ok_extend [OF assms(2)] by simp
qed (use assms in \<open>auto simp: fire_timer_def stop_loop_def notify_def Let_def
      split: if_splits option.splits list.splits loop_pc.splits worker.splits\<close>)

lemma acks_inv_step:
  assumes "acks_inv s bs" and "step cfg srt up ins e s = Some s'"
    and "\<And>cb. (cb, None) \<in> set (replies s') \<Longrightarrow>
      (cb, None) \<in> set (replies s) \<or> (\<exists>b \<in> set bs'. cb \<in> set (callbacks b))"
    and "\<And>b. b \<in> set bs' \<Longrightarrow> batch_ok (accepted s) b"
  shows "acks_inv s' (bs @ bs')"
proof -
  have "batches_ok s'" using assms(1,2) batches_ok_step by (auto simp: acks_inv_def)
  moreover have "batch_ok (accepted s') b" if "b \<in> set (bs @ bs')" for b
    using batch_ok_step [OF assms(2)] assms(1,4) that by (auto simp: acks_inv_def)
  ultimately show ?thesis using assms(1,3) by (fastforce simp: acks_inv_def)
qed

lemma upload_step:
  assumes os: "object_store up fetch contents" and s': "s' = worker_upload srt up i uuid b s"
  shows "\<forall>p. p \<noteq> wal_path uuid \<longrightarrow> contents (store s') p = contents (store s) p"
    and "Uploaded u b' \<in> set (workers s') \<Longrightarrow> Uploaded u b' \<in> set (workers s) \<or>
      u = uuid \<and> b' = b \<and>
      contents (store s') (wal_path uuid) = Some (WriteRecords (batch_table srt (batch_records b)))"
    and "(cb, None) \<in> set (replies s') \<Longrightarrow> (cb, None) \<in> set (replies s)"
proof -
  have other: "contents st p = contents (store s) p"
    if "upload_batch srt up uuid (batch_records b) (store s) = (r, st)" "p \<noteq> wal_path uuid" for r st p
    using upload_batch_other [OF os that(2), of srt "batch_records b" "store s"] that(1) by simp
  show "\<forall>p. p \<noteq> wal_path uuid \<longrightarrow> contents (store s') p = contents (store s) p"
    unfolding s' by (rule worker_upload_cases [of srt up uuid b s i]) (auto simp: other)
  show "(cb, None) \<in> set (replies s') \<Longrightarrow> (cb, None) \<in> set (replies s)"
    unfolding s' by (rule_tac worker_upload_cases [of srt up uuid b s i])
      (auto simp: notify_def without_worker_def)
  show "Uploaded u b' \<in> set (workers s') \<Longrightarrow> Uploaded u b' \<in> set (workers s) \<or>
      u = uuid \<and> b' = b \<and>
      contents (store s') (wal_path uuid) = Some (WriteRecords (batch_table srt (batch_records b)))"
    unfolding s' by (rule_tac worker_upload_cases [of srt up uuid b s i])
      (auto simp: workers_finish upload_batch_ok [OF os] dest!: set_update_subset_insert [THEN subsetD]
        in_set_takeD in_set_dropD)
qed

text \<open>An insert adds the row of its batch or none, and acknowledges only what it added.\<close>

lemma insert_step:
  assumes s': "s' = worker_insert srt Queries_AddWriteAheadLog i uuid now b s"
  obtains (kept) "database (db s') = database (db s)"
      "\<And>cb. (cb, None) \<in> set (replies s') \<Longrightarrow> (cb, None) \<in> set (replies s)"
  | (added) a where "database (db s') = AddWriteAheadLog a (database (db s))" "Path a = wal_path uuid"
      "\<And>cb. (cb, None) \<in> set (replies s') \<Longrightarrow> (cb, None) \<in> set (replies s) \<or> cb \<in> set (callbacks b)"
proof -
  let ?a = "batch_attrs uuid now (batch_table srt (batch_records b))"
  obtain r c where ins: "insert_batch srt Queries_AddWriteAheadLog uuid now (batch_records b) (db s) = (r, c)"
    by fastforce
  have s1: "s' = notify b r (without_worker i (s\<lparr>db := c\<rparr>))" by (simp add: s' worker_insert_def ins)
  have acks: "(cb, None) \<in> set (replies s) \<or> cb \<in> set (callbacks b) \<and> r = None"
    if "(cb, None) \<in> set (replies s')" for cb
    using that by (auto simp: s1 notify_def without_worker_def)
  have p: "Path ?a = wal_path uuid" by (simp add: batch_attrs_def)
  from Queries_AddWriteAheadLog_cases [of ?a "db s"] show thesis
  proof cases
    case (1 e)
    then have "r = Some (ErrWrap ''adding batch record'' e)" "database c = database (db s)"
      using ins by (auto simp: insert_batch_def)
    then show thesis using acks by (intro kept) (auto simp: s1)
  next
    case (2 r')
    then have "database c = AddWriteAheadLog ?a (database (db s))"
      using ins by (auto simp: insert_batch_def split: option.splits)
    then show thesis using acks p by (intro added [of ?a]) (auto simp: s1)
  qed
qed

section \<open>Steps of the cluster\<close>

lemma cl_simps [simp]:
  "cl_db (c\<lparr>cl_server := s\<rparr>) = database (db s)" "cl_db (c\<lparr>cl_queue := q\<rparr>) = cl_db c"
  "cl_db (c\<lparr>cl_merges := ms\<rparr>) = cl_db c" "cl_db (c\<lparr>cl_batches := bs\<rparr>) = cl_db c"
  "cl_store (c\<lparr>cl_server := s\<rparr>) = store s" "cl_store (c\<lparr>cl_queue := q\<rparr>) = cl_store c"
  "cl_store (c\<lparr>cl_merges := ms\<rparr>) = cl_store c" "cl_store (c\<lparr>cl_batches := bs\<rparr>) = cl_store c"
  "database (db (cl_server c)) = cl_db c" "store (cl_server c) = cl_store c"
  by (simp_all add: cl_db_def cl_store_def)

lemma set_db_simps [simp]:
  "database (db (set_db d s)) = d" "store (set_db d s) = store s" "uuids (set_db d s) = uuids s"
  "workers (set_db d s) = workers s" "accepted (set_db d s) = accepted s"
  "replies (set_db d s) = replies s" "in_flight (set_db d s) = in_flight s"
  by (simp_all add: set_db_def in_flight_def)

lemma acks_inv_same:
  "acks_inv s bs \<Longrightarrow> accepted s' = accepted s \<Longrightarrow> replies s' = replies s \<Longrightarrow>
   in_flight s' = in_flight s \<Longrightarrow> acks_inv s' bs"
  by (simp add: acks_inv_def batches_ok_def)

text \<open>What every later state keeps of an earlier one.\<close>

definition later where
  "later contents c c' \<longleftrightarrow>
     set (uuids (cl_server c)) \<subseteq> set (uuids (cl_server c')) \<and>
     (\<forall>p \<in> used (uuids (cl_server c)).
        stored_table contents (cl_store c') p = stored_table contents (cl_store c) p) \<and>
     (\<exists>bs. cl_batches c' = cl_batches c @ bs) \<and>
     older (cl_db c) (cl_batches c) \<le> older (cl_db c') (cl_batches c')"

lemma later_refl: "later contents c c"
  by (simp add: later_def)

lemma used_mono: "set us \<subseteq> set us' \<Longrightarrow> used us \<subseteq> used us'"
  by (auto simp: used_def)

lemma later_trans:
  assumes "later contents c c'" and "later contents c' c''"
  shows "later contents c c''"
proof -
  have "used (uuids (cl_server c)) \<subseteq> used (uuids (cl_server c'))"
    using assms(1) by (intro used_mono) (simp add: later_def)
  then have "\<forall>p \<in> used (uuids (cl_server c)).
      stored_table contents (cl_store c'') p = stored_table contents (cl_store c) p"
    using assms by (auto simp: later_def)
  then show ?thesis using assms by (auto simp: later_def)
qed

lemma older_insert:
  "history_inv srt T d bs \<Longrightarrow> older (AddWriteAheadLog a d) (bs @ [b]) = older d bs"
  by (simp add: older_def AddWriteAheadLog_def)

text \<open>What the services rely on: the store, the queue and the sorts; and at least one log per job.\<close>

locale cluster_world =
  object_store upload fetch contents + job_queue insert_tx complete_tx pending +
  sortW: slice_sort srtW + sortR: slice_sort srtR
  for upload :: "'b upload_fun" and fetch and contents
    and insert_tx :: "WriteAheadLog list \<Rightarrow> 'q \<Rightarrow> 'q result" and complete_tx and pending
    and srtW :: "WriteAheadLog sorter" and srtR :: "Record sorter" +
  fixes ocfg :: OrchestratorConfig
  assumes enough_logs: "1 \<le> MinWALsToCompact ocfg"
begin

lemma upload_keeps_inv:
  assumes inv: "cluster_inv srtR contents pending c" and fresh: "uuid \<notin> set (uuids (cl_server c))"
    and st: "step bcfg srtR upload ins (UploadBatch i uuid) (cl_server c) = Some s"
    and s: "s = worker_upload srtR upload i uuid b (cl_server c)"
    and small: "small_object contents (store s) (wal_path uuid)"
  shows "cluster_inv srtR contents pending (c\<lparr>cl_server := s\<rparr>) \<and> later contents c (c\<lparr>cl_server := s\<rparr>)"
proof -
  let ?s = "cl_server c" and ?T = "stored_table contents (cl_store c)"
    and ?T' = "stored_table contents (store s)"
  note up = upload_step [OF object_store_axioms s]
  have u: "uuids s = uuid # uuids ?s" "db s = db ?s" by (simp_all add: s)
  have same: "\<forall>p \<in> used (uuids ?s). ?T' p = ?T p"
  proof
    fix p assume "p \<in> used (uuids ?s)"
    then have "p \<noteq> wal_path uuid" using fresh_path_unused [OF fresh] by blast
    then show "?T' p = ?T p" using up(1) by (auto intro: stored_table_same)
  qed
  have sub: "set (uuids ?s) \<subseteq> set (uuids s)" by (auto simp: u)
  have inv': "objects_inv ?T (uuids ?s) (cl_db c)" "uploads_inv srtR ?T (uuids ?s) (workers ?s)"
    "merges_inv ?T (uuids ?s) (cl_merges c)" "history_inv srtR ?T (cl_db c) (cl_batches c)"
    "acks_inv ?s (cl_batches c)" "rows_inv (cl_db c) (pending (cl_queue c))"
    using inv by (simp_all add: cluster_inv_def Let_def)
  note parts = inv_parts_later [OF same sub inv'(1)]
  have "uploads_inv srtR ?T' (uuids s) (workers s)"
    using parts(2) [OF inv'(2)] up(2) batch_table_strict [OF sortR.slice_sort_axioms]
    by (fastforce simp: uploads_inv_def u table_as_def strict_sorted_iff
        intro: stored_table_new [where contents = contents, OF _ small])
  moreover have "acks_inv s (cl_batches c)"
    using acks_inv_step [OF inv'(5) st, of "[]"] up(3) by simp
  ultimately show ?thesis
    using parts(1) parts(3) [OF inv'(3)] parts(4) [OF inv'(4)] inv'(6) same sub
    by (simp add: cluster_inv_def later_def u)
qed

lemma insert_keeps_inv:
  assumes inv: "cluster_inv srtR contents pending c"
    and i: "i < length (workers (cl_server c))" "workers (cl_server c) ! i = Uploaded uuid b"
    and st: "step bcfg srtR upload Queries_AddWriteAheadLog (InsertBatch i now) (cl_server c) = Some s"
    and s: "s = worker_insert srtR Queries_AddWriteAheadLog i uuid now b (cl_server c)"
  shows "cluster_inv srtR contents pending (cl_serve (InsertBatch i now) s c) \<and>
    later contents c (cl_serve (InsertBatch i now) s c)"
proof -
  let ?s = "cl_server c" and ?T = "stored_table contents (cl_store c)"
  have inv': "rows_inv (cl_db c) (pending (cl_queue c))" "objects_inv ?T (uuids ?s) (cl_db c)"
    "uploads_inv srtR ?T (uuids ?s) (workers ?s)" "merges_inv ?T (uuids ?s) (cl_merges c)"
    "history_inv srtR ?T (cl_db c) (cl_batches c)" "acks_inv ?s (cl_batches c)"
    using inv by (simp_all add: cluster_inv_def Let_def)
  have same: "uuids s = uuids ?s" "store s = cl_store c" by (simp_all add: s)
  have ws: "\<And>u b'. Uploaded u b' \<in> set (workers s) \<Longrightarrow> Uploaded u b' \<in> set (workers ?s)"
    using set_without_worker [of i "workers ?s"]
    by (auto simp: s worker_insert_def workers_finish split: prod.splits)
  then have ups: "uploads_inv srtR ?T (uuids ?s) (workers s)"
    using inv'(3) unfolding uploads_inv_def by blast
  have mem: "Uploaded uuid b \<in> set (workers ?s)" using i by (metis nth_mem)
  then have t: "uuid \<in> set (uuids ?s)" "?T (wal_path uuid) = Some (table_as srtR b)"
    using inv'(3) by (auto simp: uploads_inv_def)
  have "b \<in> set (in_flight ?s)" using mem by (force simp: in_flight_def)
  then have bok: "batch_ok (accepted ?s) b" using inv'(6) by (simp add: acks_inv_def batches_ok_def)
  show ?thesis
  proof (cases rule: insert_step [OF s, case_names kept added])
    case kept
    have "acks_inv s (cl_batches c)" using acks_inv_step [OF inv'(6) st, of "[]"] kept(2) by simp
    then show ?thesis
      using inv' ups kept(1) by (simp add: cl_serve_def cluster_inv_def same later_def)
  next
    case (added a)
    have "acks_inv s (cl_batches c @ [b])"
      using acks_inv_step [OF inv'(6) st, of "[b]"] added(3) bok by auto
    moreover have "history_inv srtR ?T (AddWriteAheadLog a (cl_db c)) (cl_batches c @ [b])"
      using history_insert [OF inv'(5)] t(2) added(2) by simp
    moreover have "objects_inv ?T (uuids ?s) (AddWriteAheadLog a (cl_db c))"
      using inv'(2) t by (auto simp: objects_inv_def refs_AddWriteAheadLog added(2) used_def)
    moreover have "cl_serve (InsertBatch i now) s c =
        c\<lparr>cl_server := s, cl_batches := cl_batches c @ [b]\<rparr>"
      using added(1) i(2) by (simp add: cl_serve_def AddWriteAheadLog_def)
    ultimately show ?thesis
      using inv'(4) ups rows_inv_insert [OF inv'(1)] added(1) older_insert [OF inv'(5)]
      by (simp add: cluster_inv_def same later_def)
  qed
qed

lemma served_keeps_inv:
  assumes inv: "cluster_inv srtR contents pending c"
    and st: "server_step bcfg srtR upload Queries_AddWriteAheadLog e (cl_server c) = Some s"
    and small: "\<And>i uuid. e = UploadBatch i uuid \<Longrightarrow> small_object contents (store s) (wal_path uuid)"
  shows "cluster_inv srtR contents pending (cl_serve e s c) \<and> later contents c (cl_serve e s c)"
proof -
  have st': "step bcfg srtR upload Queries_AddWriteAheadLog e (cl_server c) = Some s"
    using server_stepD [OF st] by simp
  consider (up) i uuid where "e = UploadBatch i uuid" | (ins) i now where "e = InsertBatch i now"
    | (quiet) "\<forall>i u. e \<noteq> UploadBatch i u" "\<forall>i now. e \<noteq> InsertBatch i now" by (cases e) auto
  then show ?thesis
  proof cases
    case up
    then obtain b where "uuid \<notin> set (uuids (cl_server c))"
      "s = worker_upload srtR upload i uuid b (cl_server c)"
      using st' unfolding up by (blast elim: step_UploadBatchE)
    moreover from this have "cl_serve e s c = c\<lparr>cl_server := s\<rparr>" by (simp add: cl_serve_def up)
    ultimately show ?thesis using upload_keeps_inv [OF inv _ st' [unfolded up]] small [OF up] by simp
  next
    case ins
    then obtain uuid b where "i < length (workers (cl_server c))"
      "workers (cl_server c) ! i = Uploaded uuid b"
      "s = worker_insert srtR Queries_AddWriteAheadLog i uuid now b (cl_server c)"
      using st' unfolding ins by (blast elim: step_InsertBatchE)
    then show ?thesis using insert_keeps_inv [OF inv _ _ st' [unfolded ins]] ins by simp
  next
    case quiet
    note q = quiet_step [OF st' quiet]
    have "acks_inv s (cl_batches c)"
      using acks_inv_step [OF _ st', of "cl_batches c" "[]"] inv q by (auto simp: cluster_inv_def Let_def)
    moreover have "cl_serve e s c = c\<lparr>cl_server := s\<rparr>" using q by (simp add: cl_serve_def)
    ultimately show ?thesis
      using inv q by (auto simp: cluster_inv_def Let_def uploads_inv_def later_def)
  qed
qed

end

lemma rows_inv_job_distinct:
  assumes inv: "rows_inv d js" and job: "(i, ws) \<in> set js"
  shows "distinct (map SeqNo ws)"
proof -
  obtain news where logs: "write_ahead_logs d = map mark_row (concat (map snd js)) @ news"
    using inv by (auto simp: rows_inv_def)
  have "distinct (map SeqNo (write_ahead_logs d))" using inv by (simp add: rows_inv_def db_ok_def)
  then have "distinct (map SeqNo (concat (map snd js)))" by (simp add: logs comp_def)
  moreover obtain xs ys where "js = xs @ (i, ws) # ys" using job by (meson split_list)
  ultimately show ?thesis by simp
qed

lemma rows_inv_job_paths:
  assumes inv: "rows_inv d js" and job: "(i, ws) \<in> set js"
  shows "set (wal_paths ws) \<subseteq> set (wal_paths (write_ahead_logs d))"
proof
  fix p assume "p \<in> set (wal_paths ws)"
  then obtain w where w: "w \<in> set ws" "p = Path (Attrs (mark_row w))" by (auto simp: wal_paths_def)
  then have "mark_row w \<in> set (map mark_row (concat (map snd js)))" using job by fastforce
  moreover obtain news where "write_ahead_logs d = map mark_row (concat (map snd js)) @ news"
    using inv unfolding rows_inv_def by blast
  ultimately have "mark_row w \<in> set (write_ahead_logs d)" by (simp only: set_append UnI1)
  then have "(Path \<circ> Attrs) (mark_row w) \<in> set (wal_paths (write_ahead_logs d))"
    by (simp only: wal_paths_def set_map imageI)
  then show "p \<in> set (wal_paths (write_ahead_logs d))" using w(2) by simp
qed

lemma wal_paths_states: "(\<And>w. Attrs (g w) = Attrs w) \<Longrightarrow> wal_paths (map g ws) = wal_paths ws"
  by (simp add: wal_paths_def)

lemma newest_runs_added:
  assumes "db_ok d"
  shows "newest_runs ((AddSharedRun a d)\<lparr>write_ahead_logs := ls\<rparr>) =
    \<lparr>RunSeqNo = run_seq d, RunRowAttrs = a\<rparr> # newest_runs d"
  using assms by (simp add: newest_runs_def AddSharedRun_def sort_key_snoc_max db_ok_def list_all_iff)

context cluster_world
begin

lemma schedule_keeps_inv:
  assumes inv: "cluster_inv srtR contents pending c"
    and ws: "ws = take n (GetWriteAheadLogsToCompact (cl_db c))"
    and c': "c' = cl_schedule ocfg insert_tx faults ws c"
  shows "cluster_inv srtR contents pending c' \<and> later contents c c'"
proof -
  let ?d = "cl_db c" and ?s = "cl_server c"
  obtain r d' q' where m: "maybeCompactWAL ocfg insert_tx faults ws (?d, cl_queue c) = (r, (d', q'))"
    by (metis prod.exhaust)
  have c1: "c' = c\<lparr>cl_server := set_db d' ?s, cl_queue := q'\<rparr>" by (simp add: c' cl_schedule_def m)
  have rows: "rows_inv ?d (pending (cl_queue c))" using inv by (simp add: cluster_inv_def Let_def)
  obtain g where g: "rows_inv d' (pending q')" "d' = ?d\<lparr>write_ahead_logs := map g (write_ahead_logs ?d)\<rparr>"
    "\<And>w. Attrs (g w) = Attrs w"
    using rows_inv_schedule [OF job_queue_axioms rows enough_logs ws m] by blast
  have "refs d' = refs ?d" unfolding g(2) by (rule refs_states) (rule g(3))
  moreover have "history_inv srtR T d' (cl_batches c) = history_inv srtR T ?d (cl_batches c)" for T
    by (simp add: history_inv_def older_def newest_runs_def g(2) wal_paths_states g(3))
  moreover have "older d' (cl_batches c) = older ?d (cl_batches c)" by (simp add: older_def g(2))
  ultimately show ?thesis
    using inv g(1) by (auto simp: cluster_inv_def c1 Let_def objects_inv_def later_def
      intro: acks_inv_same)
qed

lemma merge_keeps_inv:
  assumes inv: "cluster_inv srtR contents pending c"
    and job: "(i, ws) \<in> set (pending (cl_queue c))" and fresh: "uuid \<notin> set (uuids (cl_server c))"
    and c': "c' = cl_merge srtW srtR fetch upload uuid i ws c"
    and small: "small_object contents (cl_store c') (run_path uuid)"
  shows "cluster_inv srtR contents pending c' \<and> later contents c c'"
proof -
  let ?s = "cl_server c" and ?b = "cl_store c" and ?tbl = "stored_table contents"
    and ?j = "\<lparr>JobID = i, Args = \<lparr>WALs = ws\<rparr>\<rparr>" and ?ws = "srtW (\<lambda>a b. SeqNo a > SeqNo b) ws"
  obtain r b' where m: "compact_objects srtW srtR fetch upload uuid ?j ?b = (r, b')" by fastforce
  let ?new = "if r = None then [(uuid, i, ws)] else []"
  have c1: "c' = c\<lparr>cl_server := ?s\<lparr>store := b', uuids := uuid # uuids ?s\<rparr>, cl_merges := ?new @ cl_merges c\<rparr>"
    by (simp add: c' cl_merge_def m)
  have inv': "rows_inv (cl_db c) (pending (cl_queue c))" "objects_inv (?tbl ?b) (uuids ?s) (cl_db c)"
    "uploads_inv srtR (?tbl ?b) (uuids ?s) (workers ?s)" "merges_inv (?tbl ?b) (uuids ?s) (cl_merges c)"
    "history_inv srtR (?tbl ?b) (cl_db c) (cl_batches c)" "acks_inv ?s (cl_batches c)"
    using inv by (simp_all add: cluster_inv_def Let_def)
  have same: "\<forall>p \<in> used (uuids ?s). ?tbl b' p = ?tbl ?b p"
  proof
    fix p assume "p \<in> used (uuids ?s)"
    then have "p \<noteq> run_path uuid" using fresh_path_unused [OF fresh] by blast
    then show "?tbl b' p = ?tbl ?b p"
      using compact_objects_other [OF object_store_axioms, of p uuid srtW srtR ?j ?b] m
      by (auto intro: stored_table_same)
  qed
  note parts = inv_parts_later [OF same set_subset_Cons inv'(2)]
  have paths: "set (wal_paths ws) \<subseteq> refs (cl_db c)"
    using rows_inv_job_paths [OF inv'(1) job] log_paths_refs by blast
  have "merges_inv (?tbl b') (uuid # uuids ?s) ?new"
  proof (cases r)
    case None
    have wsd: "distinct (map SeqNo ws)" by (rule rows_inv_job_distinct [OF inv'(1) job])
    have ws': "?ws = rev (sort_key SeqNo ws)"
      by (rule slice_sort.srt_distinct_keys_desc [OF sortW.slice_sort_axioms wsd])
    have sp: "set (wal_paths ?ws) = set (wal_paths ws)" by (simp add: ws' wal_paths_def)
    then have "all_tables ?tbl ?b (wal_paths ?ws)"
      using paths inv'(2) by (auto simp: all_tables_def list_all_iff objects_inv_def)
    from compact_objects_ok [OF object_store_axioms sortR.slice_sort_axioms m [unfolded None] _ this]
    obtain recs where recs: "contents b' = (contents ?b)(run_path uuid \<mapsto> WriteRecords recs)"
      "sorted_wrt (<) (map Key recs)" "\<And>k. entry recs k = newest (tables ?tbl ?b (wal_paths ?ws)) k"
      by auto
    have t: "?tbl b' (run_path uuid) = Some (map stored recs)"
      using recs(1,2) small by (intro stored_table_new) (simp_all add: c1 strict_sorted_iff)
    have "\<forall>p \<in> set (wal_paths ?ws). ?tbl b' p = ?tbl ?b p"
      using same paths inv'(2) by (auto simp: sp objects_inv_def)
    then have "at_paths (?tbl b') (wal_paths ?ws) = tables ?tbl ?b (wal_paths ?ws)"
      unfolding at_paths_tables [symmetric] by (rule at_paths_agree)
    then have "entry (map stored recs) k =
        newest (at_paths (?tbl b') (wal_paths (rev (sort_key SeqNo ws)))) k" for k
      using recs(3) by (simp add: ws')
    moreover have "set (wal_paths ws) \<subseteq> used (uuid # uuids ?s)"
      using paths inv'(2) by (auto simp: objects_inv_def)
    ultimately show ?thesis using t None by (simp add: merges_inv_def)
  qed (simp add: merges_inv_def)
  then have "merges_inv (?tbl b') (uuid # uuids ?s) (?new @ cl_merges c)"
    using parts(3) [OF inv'(4)] by (simp only: merges_inv_append)
  moreover have "acks_inv (?s\<lparr>store := b', uuids := uuid # uuids ?s\<rparr>) (cl_batches c)"
    using inv'(6) by (rule acks_inv_same) (simp_all add: in_flight_def)
  ultimately have "cluster_inv srtR contents pending c'"
    using parts(1) parts(2) [OF inv'(3)] parts(4) [OF inv'(5)] inv'(1)
    by (simp add: c1 cluster_inv_def del: used_simps)
  moreover have "later contents c c'" using same by (simp add: c1 later_def subset_insertI)
  ultimately show ?thesis by blast
qed

lemma commit_keeps_inv:
  assumes inv: "cluster_inv srtR contents pending c"
    and m: "(uuid, i, ws) \<in> set (cl_merges c)"
    and first: "(\<exists>rest. pending (cl_queue c) = (i, ws) # rest) \<or> (\<exists>err. complete_tx i (cl_queue c) = Inl err)"
    and c': "c' = cl_commit srtW complete_tx faults (uuid, i, ws) c"
  shows "cluster_inv srtR contents pending c' \<and> later contents c c'"
proof -
  let ?s = "cl_server c" and ?d = "cl_db c" and ?T = "stored_table contents (cl_store c)"
    and ?ws = "srtW (\<lambda>a b. SeqNo a > SeqNo b) ws" and ?p = "run_path uuid"
  obtain r d' q' where tx: "compaction_tx complete_tx faults i ?p (map SeqNo ?ws) (?d, cl_queue c) = (r, (d', q'))"
    by (metis prod.exhaust)
  have c1: "c' = c\<lparr>cl_server := set_db d' ?s, cl_queue := q',
      cl_merges := remove1 (uuid, i, ws) (cl_merges c)\<rparr>"
    by (simp add: c' cl_commit_def tx)
  have inv': "rows_inv ?d (pending (cl_queue c))" "objects_inv ?T (uuids ?s) ?d"
    "uploads_inv srtR ?T (uuids ?s) (workers ?s)" "merges_inv ?T (uuids ?s) (cl_merges c)"
    "history_inv srtR ?T ?d (cl_batches c)" "acks_inv ?s (cl_batches c)"
    using inv by (simp_all add: cluster_inv_def Let_def)
  have ms: "merges_inv ?T (uuids ?s) (remove1 (uuid, i, ws) (cl_merges c))"
    using inv'(4) set_remove1_subset unfolding merges_inv_def by fastforce
  have acks: "acks_inv (set_db d' ?s) (cl_batches c)" using inv'(6) by (rule acks_inv_same) simp_all
  from compaction_tx_cases(1) [OF tx] consider "d' = ?d" "q' = cl_queue c"
    | "d' = compacted ?p (map SeqNo ?ws) ?d" "complete_tx i (cl_queue c) = Inr q'" by auto
  then show ?thesis
  proof cases
    case 1
    then show ?thesis using inv' ms acks by (simp add: c1 cluster_inv_def later_def)
  next
    case 2
    then obtain rest where job: "pending (cl_queue c) = (i, ws) # rest" using first by auto
    note f = rows_inv_first_job [OF inv'(1) [unfolded job]]
    have ws': "?ws = rev (sort_key SeqNo ws)"
      by (rule slice_sort.srt_distinct_keys_desc [OF sortW.slice_sort_axioms f(2)])
    then have "mset (map SeqNo ?ws) = mset (map SeqNo ws)" by simp
    note com = rows_inv_commit [OF job_queue_axioms inv'(1) job 2(2) this 2(1)]
    obtain ls where ls: "d' = (AddSharedRun \<lparr>RunPath = ?p\<rparr> ?d)\<lparr>write_ahead_logs := ls\<rparr>"
      using com(3) by blast
    obtain t where t: "?T ?p = Some t" "\<And>k. entry t k = newest (at_paths ?T (wal_paths (rev ws))) k"
      and u: "uuid \<in> set (uuids ?s)"
      using inv'(4) m f(3) by (fastforce simp: merges_inv_def)
    have "db_ok ?d" using inv'(1) by (simp add: rows_inv_def)
    then have runs: "shared_paths (newest_runs d') = ?p # shared_paths (newest_runs ?d)"
      by (simp add: ls newest_runs_added shared_paths_def)
    have logs: "wal_paths (write_ahead_logs ?d) = wal_paths ws @ wal_paths (write_ahead_logs d')"
      by (simp add: com(2) wal_paths_def comp_def)
    have rev: "wal_paths (rev ws) = rev (wal_paths ws)" by (simp add: wal_paths_def rev_map)
    have "history_inv srtR ?T d' (cl_batches c)"
      by (rule history_compact [OF inv'(5) logs runs t(1)]) (use t(2) rev in simp)
    moreover have "objects_inv ?T (uuids ?s) d'"
      using inv'(2) t(1) u refs_compacted [of ?p "map SeqNo ?ws" ?d]
      by (auto simp: objects_inv_def 2(1) used_def)
    moreover have "older ?d (cl_batches c) \<le> older d' (cl_batches c)"
      using arg_cong [OF com(2), of length] by (simp add: older_def)
    ultimately show ?thesis
      using inv'(3) ms acks com(1) by (simp add: c1 cluster_inv_def later_def)
  qed
qed

lemma step_keeps_inv:
  assumes "cluster_inv srtR contents pending c"
    and "cluster_step srtW srtR fetch upload contents insert_tx complete_tx pending bcfg ocfg c c'"
  shows "cluster_inv srtR contents pending c' \<and> later contents c c'"
  using assms(2)
proof cases
  case (served e s)
  then show ?thesis using served_keeps_inv [OF assms(1)] by simp
next
  case (connected os)
  have "acks_inv ((cl_server c)\<lparr>db := (db (cl_server c))\<lparr>outcomes := os\<rparr>\<rparr>) (cl_batches c)"
    using assms(1)
    by (auto simp: cluster_inv_def Let_def in_flight_def intro: acks_inv_same [of "cl_server c"])
  then show ?thesis using assms(1) by (simp add: connected cluster_inv_def Let_def later_def)
next
  case (scheduled ws n faults)
  then show ?thesis using schedule_keeps_inv [OF assms(1)] by simp
next
  case (merged i ws uuid)
  then show ?thesis using merge_keeps_inv [OF assms(1)] by simp
next
  case (committed uuid i ws faults)
  then show ?thesis using commit_keeps_inv [OF assms(1)] by simp
qed

lemma run_keeps_inv:
  assumes "(cluster_step srtW srtR fetch upload contents insert_tx complete_tx pending bcfg ocfg)\<^sup>*\<^sup>* c c'"
    and "cluster_inv srtR contents pending c"
  shows "cluster_inv srtR contents pending c' \<and> later contents c c'"
  using assms
proof induction
  case base
  then show ?case by (simp add: later_refl)
next
  case (step c' c'')
  then show ?case using step_keeps_inv later_trans by blast
qed

end

section \<open>Reads\<close>

lemma newest_None_iff: "newest ts k = None \<longleftrightarrow> (\<forall>t \<in> set ts. entry t k = None)"
  by (induction ts) (auto split: option.splits)

text \<open>The newer part of an earlier history, then the older part of a later one: together they say what
  the history said at some point between the two.\<close>

lemma newest_between:
  assumes "m \<le> m'" and "m \<le> length ts" and "m' \<le> length (ts @ us)"
  shows "\<exists>n. length ts \<le> n \<and> n \<le> length (ts @ us) \<and>
    newest (rev (drop m ts) @ rev (take m' (ts @ us))) k = newest (rev (take n (ts @ us))) k"
proof (cases "newest (rev (drop m ts)) k")
  case (Some x)
  have "newest (rev (take m ts @ drop m ts)) k = Some x"
    unfolding rev_append newest_append by (simp add: Some)
  then show ?thesis using Some by (intro exI [of _ "length ts"]) (simp add: newest_append)
next
  case None
  show ?thesis
  proof (cases "length ts \<le> m'")
    case True
    then show ?thesis using None assms(3) by (intro exI [of _ m']) (simp add: newest_append)
  next
    case False
    obtain l where l: "m' = m + l" using assms(1) by (metis le_Suc_ex)
    have "newest (rev (take l (drop m ts))) k = None"
      using None by (auto simp: newest_None_iff dest: in_set_takeD)
    then have "newest (rev (take m' ts)) k = newest (rev (take m ts)) k"
      by (simp add: l take_add newest_append)
    moreover have "newest (rev (take m ts @ drop m ts)) k = newest (rev (take m ts)) k"
      unfolding rev_append newest_append by (simp add: None)
    ultimately show ?thesis using None False
      by (intro exI [of _ "length ts"]) (simp add: newest_append)
  qed
qed

text \<open>A table of the history, or a later one, answers for its keys.\<close>

lemma newest_from:
  assumes "i < n" and "n \<le> length ts" and "entry (ts ! i) k \<noteq> None"
  shows "\<exists>j x. i \<le> j \<and> j < n \<and> entry (ts ! j) k = Some x \<and> newest (rev (take n ts)) k = Some x"
  using assms
proof (induction n)
  case (Suc n)
  have "take (Suc n) ts = take n ts @ [ts ! n]" using Suc.prems(2) by (simp add: take_Suc_conv_app_nth)
  then have top: "newest (rev (take (Suc n) ts)) k =
      (case entry (ts ! n) k of None \<Rightarrow> newest (rev (take n ts)) k | Some x \<Rightarrow> Some x)" by simp
  show ?case
  proof (cases "entry (ts ! n) k")
    case None
    then have "i \<noteq> n" using Suc.prems(3) by auto
    then have "\<exists>j x. i \<le> j \<and> j < n \<and> entry (ts ! j) k = Some x \<and> newest (rev (take n ts)) k = Some x"
      using Suc by simp
    then show ?thesis unfolding top None by (auto intro: less_SucI)
  next
    case (Some x)
    then show ?thesis unfolding top using Suc.prems(1) by (intro exI [of _ n]) auto
  qed
qed simp

lemma older_le: "older d bs \<le> length bs"
  by (simp add: older_def)

lemma newest_logs_rev:
  "rows_inv d js \<Longrightarrow> newest_logs d = rev (write_ahead_logs d)"
  by (simp add: rows_inv_def newest_logs_def sort_key_id_if_sorted)

lemma partitions_inv:
  assumes "rows_inv d js"
  shows "sort_key InclusiveStartKey (partitions d) = partitions migrated"
    and "index_view tbl w ws rs (partitions migrated) k =
      value_of (newest (tables tbl w (wal_paths ws @ shared_paths rs)) k)"
proof -
  show "sort_key InclusiveStartKey (partitions d) = partitions migrated"
    using assms by (simp add: rows_inv_def migrated_def)
  show "index_view tbl w ws rs (partitions migrated) k =
      value_of (newest (tables tbl w (wal_paths ws @ shared_paths rs)) k)"
    by (auto simp: index_view_def migrated_def owner_def run_paths_def split: option.split)
qed

lemma history_inv_start: "history_inv srt T migrated []"
  by (simp add: history_inv_def migrated_def older_def newest_runs_def wal_paths_def shared_paths_def)

context cluster_world
begin

text \<open>What the lists of a state say in a later one, through the cache services.\<close>

lemma objects_kept:
  assumes "cluster_inv srtR contents pending c" and "later contents c c'"
    and "\<forall>p. p \<noteq> [] \<longrightarrow> tbl w p = stored_table contents (cl_store c') p" and "p \<in> refs (cl_db c)"
  shows "tbl w p = stored_table contents (cl_store c) p \<and> tbl w p \<noteq> None"
proof -
  have p: "p \<in> used (uuids (cl_server c))" "stored_table contents (cl_store c) p \<noteq> None"
    using assms(1,4) by (auto simp: cluster_inv_def Let_def objects_inv_def)
  then have "p \<noteq> []" by (auto simp: used_def wal_path_def run_path_def)
  then show ?thesis using assms(2,3) p by (auto simp: later_def)
qed

lemma inv_history:
  assumes "cluster_inv srtR contents pending c"
  shows "history_inv srtR (stored_table contents (cl_store c)) (cl_db c) (cl_batches c)"
    and "rows_inv (cl_db c) (pending (cl_queue c))"
  using assms by (simp_all add: cluster_inv_def Let_def)

lemma logs_say:
  assumes inv: "cluster_inv srtR contents pending c" and l: "later contents c c'"
    and T: "\<forall>p. p \<noteq> [] \<longrightarrow> tbl w p = stored_table contents (cl_store c') p"
  shows "tables tbl w (wal_paths (newest_logs (cl_db c))) =
      rev (drop (older (cl_db c) (cl_batches c)) (map (table_as srtR) (cl_batches c)))"
    and "all_tables tbl w (wal_paths (newest_logs (cl_db c)))"
proof -
  let ?ps = "wal_paths (newest_logs (cl_db c))"
  have ps: "set ?ps \<subseteq> refs (cl_db c)" by (auto simp: newest_logs_def refs_def wal_paths_def)
  have "tables tbl w ?ps = at_paths (stored_table contents (cl_store c)) ?ps"
    unfolding at_paths_tables [symmetric]
    by (rule at_paths_agree) (use objects_kept [where tbl = tbl and w = w, OF inv l T] ps in blast)
  moreover have "?ps = rev (wal_paths (write_ahead_logs (cl_db c)))"
    by (simp add: newest_logs_rev [OF inv_history(2) [OF inv]] wal_paths_def rev_map)
  then have "at_paths (stored_table contents (cl_store c)) ?ps =
      rev (drop (older (cl_db c) (cl_batches c)) (map (table_as srtR) (cl_batches c)))"
    using inv_history(1) [OF inv] by (simp add: history_inv_def drop_map)
  ultimately show "tables tbl w ?ps =
      rev (drop (older (cl_db c) (cl_batches c)) (map (table_as srtR) (cl_batches c)))" by simp
  have "\<forall>p \<in> set ?ps. tbl w p \<noteq> None"
    using objects_kept [where tbl = tbl and w = w, OF inv l T] ps by blast
  then show "all_tables tbl w ?ps" by (simp add: all_tables_def list_all_iff)
qed

lemma runs_say:
  assumes inv: "cluster_inv srtR contents pending c" and l: "later contents c c'"
    and T: "\<forall>p. p \<noteq> [] \<longrightarrow> tbl w p = stored_table contents (cl_store c') p"
  shows "newest (tables tbl w (shared_paths (newest_runs (cl_db c)))) k =
      newest (rev (take (older (cl_db c) (cl_batches c)) (map (table_as srtR) (cl_batches c)))) k"
    and "all_tables tbl w (shared_paths (newest_runs (cl_db c)))"
proof -
  let ?ps = "shared_paths (newest_runs (cl_db c))"
  have kept: "\<forall>p \<in> set ?ps. tbl w p = stored_table contents (cl_store c) p \<and> tbl w p \<noteq> None"
    using objects_kept [where tbl = tbl and w = w, OF inv l T] newest_runs_paths by blast
  then have "tables tbl w ?ps = at_paths (stored_table contents (cl_store c)) ?ps"
    unfolding at_paths_tables [symmetric] by (intro at_paths_agree) blast
  then show "newest (tables tbl w ?ps) k =
      newest (rev (take (older (cl_db c) (cl_batches c)) (map (table_as srtR) (cl_batches c)))) k"
    using inv_history(1) [OF inv] by (simp add: history_inv_def take_map)
  have "\<forall>p \<in> set ?ps. tbl w p \<noteq> None" using kept by blast
  then show "all_tables tbl w ?ps" by (simp add: all_tables_def list_all_iff)
qed

text \<open>Logs of one state and runs of another, where the runs are not behind the logs.\<close>

lemma lists_between:
  assumes inv: "cluster_inv srtR contents pending c1" "cluster_inv srtR contents pending c2"
    and l: "later contents c1 c3" "later contents c2 c3"
    and T: "\<forall>p. p \<noteq> [] \<longrightarrow> tbl w p = stored_table contents (cl_store c3) p"
    and bs: "cl_batches c2 = cl_batches c1 @ bs"
    and m: "older (cl_db c1) (cl_batches c1) \<le> older (cl_db c2) (cl_batches c2)"
  shows "sources_stored tbl w (newest_logs (cl_db c1)) (newest_runs (cl_db c2)) (partitions migrated)"
    and "\<exists>n. length (cl_batches c1) \<le> n \<and> n \<le> length (cl_batches c2) \<and>
      newest (tables tbl w (wal_paths (newest_logs (cl_db c1)) @ shared_paths (newest_runs (cl_db c2)))) k =
      newest (rev (take n (batch_tables srtR (cl_batches c2)))) k"
proof -
  let ?logs = "wal_paths (newest_logs (cl_db c1))" and ?runs = "shared_paths (newest_runs (cl_db c2))"
  let ?f = "map (table_as srtR)" and ?m = "older (cl_db c1) (cl_batches c1)"
    and ?m' = "older (cl_db c2) (cl_batches c2)"
  note L = logs_say [where tbl = tbl and w = w, OF inv(1) l(1) T]
  note R = runs_say [where tbl = tbl and w = w, OF inv(2) l(2) T]
  show "sources_stored tbl w (newest_logs (cl_db c1)) (newest_runs (cl_db c2)) (partitions migrated)"
    using L(2) R(2) by (simp add: sources_stored_def migrated_def run_paths_def)
  have "?m \<le> length (?f (cl_batches c1))" "?m' \<le> length (?f (cl_batches c1) @ ?f bs)"
    using older_le [of "cl_db c2" "cl_batches c2"] by (simp_all add: bs older_le)
  from newest_between [OF m this, of k] obtain n where
    n: "length (cl_batches c1) \<le> n" "n \<le> length (cl_batches c2)"
      "newest (rev (drop ?m (?f (cl_batches c1))) @ rev (take ?m' (?f (cl_batches c2)))) k =
       newest (rev (take n (?f (cl_batches c2)))) k" by (auto simp: bs)
  have "newest (tables tbl w (?logs @ ?runs)) k = newest (rev (?f (take n (cl_batches c2)))) k"
    using n(3) unfolding tables_simps newest_append L(1) R(1) take_map by simp
  then show "\<exists>n. length (cl_batches c1) \<le> n \<and> n \<le> length (cl_batches c2) \<and>
      newest (tables tbl w (?logs @ ?runs)) k =
      newest (rev (take n (batch_tables srtR (cl_batches c2)))) k"
    unfolding newest_tables using n(1,2) by (intro exI [of _ n]) (simp only: batch_tables_def take_map simp_thms)
qed

lemma cluster_inv_start:
  assumes "NewHandler bcfg b d = Inr s" and "database d = migrated" and "pending q = []"
  shows "cluster_inv srtR contents pending (cluster_start s q)"
proof -
  have s: "db s = d" "uuids s = []" "workers s = []" "replies s = []" "batches_ok s"
    using assms(1) batches_ok_start [OF assms(1)] by (auto simp: NewHandler_def split: if_splits)
  moreover have "cl_db (cluster_start s q) = migrated" using s(1) assms(2) by (simp add: cluster_start_def cl_db_def)
  ultimately show ?thesis
    using assms(3)
    by (simp add: cluster_inv_def cluster_start_def rows_inv_start objects_inv_start history_inv_start
        uploads_inv_def merges_inv_def acks_inv_def)
qed

end

text \<open>An index whose three lists were refreshed at different times: the tables as the logs, the runs
  and the partitions were read.\<close>

definition refreshed_at ::
  "WriteAheadLog sorter \<Rightarrow> SharedRun sorter \<Rightarrow> Partition sorter \<Rightarrow> DB \<Rightarrow> DB \<Rightarrow> DB \<Rightarrow>
   index_handler \<Rightarrow> index_handler"
where
  "refreshed_at srtW srtS srtP dL dR dP h =
     snd (updatePartitions srtP (Inr (GetPartitions dP))
       (snd (updateSharedRuns srtS (Inr (GetSharedRuns dR))
         (snd (updateWALs srtW (Inr (GetWriteAheadLogs dL)) h)))))"

lemma refreshed_at_lists:
  assumes "slice_sort srtW" and "slice_sort srtS" and "slice_sort srtP"
    and "rows_inv dL js" and "rows_inv dR js'" and "rows_inv dP js''"
  shows "wals (refreshed_at srtW srtS srtP dL dR dP h) = Some (newest_logs dL)"
    and "sharedRuns (refreshed_at srtW srtS srtP dL dR dP h) = Some (newest_runs dR)"
    and "parts (refreshed_at srtW srtS srtP dL dR dP h) = Some (partitions migrated)"
proof -
  have "db_ok dL" "db_ok dR" "db_ok dP" "partitions dP = partitions migrated"
    using assms(4-6) by (simp_all add: rows_inv_def)
  note R = refreshed_lists [OF assms(1-3) _ this(4)]
  show "wals (refreshed_at srtW srtS srtP dL dR dP h) = Some (newest_logs dL)"
    "sharedRuns (refreshed_at srtW srtS srtP dL dR dP h) = Some (newest_runs dR)"
    using slice_sort.srt_distinct_keys_desc [OF assms(1), of SeqNo "write_ahead_logs dL"]
      slice_sort.srt_distinct_keys_desc [OF assms(2), of RunSeqNo "shared_runs dR"]
      \<open>db_ok dL\<close> \<open>db_ok dR\<close>
    by (simp_all add: refreshed_at_def updateWALs_def updateSharedRuns_def updatePartitions_def
        GetWriteAheadLogs_def GetSharedRuns_def db_ok_def newest_logs_def newest_runs_def)
  show "parts (refreshed_at srtW srtS srtP dL dR dP h) = Some (partitions migrated)"
    using R(3) [OF \<open>db_ok dP\<close>, of h] partitions_inv(1) [OF assms(6)]
    by (simp add: refreshed_at_def refreshed_def updateWALs_def updateSharedRuns_def updatePartitions_def)
qed

context cluster_world
begin

lemma run_from_start:
  assumes "NewHandler bcfg b d = Inr s" and "database d = migrated" and "pending q = []"
    and "(cluster_step srtW srtR fetch upload contents insert_tx complete_tx pending bcfg ocfg)\<^sup>*\<^sup>*
      (cluster_start s q) c"
  shows "cluster_inv srtR contents pending c"
  using run_keeps_inv [OF assms(4) cluster_inv_start [OF assms(1-3)]] by blast

lemma get_between:
  assumes inv: "cluster_inv srtR contents pending c1"
    and runs: "(cluster_step srtW srtR fetch upload contents insert_tx complete_tx pending bcfg ocfg)\<^sup>*\<^sup>* c1 c2"
      "(cluster_step srtW srtR fetch upload contents insert_tx complete_tx pending bcfg ocfg)\<^sup>*\<^sup>* c2 c3"
    and srts: "slice_sort srtW'" "slice_sort srtS" "slice_sort srtP"
    and cs: "cache_service call tbl valid" and w: "valid w"
    and T: "\<forall>p. p \<noteq> [] \<longrightarrow> tbl w p = stored_table contents (cl_store c3) p"
    and get: "BatchGet hash call (refreshed_at srtW' srtS srtP (cl_db c1) (cl_db c2) (cl_db c2) h) keys w =
      (Inr resp, w')"
    and k: "k \<in> set keys"
  shows "\<exists>n. length (cl_batches c1) \<le> n \<and> n \<le> length (cl_batches c2) \<and>
    map_of resp k = value_of (newest (rev (take n (batch_tables srtR (cl_batches c2)))) k)"
proof -
  note l12 = run_keeps_inv [OF runs(1) inv]
  have l23: "later contents c2 c3" using run_keeps_inv [OF runs(2)] l12 by blast
  have l13: "later contents c1 c3" using l12 l23 later_trans by blast
  obtain bs where bs: "cl_batches c2 = cl_batches c1 @ bs"
    and m: "older (cl_db c1) (cl_batches c1) \<le> older (cl_db c2) (cl_batches c2)"
    using l12 by (auto simp: later_def)
  note b = lists_between [where tbl = tbl and w = w, OF inv conjunct1 [OF l12] l13 l23 T bs m]
  have rows: "rows_inv (cl_db c1) (pending (cl_queue c1))" "rows_inv (cl_db c2) (pending (cl_queue c2))"
    using inv l12 by (simp_all add: cluster_inv_def Let_def)
  note lists = refreshed_at_lists [OF srts rows rows(2)]
  have "sorted (map InclusiveStartKey (partitions migrated))" by (simp add: migrated_def)
  note g = BatchGet_ok [OF cs w lists b(1) this get]
  have "map_of resp k = value_of (newest (tables tbl w
      (wal_paths (newest_logs (cl_db c1)) @ shared_paths (newest_runs (cl_db c2)))) k)"
    using g k partitions_inv(2) [OF rows(1)] by simp
  then show ?thesis using b(2) [of k] by auto
qed

end

section \<open>Properties\<close>





section \<open>A run\<close>

text \<open>One write is acknowledged; then its log is compacted. An index reads its logs before and its runs
  after the compaction.\<close>

interpretation demo_world: cluster_world mem_upload mem_fetch mem_contents queue_insert queue_complete
  queue_pending insertion_sort insertion_sort one_log_config
  by (unfold_locales) (simp add: one_log_config_def)

abbreviation demo_step :: "(mem_bucket, queue) cluster \<Rightarrow> (mem_bucket, queue) cluster \<Rightarrow> bool" where
  "demo_step \<equiv> cluster_step insertion_sort insertion_sort mem_fetch mem_upload mem_contents
     queue_insert queue_complete queue_pending demo_config one_log_config"

abbreviation demo_event :: "event \<Rightarrow> (mem_bucket, conn) server \<Rightarrow> (mem_bucket, conn) server option" where
  "demo_event \<equiv> server_step demo_config insertion_sort mem_upload Queries_AddWriteAheadLog"

fun touches :: "event \<Rightarrow> bool" where
  "touches (UploadBatch _ _) = True"
| "touches (InsertBatch _ _) = True"
| "touches _ = False"

lemma demo_quiet_run:
  assumes "run demo_config insertion_sort mem_upload Queries_AddWriteAheadLog es (cl_server c) = Some s"
    and "list_all (\<lambda>e. \<not> touches e) es"
  shows "demo_step\<^sup>*\<^sup>* c (c\<lparr>cl_server := s\<rparr>)"
  using assms
proof (induction es arbitrary: c)
  case (Cons e es)
  obtain t where t: "demo_event e (cl_server c) = Some t"
    and rest: "run demo_config insertion_sort mem_upload Queries_AddWriteAheadLog es t = Some s"
    using Cons.prems(1) by (auto split: bind_splits)
  have "cl_serve e t c = c\<lparr>cl_server := t\<rparr>" using Cons.prems(2) by (cases e) (simp_all add: cl_serve_def)
  then have "demo_step c (c\<lparr>cl_server := t\<rparr>)"
    using cluster_step.served [OF t] Cons.prems(2) by (cases e) auto
  moreover have "demo_step\<^sup>*\<^sup>* (c\<lparr>cl_server := t\<rparr>) (c\<lparr>cl_server := s\<rparr>)"
    using Cons.IH [of "c\<lparr>cl_server := t\<rparr>"] rest Cons.prems(2) by simp
  ultimately show ?case by (rule converse_rtranclp_into_rtranclp)
qed auto

lemma one_record_eq: "[\<lparr>Key = ''k'', Value = [1], Tombstone = False\<rparr>] = one_record"
  by (simp add: one_record_def)

definition demo_batch :: batch where
  "demo_batch = \<lparr>batch_records = one_record, callbacks = [0], totalSize = 2\<rparr>"

text \<open>The server with its only worker at a batch, with the batch uploaded, and idle again.\<close>

definition demo_server ::
  "worker list \<Rightarrow> mem_bucket \<Rightarrow> DB \<Rightarrow> string list \<Rightarrow> (nat \<times> go_error option) list \<Rightarrow> (mem_bucket, conn) server"
where
  "demo_server ws st d us rs =
     \<lparr>loop = Selecting, current = None, timer = TimerNil, processing = [], processing_closed = False,
      workers = ws, spawned = True, done_closed = True, store = st,
      db = \<lparr>outcomes = [], database = d\<rparr>, ctx_done = False, panicked = False, uuids = us,
      accepted = [(0, demo_request)], replies = rs\<rparr>"

abbreviation demo_bucket :: mem_bucket where
  "demo_bucket \<equiv> put_object (wal_path ''x'') one_record empty_bucket"

lemma demo_taken:
  "run demo_config insertion_sort mem_upload Queries_AddWriteAheadLog
     (arrived @ [TimerFires, SendBatch, TakeBatch]) demo_start =
   Some (demo_server [Taken demo_batch] empty_bucket migrated [] [])"
  by (simp add: arrived_def demo_simps go_int_def one_record_def demo_server_def demo_batch_def)

lemma demo_uploaded:
  "demo_event (UploadBatch 0 ''x'') (demo_server [Taken demo_batch] empty_bucket migrated [] []) =
   Some (demo_server [Uploaded ''x'' demo_batch] demo_bucket migrated [''x''] [])"
  by (simp add: demo_server_def server_step_def worker_upload_def demo_batch_def upload_batch_def
      mem_upload_def put_object_def empty_bucket_def)

lemma demo_inserted:
  "demo_event (InsertBatch 0 0) (demo_server [Uploaded ''x'' demo_batch] demo_bucket migrated [''x''] []) =
   Some (demo_server [] demo_bucket (run_db [run_row 1 ''NEW'' ''x'' one_record] 2 [] 1) [''x''] [(0, None)])"
  by (simp add: demo_server_def server_step_def worker_insert_def demo_batch_def insert_batch_def
      Queries_AddWriteAheadLog_def notify_def without_worker_def migrated_run_db)

lemma demo_server_small: "small_object mem_contents
    (store (demo_server ws demo_bucket d us rs)) (wal_path ''x'')"
  by (simp add: demo_server_def small_object_def mem_contents_def put_object_def update_conv'
      one_record_length [simplified])

definition demo_cluster :: "DB \<Rightarrow> queue \<Rightarrow> mem_bucket \<Rightarrow> string list \<Rightarrow> merge list \<Rightarrow> (mem_bucket, queue) cluster" where
  "demo_cluster d q st us ms =
     \<lparr>cl_server = demo_server [] st d us [(0, None)], cl_queue = q, cl_merges = ms,
      cl_batches = [demo_batch]\<rparr>"

definition written :: "(mem_bucket, queue) cluster" where
  "written =
     demo_cluster (run_db [run_row 1 ''NEW'' ''x'' one_record] 2 [] 1) no_jobs demo_bucket [''x''] []"

lemma written_run: "demo_step\<^sup>*\<^sup>* (cluster_start demo_start no_jobs) written"
proof -
  let ?c = "cluster_start demo_start no_jobs"
  let ?taken = "demo_server [Taken demo_batch] empty_bucket migrated [] []"
    and ?added = "demo_server [] demo_bucket (run_db [run_row 1 ''NEW'' ''x'' one_record] 2 [] 1)
      [''x''] [(0, None)]"
    and ?up = "demo_server [Uploaded ''x'' demo_batch] demo_bucket migrated [''x''] []"
  have "demo_step\<^sup>*\<^sup>* ?c (?c\<lparr>cl_server := ?taken\<rparr>)"
    using demo_taken
    by (intro demo_quiet_run) (simp only: cluster_start_def cluster.select_convs, simp add: arrived_def)
  moreover have "demo_step (?c\<lparr>cl_server := ?taken\<rparr>) (?c\<lparr>cl_server := ?up\<rparr>)"
  proof -
    have "cl_serve (UploadBatch 0 ''x'') ?up (?c\<lparr>cl_server := ?taken\<rparr>) = ?c\<lparr>cl_server := ?up\<rparr>"
      by (simp add: cl_serve_def)
    moreover have "demo_step (?c\<lparr>cl_server := ?taken\<rparr>)
        (cl_serve (UploadBatch 0 ''x'') ?up (?c\<lparr>cl_server := ?taken\<rparr>))"
      by (rule cluster_step.served) (use demo_uploaded in \<open>auto simp: demo_server_small\<close>)
    ultimately show ?thesis by (simp only:)
  qed
  moreover have "demo_step (?c\<lparr>cl_server := ?up\<rparr>) written"
  proof -
    have "cl_serve (InsertBatch 0 0) ?added (?c\<lparr>cl_server := ?up\<rparr>) = written"
      by (simp add: cl_serve_def cluster_start_def written_def demo_cluster_def cl_db_def)
        (simp add: demo_server_def migrated_def)
    moreover have "demo_step (?c\<lparr>cl_server := ?up\<rparr>)
        (cl_serve (InsertBatch 0 0) ?added (?c\<lparr>cl_server := ?up\<rparr>))"
      by (rule cluster_step.served) (use demo_inserted in auto)
    ultimately show ?thesis by (simp only:)
  qed
  ultimately show ?thesis by (meson rtranclp.rtrancl_into_rtrancl)
qed

abbreviation demo_row :: "string \<Rightarrow> WriteAheadLog" where
  "demo_row st \<equiv> run_row 1 st ''x'' one_record"

abbreviation demo_merged_bucket :: mem_bucket where
  "demo_merged_bucket \<equiv> put_object (run_path ''y'') one_record demo_bucket"

definition compacted_cluster :: "(mem_bucket, queue) cluster" where
  "compacted_cluster =
     demo_cluster (run_db [] 2 [\<lparr>RunSeqNo = 1, RunRowAttrs = \<lparr>RunPath = run_path ''y''\<rparr>\<rparr>] 2)
       \<lparr>queued = [], next_id = 1\<rparr> demo_merged_bucket [''y'', ''x''] []"

lemma demo_cluster_simps [simp]:
  "cl_db (demo_cluster d q st us ms) = d" "cl_queue (demo_cluster d q st us ms) = q"
  "cl_store (demo_cluster d q st us ms) = st" "cl_merges (demo_cluster d q st us ms) = ms"
  "cl_batches (demo_cluster d q st us ms) = [demo_batch]"
  "uuids (cl_server (demo_cluster d q st us ms)) = us"
  by (simp_all add: demo_cluster_def cl_db_def cl_store_def demo_server_def)

lemma demo_schedule:
  "cl_schedule one_log_config queue_insert no_faults [demo_row ''NEW''] written =
   demo_cluster (run_db [demo_row ''COMPACTING''] 2 [] 1)
     \<lparr>queued = [(0, [demo_row ''NEW''])], next_id = 1\<rparr> demo_bucket [''x''] []"
proof -
  have "maybeCompactWAL one_log_config queue_insert no_faults [demo_row ''NEW''] (cl_db written, cl_queue written) =
      (None, (run_db [demo_row ''COMPACTING''] 2 [] 1, \<lparr>queued = [(0, [demo_row ''NEW''])], next_id = 1\<rparr>))"
    by (subst maybeCompactWAL_no_faults)
      (simp_all add: one_log_config_def queue_insert_def written_def mark_run_db no_jobs_def queue_pending_def)
  then show ?thesis
    by (simp add: cl_schedule_def) (simp add: written_def demo_cluster_def demo_server_def set_db_def)
qed

lemma demo_merge:
  "compact_objects insertion_sort insertion_sort mem_fetch mem_upload ''y''
     \<lparr>JobID = 0, Args = \<lparr>WALs = [demo_row ''NEW'']\<rparr>\<rparr> demo_bucket = (None, demo_merged_bucket)"
proof -
  have "insertion_sort (\<lambda>a b. SeqNo b < SeqNo a) [demo_row ''NEW''] = [demo_row ''NEW'']"
    by (simp add: insertion_sort_def)
  moreover have "\<not> SizeBytes (Attrs (demo_row ''NEW'')) < 0"
    by (simp add: not_less)
  ultimately show ?thesis
    by (simp add: compact_objects_def mem_fetch_def mem_upload_def Records_keep_first put_object_def
        empty_bucket_def)
qed

lemma demo_commit:
  "compaction_tx queue_complete no_faults 0 (run_path ''y'')
     (map SeqNo (insertion_sort (\<lambda>a b. SeqNo a > SeqNo b) [demo_row ''NEW'']))
     (run_db [demo_row ''COMPACTING''] 2 [] 1, \<lparr>queued = [(0, [demo_row ''NEW''])], next_id = 1\<rparr>) =
   (None, (run_db [] 2 [\<lparr>RunSeqNo = 1, RunRowAttrs = \<lparr>RunPath = run_path ''y''\<rparr>\<rparr>] 2,
      \<lparr>queued = [], next_id = 1\<rparr>))"
proof -
  have "insertion_sort (\<lambda>a b. SeqNo b < SeqNo a) [demo_row ''NEW''] = [demo_row ''NEW'']"
    by (simp add: insertion_sort_def)
  moreover have "queue_complete 0 \<lparr>queued = [(0, [demo_row ''NEW''])], next_id = 1\<rparr> =
      Inr \<lparr>queued = [], next_id = 1\<rparr>"
    by (simp add: queue_complete_def queue_pending_def)
  ultimately show ?thesis
    by (simp add: compaction_tx_def no_faults_def commit_def split_beta
        compacted_run_db [unfolded compacted_def])
qed

lemma compacted_run: "demo_step\<^sup>*\<^sup>* written compacted_cluster"
proof -
  let ?sched = "demo_cluster (run_db [demo_row ''COMPACTING''] 2 [] 1)
     \<lparr>queued = [(0, [demo_row ''NEW''])], next_id = 1\<rparr> demo_bucket [''x''] []"
  let ?merged = "demo_cluster (run_db [demo_row ''COMPACTING''] 2 [] 1)
     \<lparr>queued = [(0, [demo_row ''NEW''])], next_id = 1\<rparr> demo_merged_bucket [''y'', ''x'']
     [(''y'', 0, [demo_row ''NEW''])]"
  have "demo_step written (cl_schedule one_log_config queue_insert no_faults [demo_row ''NEW''] written)"
    by (rule cluster_step.scheduled [where n = 1]) (simp add: written_def)
  then have "demo_step written ?sched" by (simp only: demo_schedule)
  moreover have "demo_step ?sched ?merged"
  proof (rule cluster_step.merged)
    show "?merged = cl_merge insertion_sort insertion_sort mem_fetch mem_upload ''y'' 0 [demo_row ''NEW''] ?sched"
      by (simp add: cl_merge_def demo_merge) (simp add: demo_cluster_def demo_server_def)
  qed (simp_all add: queue_pending_def small_object_def mem_contents_def put_object_def update_conv'
      one_record_length [simplified])
  moreover have "demo_step ?merged compacted_cluster"
  proof -
    have "cl_commit insertion_sort queue_complete no_faults (''y'', 0, [demo_row ''NEW'']) ?merged =
        compacted_cluster"
      by (simp add: cl_commit_def demo_commit del: list.map One_nat_def)
        (simp add: compacted_cluster_def demo_cluster_def demo_server_def set_db_def)
    moreover have "demo_step ?merged
        (cl_commit insertion_sort queue_complete no_faults (''y'', 0, [demo_row ''NEW'']) ?merged)"
      by (rule cluster_step.committed) (simp_all add: queue_pending_def)
    ultimately show ?thesis by (simp only:)
  qed
  ultimately show ?thesis by (meson converse_rtranclp_into_rtranclp rtranclp.rtrancl_refl)
qed

definition between_fleet :: fleet where
  "between_fleet =
     \<lparr>nodes = [(''http://a:5002'', small_cache)], bucket = demo_merged_bucket, network = []\<rparr>"

definition between_index :: index_handler where
  "between_index = refreshed_at insertion_sort insertion_sort insertion_sort (cl_db written)
     (cl_db compacted_cluster) (cl_db compacted_cluster) (demo_index [] [] [])"

lemma between_index: "between_index = demo_index [demo_row ''NEW'']
    [\<lparr>RunSeqNo = 1, RunRowAttrs = \<lparr>RunPath = run_path ''y''\<rparr>\<rparr>] (demo_parts [])"
  by (simp add: between_index_def refreshed_at_def written_def compacted_cluster_def updateWALs_def
      updateSharedRuns_def updatePartitions_def GetWriteAheadLogs_def GetSharedRuns_def
      GetPartitions_def insertion_sort_def demo_index_def demo_parts_def migrated_def)

lemma between_fleet_facts:
  "fleet_valid between_fleet" "ring_serving fleet_serving (demo_index ws rs ps) between_fleet"
  "\<forall>p. p \<noteq> [] \<longrightarrow> fleet_table between_fleet p = stored_table mem_contents (cl_store compacted_cluster) p"
  by (simp_all add: fleet_valid_def between_fleet_def small_cache(2) cache_ok_def cached_def coherent_def
      ring_serving_def ring_ok_def demo_index_def fleet_serving_def put_object_def empty_bucket_def
      fleet_table_def stored_table_def compacted_cluster_def)

lemma between_table: "fleet_table between_fleet (wal_path ''x'') = Some one_record"
  "fleet_table between_fleet (run_path ''y'') = Some one_record"
  by (simp_all add: fleet_table_def between_fleet_def put_object_def mem_contents_def update_conv')
    (simp_all add: wal_path_def run_path_def)

lemma between_answers: "\<exists>resp w'. BatchGet (\<lambda>_. 0) fleet_call between_index [''k''] between_fleet = (Inr resp, w')"
proof -
  have stored: "sources_stored fleet_table between_fleet [demo_row ''NEW'']
      [\<lparr>RunSeqNo = 1, RunRowAttrs = \<lparr>RunPath = run_path ''y''\<rparr>\<rparr>] (demo_parts [])"
    by (simp add: sources_stored_def demo_parts_def run_paths_def comp_def shared_paths_def wal_paths_def
        between_table)
  obtain r w' where g: "BatchGet (\<lambda>_. 0) fleet_call between_index [''k''] between_fleet = (r, w')" by fastforce
  have "\<not> (\<exists>e. r = Inl e)"
    using BatchGet_fails_iff [OF fleet.answering_cache_service_axioms between_fleet_facts(1)
        between_fleet_facts(2) _ _ _ stored _ _ g [unfolded between_index]]
    by (simp add: wal_paths_def between_table)
  then show ?thesis using g by (cases r) auto
qed

lemma demo_started: "NewHandler demo_config empty_bucket fresh_conn = Inr demo_start"
  "database fresh_conn = migrated" "queue_pending no_jobs = []"
  by (simp_all add: demo_start_def NewHandler_def demo_config_def fresh_conn_def no_jobs_def queue_pending_def)





end
