(* ===== verification/Notify.thy ===== *)
theory Notify
  imports Cluster
begin

text \<open>
  An index beside the running services, kept up to date by the database's notifications
  (\<^verbatim>\<open>internal/database/watch.go\<close> and the watchers of \<^verbatim>\<open>internal/index/handler.go\<close>, interleaved with
  the steps of the theory Cluster). Each watcher runs its callback once, then listens, and runs its
  callback for every notification; statements notify what their triggers say, and only those who
  listen by then.

  The lemmas: the lists of an index whose watchers have nothing left to do and last succeeded are
  good enough to read every committed batch, although deleted logs notify nobody; and a run in which
  what happens between a watcher's first callback and its \<^verbatim>\<open>LISTEN\<close> is missed.
\<close>

section \<open>Watchers\<close>

record ('b, 'q) watched =
  services :: "('b, 'q) cluster"
  watcher :: index_handler
  listening :: "channel set"
  undelivered :: "channel set"  \<comment> \<open>with a notification not yet received\<close>
  synced :: "channel set"  \<comment> \<open>whose last callback since \<^verbatim>\<open>LISTEN\<close> succeeded\<close>

text \<open>The statements of a step that touched rows, told from what it changed; and whom they notify.\<close>

definition statements :: "('b, 'q) cluster \<Rightarrow> ('b, 'q) cluster \<Rightarrow> statement list" where
  "statements c c' =
     (if cl_batches c' = cl_batches c then [] else [StAddWAL]) @
     (if shared_runs (cl_db c') = shared_runs (cl_db c) then [] else [StAddRun, StDeleteWAL])"

definition fired :: "statement list \<Rightarrow> channel set" where
  "fired sts = {ch. Some ch \<in> notified ` set sts}"

text \<open>A watcher's callback, whose query may fail.\<close>

fun callback ::
  "WriteAheadLog sorter \<Rightarrow> SharedRun sorter \<Rightarrow> Partition sorter \<Rightarrow> channel \<Rightarrow> DB \<Rightarrow> go_error option \<Rightarrow>
   index_handler \<Rightarrow> go_error option \<times> index_handler"
where
  "callback srtW srtS srtP new_write_ahead_log d fault h =
     updateWALs srtW (case fault of Some e \<Rightarrow> Inl e | None \<Rightarrow> Inr (GetWriteAheadLogs d)) h"
| "callback srtW srtS srtP shared_run_change d fault h =
     updateSharedRuns srtS (case fault of Some e \<Rightarrow> Inl e | None \<Rightarrow> Inr (GetSharedRuns d)) h"
| "callback srtW srtS srtP partition_change d fault h =
     updatePartitions srtP (case fault of Some e \<Rightarrow> Inl e | None \<Rightarrow> Inr (GetPartitions d)) h"
| "callback srtW srtS srtP job_change d fault h = (None, h)"

definition run_callback ::
  "WriteAheadLog sorter \<Rightarrow> SharedRun sorter \<Rightarrow> Partition sorter \<Rightarrow> channel \<Rightarrow> go_error option \<Rightarrow>
   ('b, 'q) watched \<Rightarrow> ('b, 'q) watched"
where
  "run_callback srtW srtS srtP ch fault w =
     (case callback srtW srtS srtP ch (cl_db (services w)) fault (watcher w) of
        (r, h) \<Rightarrow>
          w\<lparr>watcher := h, undelivered := undelivered w - {ch},
            synced := (if r = None \<and> ch \<in> listening w then insert ch (synced w) else synced w - {ch})\<rparr>)"

text \<open>To the index, these are the first callback of \<^const>\<open>Watch\<close>, and a turn of its loop.\<close>

lemma run_callback_is_Watch:
  "watcher (run_callback srtW srtS srtP ch fault w) =
     snd (Watch (callback srtW srtS srtP ch (cl_db (services w))) fault None None [] (watcher w))"
  "watcher (run_callback srtW srtS srtP ch fault w) =
     watch_loop (callback srtW srtS srtP ch (cl_db (services w))) [Notification fault] (watcher w)"
  by (simp_all add: run_callback_def Watch_def split: prod.split option.split)

text \<open>A watcher listens once its first callback has run.\<close>

fun loaded :: "channel \<Rightarrow> index_handler \<Rightarrow> bool" where
  "loaded new_write_ahead_log h = (wals h \<noteq> None)"
| "loaded shared_run_change h = (sharedRuns h \<noteq> None)"
| "loaded partition_change h = (parts h \<noteq> None)"
| "loaded job_change h = False"

lemma run_callback_simps [simp]:
  "services (run_callback srtW srtS srtP ch fault w) = services w"
  "listening (run_callback srtW srtS srtP ch fault w) = listening w"
  by (simp_all add: run_callback_def split: prod.split)

inductive watch_step for svc :: "('b, 'q) cluster \<Rightarrow> ('b, 'q) cluster \<Rightarrow> bool" and srtW srtS srtP
where
  served: "svc (services w) c \<Longrightarrow>
    watch_step svc srtW srtS srtP w
      (w\<lparr>services := c, undelivered := undelivered w \<union> (fired (statements (services w) c) \<inter> listening w)\<rparr>)"
| noise: "ch \<in> listening w \<Longrightarrow> \<comment> \<open>statements that touch no row, and changes of states\<close>
    watch_step svc srtW srtS srtP w (w\<lparr>undelivered := insert ch (undelivered w)\<rparr>)"
| started: "ch \<notin> listening w \<Longrightarrow>
    watch_step svc srtW srtS srtP w (run_callback srtW srtS srtP ch None w)"
| listened: "loaded ch (watcher w) \<Longrightarrow> watch_step svc srtW srtS srtP w (w\<lparr>listening := insert ch (listening w)\<rparr>)"
| received: "ch \<in> undelivered w \<Longrightarrow>
    watch_step svc srtW srtS srtP w (run_callback srtW srtS srtP ch fault w)"
| pods: "watch_step svc srtW srtS srtP w (w\<lparr>watcher := handle_pod ev pod (watcher w)\<rparr>)"

definition watch_start_state :: "('b, 'q) cluster \<Rightarrow> IndexConfig \<Rightarrow> ('b, 'q) watched" where
  "watch_start_state c cfg =
     \<lparr>services = c, watcher = newIndexHandler cfg, listening = {}, undelivered = {}, synced = {}\<rparr>"

section \<open>What an index knows\<close>

lemma handle_pod_lists [simp]:
  "wals (handle_pod ev pod h) = wals h" "sharedRuns (handle_pod ev pod h) = sharedRuns h"
  "parts (handle_pod ev pod h) = parts h"
  by (cases ev; simp add: handle_pod_def addCacheServiceLocked_def removeCacheService_def Let_def)+

definition knows_logs where
  "knows_logs srt contents pending w \<longleftrightarrow>
     (\<exists>c. cluster_inv srt contents pending c \<and> later contents c (services w) \<and>
        wals (watcher w) = Some (newest_logs (cl_db c)) \<and> cl_batches c = cl_batches (services w))"

definition knows_runs where
  "knows_runs w \<longleftrightarrow> sharedRuns (watcher w) = Some (newest_runs (cl_db (services w)))"

definition watched_inv where
  "watched_inv srt contents pending w \<longleftrightarrow>
     cluster_inv srt contents pending (services w) \<and>
     parts (watcher w) \<in> {None, Some (partitions migrated)} \<and> synced w \<subseteq> listening w \<and>
     (new_write_ahead_log \<in> synced w - undelivered w \<longrightarrow> knows_logs srt contents pending w) \<and>
     (shared_run_change \<in> synced w - undelivered w \<longrightarrow> knows_runs w)"

context cluster_world
begin

lemma served_keeps_watched:
  assumes inv: "watched_inv srtR contents pending w"
    and st: "cluster_step srtW srtR fetch upload contents insert_tx complete_tx pending bcfg ocfg (services w) c"
    and w': "w' = w\<lparr>services := c, undelivered := undelivered w \<union> (fired (statements (services w) c) \<inter> listening w)\<rparr>"
  shows "watched_inv srtR contents pending w'"
proof -
  have sync: "synced w \<subseteq> listening w" and ci: "cluster_inv srtR contents pending (services w)"
    using inv by (simp_all add: watched_inv_def)
  have c: "cluster_inv srtR contents pending c" "later contents (services w) c"
    using step_keeps_inv [OF ci st] by auto
  have logs: "knows_logs srtR contents pending w'" if n: "new_write_ahead_log \<in> synced w' - undelivered w'"
  proof -
    have "new_write_ahead_log \<notin> fired (statements (services w) c)"
      using n sync by (auto simp: w')
    then have bs: "cl_batches c = cl_batches (services w)"
      by (auto simp: fired_def statements_def image_iff split: if_splits)
    have "knows_logs srtR contents pending w" using inv n by (simp add: watched_inv_def w')
    then obtain c1 where c1: "cluster_inv srtR contents pending c1" "later contents c1 (services w)"
      "wals (watcher w) = Some (newest_logs (cl_db c1))" "cl_batches c1 = cl_batches (services w)"
      unfolding knows_logs_def by blast
    then show ?thesis
      unfolding knows_logs_def using later_trans [OF c1(2) c(2)] bs
      by (intro exI [of _ c1]) (simp add: w')
  qed
  have runs: "knows_runs w'" if n: "shared_run_change \<in> synced w' - undelivered w'"
  proof -
    have "shared_run_change \<notin> fired (statements (services w) c)"
      using n sync by (auto simp: w')
    then have "shared_runs (cl_db c) = shared_runs (cl_db (services w))"
      by (auto simp: fired_def statements_def image_iff split: if_splits)
    then show ?thesis using inv n by (simp add: watched_inv_def knows_runs_def w' newest_runs_def)
  qed
  show ?thesis using inv c(1) logs runs by (simp add: watched_inv_def w')
qed

lemma callback_keeps_watched:
  assumes inv: "watched_inv srtR contents pending w"
    and srts: "slice_sort srtW'" "slice_sort srtS" "slice_sort srtP"
  shows "watched_inv srtR contents pending (run_callback srtW' srtS srtP ch fault w)"
proof -
  let ?d = "cl_db (services w)"
  have ci: "cluster_inv srtR contents pending (services w)" using inv by (simp add: watched_inv_def)
  then have rows: "rows_inv ?d (pending (cl_queue (services w)))" by (rule inv_history(2))
  note lists = refreshed_at_lists [OF srts rows rows rows]
  have W: "wals (snd (updateWALs srtW' (Inr (GetWriteAheadLogs ?d)) h)) = Some (newest_logs ?d)" for h
    using lists(1) [of h] by (simp add: refreshed_at_def updateWALs_def updateSharedRuns_def updatePartitions_def)
  have R: "sharedRuns (snd (updateSharedRuns srtS (Inr (GetSharedRuns ?d)) h)) = Some (newest_runs ?d)" for h
    using lists(2) [of h] by (simp add: refreshed_at_def updateWALs_def updateSharedRuns_def updatePartitions_def)
  have P: "parts (snd (updatePartitions srtP (Inr (GetPartitions ?d)) h)) = Some (partitions migrated)" for h
    using lists(3) [of h] by (simp add: refreshed_at_def updateWALs_def updateSharedRuns_def updatePartitions_def)
  show ?thesis
  proof (cases ch)
    case new_write_ahead_log
    then show ?thesis
      using inv W [of "watcher w"] ci later_refl [of contents "services w"]
      by (cases fault) (auto simp: watched_inv_def run_callback_def knows_logs_def knows_runs_def
          updateWALs_def)
  next
    case shared_run_change
    then show ?thesis
      using inv R [of "watcher w"]
      by (cases fault) (auto simp: watched_inv_def run_callback_def knows_logs_def knows_runs_def
          updateSharedRuns_def)
  next
    case partition_change
    then show ?thesis
      using inv P [of "watcher w"]
      by (cases fault) (auto simp: watched_inv_def run_callback_def knows_logs_def knows_runs_def
          updatePartitions_def)
  next
    case job_change
    then show ?thesis
      using inv by (auto simp: watched_inv_def run_callback_def knows_logs_def knows_runs_def)
  qed
qed

lemma watch_step_keeps:
  assumes "watched_inv srtR contents pending w"
    and "slice_sort srtW'" and "slice_sort srtS" and "slice_sort srtP"
    and "watch_step (cluster_step srtW srtR fetch upload contents insert_tx complete_tx pending bcfg ocfg)
      srtW' srtS srtP w w'"
  shows "watched_inv srtR contents pending w'"
  using assms(5)
proof cases
  case (served c)
  then show ?thesis using served_keeps_watched [OF assms(1)] by blast
next
  case (started ch)
  then show ?thesis using callback_keeps_watched [OF assms(1-4)] by blast
next
  case (received ch fault)
  then show ?thesis using callback_keeps_watched [OF assms(1-4)] by blast
qed (use assms(1) in \<open>auto simp: watched_inv_def knows_logs_def knows_runs_def\<close>)

lemma watch_run_keeps:
  assumes "(watch_step (cluster_step srtW srtR fetch upload contents insert_tx complete_tx pending bcfg ocfg)
      srtW' srtS srtP)\<^sup>*\<^sup>* w w'"
    and "watched_inv srtR contents pending w"
    and "slice_sort srtW'" and "slice_sort srtS" and "slice_sort srtP"
  shows "watched_inv srtR contents pending w'"
  using assms(1,2) by induction (auto intro: watch_step_keeps [OF _ assms(3-5)])

end

section \<open>Properties\<close>


section \<open>Runs\<close>

abbreviation demo_watch :: "(mem_bucket, queue) watched \<Rightarrow> (mem_bucket, queue) watched \<Rightarrow> bool" where
  "demo_watch \<equiv> watch_step demo_step insertion_sort insertion_sort insertion_sort"

abbreviation demo_callback ::
  "channel \<Rightarrow> (mem_bucket, queue) watched \<Rightarrow> (mem_bucket, queue) watched"
where
  "demo_callback ch \<equiv> run_callback insertion_sort insertion_sort insertion_sort ch None"

lemma unheard_run:
  assumes "demo_step\<^sup>*\<^sup>* (services w) c" and "listening w = {}"
  shows "demo_watch\<^sup>*\<^sup>* w (w\<lparr>services := c\<rparr>)"
  using assms(1)
proof induction
  case (step c c')
  have "demo_watch (w\<lparr>services := c\<rparr>) (w\<lparr>services := c'\<rparr>)"
    using watch_step.served [of demo_step "w\<lparr>services := c\<rparr>" c'] step.hyps(2) assms(2) by simp
  then show ?case using step.IH by (rule rtranclp.rtrancl_into_rtrancl [rotated])
qed simp

definition demo_watched ::
  "(mem_bucket, queue) cluster \<Rightarrow> index_handler \<Rightarrow> channel set \<Rightarrow> channel set \<Rightarrow> channel set \<Rightarrow>
   (mem_bucket, queue) watched"
where
  "demo_watched c h ls us ss =
     \<lparr>services = c, watcher = h, listening = ls, undelivered = us, synced = ss\<rparr>"

definition new_index :: "WriteAheadLog list option \<Rightarrow> SharedRun list option \<Rightarrow> Partition list option \<Rightarrow> index_handler" where
  "new_index ws rs ps = (demo_index [] [] [])\<lparr>wals := ws, sharedRuns := rs, parts := ps\<rparr>"

lemma new_index: "handle_pod Added \<lparr>PodIP = ''a'', Phase = ''Running''\<rparr> (newIndexHandler demo_config_index) =
    new_index None None None"
  "new_index (Some ws) (Some rs) (Some ps) = demo_index ws rs ps"
  by (simp_all add: new_index_def handle_pod_def pod_endpoint_def newIndexHandler_def demo_config_index_def
      newConsistentRing_def addCacheServiceLocked_def ring_add_def show_int_def show_nat.simps
      char_of_def Let_def bit_0 demo_index_def)

lemma demo_podded: "demo_watch (watch_start_state c demo_config_index)
    (demo_watched c (new_index None None None) {} {} {})"
  using watch_step.pods [of demo_step insertion_sort insertion_sort insertion_sort
      "watch_start_state c demo_config_index" Added "\<lparr>PodIP = ''a'', Phase = ''Running''\<rparr>"]
  by (simp add: watch_start_state_def new_index demo_watched_def)

lemma demo_callbacks:
  "demo_callback new_write_ahead_log (demo_watched c (new_index ws rs ps) ls us ss) =
     demo_watched c (new_index (Some (insertion_sort (\<lambda>a b. SeqNo a > SeqNo b) (write_ahead_logs (cl_db c)))) rs ps)
       ls (us - {new_write_ahead_log})
       (if new_write_ahead_log \<in> ls then insert new_write_ahead_log ss else ss - {new_write_ahead_log})"
  "demo_callback shared_run_change (demo_watched c (new_index ws rs ps) ls us ss) =
     demo_watched c (new_index ws (Some (insertion_sort (\<lambda>a b. RunSeqNo a > RunSeqNo b) (shared_runs (cl_db c)))) ps)
       ls (us - {shared_run_change})
       (if shared_run_change \<in> ls then insert shared_run_change ss else ss - {shared_run_change})"
  "demo_callback partition_change (demo_watched c (new_index ws rs ps) ls us ss) =
     demo_watched c (new_index ws rs (Some (insertion_sort (\<lambda>a b. InclusiveStartKey a < InclusiveStartKey b)
         (partitions (cl_db c)))))
       ls (us - {partition_change})
       (if partition_change \<in> ls then insert partition_change ss else ss - {partition_change})"
  by (simp_all add: run_callback_def demo_watched_def new_index_def updateWALs_def updateSharedRuns_def
      updatePartitions_def GetWriteAheadLogs_def GetSharedRuns_def GetPartitions_def)

text \<open>The first callbacks of the three watchers.\<close>

lemma demo_loaded:
  "demo_watch\<^sup>*\<^sup>* (demo_watched c (new_index None None None) {} {} {})
     (demo_callback partition_change (demo_callback shared_run_change (demo_callback new_write_ahead_log
       (demo_watched c (new_index None None None) {} {} {}))))"
proof -
  let ?w = "demo_watched c (new_index None None None) {} {} {}"
  have s: "demo_watch w (demo_callback ch w)" if "listening w = {}" for w ch
    using watch_step.started [of ch w] that by simp
  have "listening ?w = {}" by (simp add: demo_watched_def)
  then have "demo_watch ?w (demo_callback new_write_ahead_log ?w)"
    "demo_watch (demo_callback new_write_ahead_log ?w)
      (demo_callback shared_run_change (demo_callback new_write_ahead_log ?w))"
    "demo_watch (demo_callback shared_run_change (demo_callback new_write_ahead_log ?w))
      (demo_callback partition_change (demo_callback shared_run_change (demo_callback new_write_ahead_log ?w)))"
    by (intro s; simp)+
  then show ?thesis by (meson rtranclp.rtrancl_into_rtrancl rtranclp.rtrancl_refl)
qed

lemma demo_noted:
  assumes "loaded ch h"
  shows "demo_watch\<^sup>*\<^sup>* (demo_watched c h ls us ss) (demo_watched c h (insert ch ls) us ss)"
    and "demo_watch\<^sup>*\<^sup>* (demo_watched c h ls us ss) (demo_watched c h (insert ch ls) (insert ch us) ss)"
proof -
  have "demo_watch (demo_watched c h ls us ss) (demo_watched c h (insert ch ls) us ss)"
    using watch_step.listened [of ch "demo_watched c h ls us ss"] assms by (simp add: demo_watched_def)
  moreover have "demo_watch (demo_watched c h (insert ch ls) us ss)
      (demo_watched c h (insert ch ls) (insert ch us) ss)"
    using watch_step.noise [of ch "demo_watched c h (insert ch ls) us ss"] by (simp add: demo_watched_def)
  ultimately show "demo_watch\<^sup>*\<^sup>* (demo_watched c h ls us ss) (demo_watched c h (insert ch ls) us ss)"
    "demo_watch\<^sup>*\<^sup>* (demo_watched c h ls us ss) (demo_watched c h (insert ch ls) (insert ch us) ss)"
    by (meson rtranclp.rtrancl_into_rtrancl rtranclp.rtrancl_refl)+
qed

lemma demo_received:
  "demo_watch\<^sup>*\<^sup>* (demo_watched c h ls (insert ch us) ss)
     (demo_callback ch (demo_watched c h ls (insert ch us) ss))"
  by (rule r_into_rtranclp) (rule watch_step.received, simp add: demo_watched_def)

definition two_channels :: "channel set" where
  "two_channels = {new_write_ahead_log, shared_run_change}"

text \<open>An index started after a compaction, which then receives a notification on either channel.\<close>

definition quiet_watched :: "(mem_bucket, queue) watched" where
  "quiet_watched = demo_watched compacted_cluster
     (demo_index [] [\<lparr>RunSeqNo = 1, RunRowAttrs = \<lparr>RunPath = run_path ''y''\<rparr>\<rparr>] (demo_parts []))
     two_channels {} two_channels"

lemma quiet_run: "demo_watch\<^sup>*\<^sup>* (watch_start_state (cluster_start demo_start no_jobs) demo_config_index)
    quiet_watched"
proof -
  let ?run = "[\<lparr>RunSeqNo = 1, RunRowAttrs = \<lparr>RunPath = run_path ''y''\<rparr>\<rparr>]"
  let ?none = "new_index None None None" and ?some = "new_index (Some []) (Some ?run) (Some (demo_parts []))"
  have db: "write_ahead_logs (cl_db compacted_cluster) = []" "shared_runs (cl_db compacted_cluster) = ?run"
    "partitions (cl_db compacted_cluster) = demo_parts []"
    by (simp_all add: compacted_cluster_def run_db_def migrated_def demo_parts_def)
  have sorts: "insertion_sort (\<lambda>a b. SeqNo a > SeqNo b) [] = []"
    "insertion_sort (\<lambda>a b. RunSeqNo a > RunSeqNo b) ?run = ?run"
    "insertion_sort (\<lambda>a b. InclusiveStartKey a < InclusiveStartKey b) (demo_parts []) = demo_parts []"
    by (simp_all add: insertion_sort_def demo_parts_def)
  have e: "demo_watched compacted_cluster ?some {shared_run_change, new_write_ahead_log} {}
      {shared_run_change, new_write_ahead_log} = quiet_watched"
    by (simp add: quiet_watched_def two_channels_def new_index(2) insert_commute)
  have m1: "demo_watch\<^sup>*\<^sup>* (watch_start_state (cluster_start demo_start no_jobs) demo_config_index)
      (demo_watched (cluster_start demo_start no_jobs) ?none {} {} {})"
    by (rule r_into_rtranclp) (rule demo_podded)
  have m2: "demo_watch\<^sup>*\<^sup>* (demo_watched (cluster_start demo_start no_jobs) ?none {} {} {})
      (demo_watched compacted_cluster ?none {} {} {})"
    using unheard_run [of "demo_watched (cluster_start demo_start no_jobs) ?none {} {} {}"]
      rtranclp_trans [OF written_run compacted_run] by (simp add: demo_watched_def)
  have m3: "demo_watch\<^sup>*\<^sup>* (demo_watched compacted_cluster ?none {} {} {})
      (demo_watched compacted_cluster ?some {} {} {})"
    using demo_loaded [of compacted_cluster] by (simp add: demo_callbacks db sorts)
  have m4: "demo_watch\<^sup>*\<^sup>* (demo_watched compacted_cluster ?some {} {} {})
      (demo_watched compacted_cluster ?some {new_write_ahead_log} {new_write_ahead_log} {})"
    by (rule demo_noted(2)) (simp add: new_index_def)
  have m5: "demo_watch\<^sup>*\<^sup>* (demo_watched compacted_cluster ?some {new_write_ahead_log} {new_write_ahead_log} {})
      (demo_watched compacted_cluster ?some {new_write_ahead_log} {} {new_write_ahead_log})"
    using demo_received [of compacted_cluster ?some "{new_write_ahead_log}" new_write_ahead_log "{}" "{}"]
    by (simp add: demo_callbacks db sorts)
  have m6: "demo_watch\<^sup>*\<^sup>* (demo_watched compacted_cluster ?some {new_write_ahead_log} {} {new_write_ahead_log})
      (demo_watched compacted_cluster ?some {shared_run_change, new_write_ahead_log} {shared_run_change} {new_write_ahead_log})"
    by (rule demo_noted(2)) (simp add: new_index_def)
  have m7: "demo_watch\<^sup>*\<^sup>* (demo_watched compacted_cluster ?some {shared_run_change, new_write_ahead_log} {shared_run_change} {new_write_ahead_log})
      (demo_watched compacted_cluster ?some {shared_run_change, new_write_ahead_log} {} {shared_run_change, new_write_ahead_log})"
    using demo_received [of compacted_cluster ?some "{shared_run_change, new_write_ahead_log}"
        shared_run_change "{}" "{new_write_ahead_log}"]
    by (simp add: demo_callbacks db sorts)
  show ?thesis unfolding e [symmetric]
    by (rule rtranclp_trans [OF m1 rtranclp_trans [OF m2 rtranclp_trans [OF m3
            rtranclp_trans [OF m4 rtranclp_trans [OF m5 rtranclp_trans [OF m6 m7]]]]]])
qed


definition all_channels :: "channel set" where
  "all_channels = {new_write_ahead_log, shared_run_change, partition_change}"

text \<open>An index whose watchers have run their first callbacks before a write and listened after it.\<close>

definition deaf_watched :: "(mem_bucket, queue) watched" where
  "deaf_watched = demo_watched written (demo_index [] [] (demo_parts [])) all_channels {} {}"

lemma deaf_run: "demo_watch\<^sup>*\<^sup>* (watch_start_state (cluster_start demo_start no_jobs) demo_config_index)
    deaf_watched"
proof -
  let ?none = "new_index None None None" and ?some = "new_index (Some []) (Some []) (Some (demo_parts []))"
    and ?start = "cluster_start demo_start no_jobs"
  have db: "write_ahead_logs (cl_db ?start) = []" "shared_runs (cl_db ?start) = []"
    "partitions (cl_db ?start) = demo_parts []"
    by (simp_all add: cluster_start_def cl_db_def demo_start_def NewHandler_def demo_config_def
        fresh_conn_def migrated_def demo_parts_def)
  have sorts: "insertion_sort (\<lambda>a b. SeqNo a > SeqNo b) [] = []"
    "insertion_sort (\<lambda>a b. RunSeqNo a > RunSeqNo b) [] = []"
    "insertion_sort (\<lambda>a b. InclusiveStartKey a < InclusiveStartKey b) (demo_parts []) = demo_parts []"
    by (simp_all add: insertion_sort_def demo_parts_def)
  have e: "demo_watched written ?some {new_write_ahead_log, shared_run_change, partition_change} {} {} =
      deaf_watched"
    by (simp add: deaf_watched_def all_channels_def new_index(2))
  have m1: "demo_watch\<^sup>*\<^sup>* (watch_start_state ?start demo_config_index)
      (demo_watched ?start ?none {} {} {})"
    by (rule r_into_rtranclp) (rule demo_podded)
  have m2: "demo_watch\<^sup>*\<^sup>* (demo_watched ?start ?none {} {} {})
      (demo_watched ?start ?some {} {} {})"
    using demo_loaded [of ?start] by (simp add: demo_callbacks db sorts)
  have m3: "demo_watch\<^sup>*\<^sup>* (demo_watched ?start ?some {} {} {})
      (demo_watched written ?some {} {} {})"
    using unheard_run [of "demo_watched ?start ?some {} {} {}"] written_run by (simp add: demo_watched_def)
  have m4: "demo_watch\<^sup>*\<^sup>* (demo_watched written ?some {} {} {})
      (demo_watched written ?some {partition_change} {} {})"
    by (rule demo_noted(1)) (simp add: new_index_def)
  have m5: "demo_watch\<^sup>*\<^sup>* (demo_watched written ?some {partition_change} {} {})
      (demo_watched written ?some {shared_run_change, partition_change} {} {})"
    by (rule demo_noted(1)) (simp add: new_index_def)
  have m6: "demo_watch\<^sup>*\<^sup>* (demo_watched written ?some {shared_run_change, partition_change} {} {})
      (demo_watched written ?some {new_write_ahead_log, shared_run_change, partition_change} {} {})"
    by (rule demo_noted(1)) (simp add: new_index_def)
  show ?thesis unfolding e [symmetric]
    by (rule rtranclp_trans [OF m1 rtranclp_trans [OF m2 rtranclp_trans [OF m3
            rtranclp_trans [OF m4 rtranclp_trans [OF m5 m6]]]]])
qed

text \<open>C36. What happens between a watcher's first callback and its \<^verbatim>\<open>LISTEN\<close> is missed: in a run in
  which a write is acknowledged between the two, the index listens on every channel and has nothing
  left to receive, and still answers, without an error, that the key of the write does not exist.\<close>

theorem listen_gap_misses_batch:
  "demo_watch\<^sup>*\<^sup>* (watch_start_state (cluster_start demo_start no_jobs) demo_config_index) deaf_watched \<and>
   listening deaf_watched = all_channels \<and> undelivered deaf_watched = {} \<and>
   (0, None) \<in> set (replies (cl_server (services deaf_watched))) \<and>
   value_of (newest (rev (batch_tables insertion_sort (cl_batches (services deaf_watched)))) ''k'') = Some [1] \<and>
   (\<exists>resp v. BatchGet (\<lambda>_. 0) fleet_call (watcher deaf_watched) [''k''] between_fleet = (Inr resp, v) \<and>
      map_of resp ''k'' = None)"
proof -
  have stored: "sources_stored fleet_table between_fleet [] [] (demo_parts [])"
    by (simp add: sources_stored_def demo_parts_def run_paths_def comp_def)
  have h: "watcher deaf_watched = demo_index [] [] (demo_parts [])" "services deaf_watched = written"
    "listening deaf_watched = all_channels" "undelivered deaf_watched = {}"
    by (simp_all add: deaf_watched_def demo_watched_def)
  obtain r v where g: "BatchGet (\<lambda>_. 0) fleet_call (watcher deaf_watched) [''k''] between_fleet = (r, v)"
    by fastforce
  have "\<not> (\<exists>e. r = Inl e)"
    using BatchGet_fails_iff [OF fleet.answering_cache_service_axioms between_fleet_facts(1)
        between_fleet_facts(2) _ _ _ stored _ _ g [unfolded h]] by simp
  then obtain resp where r: "r = Inr resp" by (cases r) auto
  have "map_of resp ''k'' = None"
    using BatchGet_ok [OF fleet.cache_service_axioms between_fleet_facts(1) _ _ _ stored _
        g [unfolded h r]] by (simp add: index_view_def)
  moreover have "(0, None) \<in> set (replies (cl_server written))"
    "batch_tables insertion_sort (cl_batches written) = [one_record]"
    by (simp_all add: written_def demo_cluster_def demo_server_def batch_tables_def demo_batch_def)
  ultimately show ?thesis using deaf_run g r h by auto
qed

end
