(* ===== verification/Progress.thy ===== *)
theory Progress
  imports Cluster
begin

text \<open>
  Compaction can always catch up. Nothing the services of the theory Cluster did, whatever failed on
  the way, keeps the logs from being worked off once the object store and the job queue serve: from
  every reachable state the pending jobs can be completed in their order, and what is left can be
  scheduled and compacted, until fewer logs remain than the orchestrator asks for.
\<close>

section \<open>A store and a queue that serve\<close>

locale serving_store = object_store upload fetch contents
  for upload :: "'b upload_fun" and fetch and contents +
  fixes serving :: "'b \<Rightarrow> bool"
  assumes fetch_serves: "serving b \<Longrightarrow> contents b p = Some x \<Longrightarrow>
      fst (fetch p b) = Inr (Inr x) \<and> serving (snd (fetch p b))"
    and upload_serves: "serving b \<Longrightarrow> length x < 2 ^ 63 \<Longrightarrow>
      fst (upload p x b) = None \<and> serving (snd (upload p x b))"

locale serving_queue = job_queue insert_tx complete_tx pending
  for insert_tx :: "WriteAheadLog list \<Rightarrow> 'q \<Rightarrow> 'q result" and complete_tx and pending +
  assumes insert_serves: "\<exists>q'. insert_tx ws q = Inr q'"
    and complete_serves: "i \<in> fst ` set (pending q) \<Longrightarrow> \<exists>q'. complete_tx i q = Inr q'"

definition mem_serving :: "mem_bucket \<Rightarrow> bool" where
  "mem_serving b \<longleftrightarrow> script b = []"

interpretation mem_serves: serving_store mem_upload mem_fetch mem_contents mem_serving
  by unfold_locales (simp_all add: mem_serving_def mem_upload_def mem_fetch_def mem_contents_def)

interpretation river_serves: serving_queue queue_insert queue_complete queue_pending
  by unfold_locales (simp_all add: queue_insert_def queue_complete_def)

section \<open>The size of a merge\<close>

lemma map_snd_update: "set (map snd (AList.update k v al)) \<subseteq> insert v (set (map snd al))"
  by (induction al) auto

lemma kept_members: "set (map snd (kept merged rs)) \<subseteq> set (map snd merged) \<union> set rs"
proof (induction rs arbitrary: merged)
  case (Cons r rs)
  have "set (map snd (fst (keep_first merged r))) \<subseteq> insert r (set (map snd merged))"
    using map_snd_update [of "Key r" r merged] by (auto simp: keep_first_def)
  moreover have "kept merged (r # rs) = kept (fst (keep_first merged r)) rs" by (simp add: kept_def)
  ultimately show ?case using Cons.IH [of "fst (keep_first merged r)"] by (auto simp del: set_map)
qed (simp add: kept_def)

lemma merge_objects_members:
  assumes "list_all2 (\<lambda>obj t. table_of obj = Some t) objs ts"
  shows "set (map snd (fst (merge_objects objs merged))) \<subseteq> set (map snd merged) \<union> set (concat ts)"
  using assms
proof (induction objs ts arbitrary: merged rule: list_all2_induct)
  case (Cons obj objs t ts)
  have "merge_objects (obj # objs) merged = merge_objects objs (kept merged t)"
    using table_of_SomeD [OF Cons.hyps(1)] by (simp add: Records_keep_first)
  then show ?case using Cons.IH [of "kept merged t"] kept_members [of merged t] by auto
qed simp

lemma sum_list_distinct_le:
  fixes f :: "'a \<Rightarrow> nat"
  assumes "distinct xs" and "set xs \<subseteq> set ys"
  shows "sum_list (map f xs) \<le> sum_list (map f ys)"
proof -
  have "mset xs \<subseteq># mset ys"
  proof (rule mset_subset_eqI)
    fix x
    show "count (mset xs) x \<le> count (mset ys) x"
      using assms distinct_count_atmost_1 [of xs] by (cases "x \<in> set xs") (auto simp: Suc_le_eq)
  qed
  then obtain zs where "mset ys = mset xs + zs" by (metis mset_subset_eq_exists_conv)
  then have "sum_mset (image_mset f (mset ys)) = sum_mset (image_mset f (mset xs)) + sum_mset (image_mset f zs)"
    by simp
  then show ?thesis by (simp flip: sum_mset_sum_list)
qed

lemma length_WriteRecords_le:
  assumes "distinct rs" and "set rs \<subseteq> set rs'"
  shows "length (WriteRecords rs) \<le> length (WriteRecords rs')"
  using sum_list_distinct_le [OF assms, of "\<lambda>r. length (write_record r)"]
  by (simp add: WriteRecords_concat length_concat comp_def)

section \<open>One job\<close>

text \<open>Logs whose objects can be read, and whose tables fit a file.\<close>

definition readable :: "('b \<Rightarrow> string \<Rightarrow> bytes option) \<Rightarrow> 'b \<Rightarrow> WriteAheadLog list \<Rightarrow> bool" where
  "readable contents b ws \<longleftrightarrow>
     list_all (\<lambda>w. 0 \<le> SizeBytes (Attrs w) \<and> stored_table contents b (Path (Attrs w)) \<noteq> None) ws \<and>
     length (WriteRecords (concat (at_paths (stored_table contents b) (wal_paths ws)))) < 2 ^ 63"

lemma length_tables_perm:
  assumes "mset xs = mset ys"
  shows "length (WriteRecords (concat (at_paths T (wal_paths xs)))) =
    length (WriteRecords (concat (at_paths T (wal_paths ys))))"
proof -
  let ?f = "\<lambda>w. length (concat (map write_record (the (T (Path (Attrs w))))))"
  have "length (WriteRecords (concat (at_paths T (wal_paths ws)))) =
      length (append_uvarint currentVersion) + sum_list (map ?f ws)" for ws
    by (induction ws) (simp_all add: WriteRecords_concat wal_paths_def)
  moreover have "sum_list (map ?f xs) = sum_list (map ?f ys)"
    using arg_cong [OF assms, of "\<lambda>m. sum_mset (image_mset ?f m)"] by (simp flip: sum_mset_sum_list)
  ultimately show ?thesis by simp
qed

lemma readable_sub:
  assumes "readable contents b (xs @ ys @ zs)"
  shows "readable contents b ys"
  using assms by (simp add: readable_def wal_paths_def WriteRecords_concat)

lemma readable_states:
  "(\<And>w. Attrs (g w) = Attrs w) \<Longrightarrow> readable contents b (map g ws) \<longleftrightarrow> readable contents b ws"
  by (simp add: readable_def list_all_iff wal_paths_def comp_def)

lemma readable_later:
  assumes "readable contents b ws"
    and "\<forall>p \<in> set (wal_paths ws). stored_table contents b' p = stored_table contents b p"
  shows "readable contents b' ws"
proof -
  have "at_paths (stored_table contents b') (wal_paths ws) = at_paths (stored_table contents b) (wal_paths ws)"
    by (rule at_paths_agree [OF assms(2)])
  then show ?thesis using assms by (auto simp: readable_def list_all_iff wal_paths_def)
qed

lemma read_objects_serves:
  assumes "serving_store upload fetch contents serving" and "serving b"
    and "list_all (\<lambda>w. 0 \<le> SizeBytes (Attrs w) \<and> contents b (Path (Attrs w)) \<noteq> None) ws"
  shows "\<exists>xs b'. read_objects fetch ws objs b = (Inr xs, b') \<and> serving b'"
  using assms(2,3)
proof (induction ws arbitrary: objs b)
  case (Cons w ws)
  obtain x where x: "contents b (Path (Attrs w)) = Some x" using Cons.prems(2) by auto
  obtain r b1 where f: "fetch (Path (Attrs w)) b = (r, b1)" by fastforce
  have "r = Inr (Inr x)" "serving b1"
    using serving_store.fetch_serves [OF assms(1) Cons.prems(1) x] f by simp_all
  moreover have "contents b1 = contents b"
    using object_store.fetch_result [OF serving_store.axioms(1) [OF assms(1)] f] by simp
  ultimately show ?case using Cons f by simp
qed simp

lemma tables_of_objects:
  assumes "list_all2 (\<lambda>w x. contents b (Path (Attrs w)) = Some x) ws xs"
    and "\<forall>w \<in> set ws. stored_table contents b (Path (Attrs w)) \<noteq> None"
  shows "list_all2 (\<lambda>obj t. table_of obj = Some t) xs (at_paths (stored_table contents b) (wal_paths ws))"
  using assms by (induction rule: list_all2_induct) (auto simp: wal_paths_def stored_table_def)

lemma compact_objects_serves:
  assumes st: "serving_store upload fetch contents serving" and b: "serving b"
    and srtW: "slice_sort srtW" and srtR: "slice_sort srtR" and ws: "readable contents b (WALs (Args j))"
  shows "\<exists>b'. compact_objects srtW srtR fetch upload uuid j b = (None, b') \<and> serving b' \<and>
    small_object contents b' (run_path uuid)"
proof -
  note os = serving_store.axioms(1) [OF st]
  let ?ws = "srtW (\<lambda>a b. SeqNo a > SeqNo b) (WALs (Args j))"
  let ?T = "stored_table contents b" and ?ts = "at_paths (stored_table contents b) (wal_paths ?ws)"
  have perm: "mset ?ws = mset (WALs (Args j))" by (rule slice_sort.permutes [OF srtW])
  then have set: "set ?ws = set (WALs (Args j))" by (rule mset_eq_setD)
  have all: "list_all (\<lambda>w. 0 \<le> SizeBytes (Attrs w) \<and> contents b (Path (Attrs w)) \<noteq> None) ?ws"
    using ws by (fastforce simp: readable_def list_all_iff set stored_table_def bind_eq_Some_conv)
  obtain xs b1 where r: "read_objects fetch ?ws [] b = (Inr xs, b1)" and b1: "serving b1"
    using read_objects_serves [OF st b all] by blast
  have objs: "contents b1 = contents b" "list_all2 (\<lambda>w x. contents b (Path (Attrs w)) = Some x) ?ws xs"
    using read_objects_ok [OF os r] by auto
  have "\<forall>w \<in> set ?ws. stored_table contents b (Path (Attrs w)) \<noteq> None"
    using ws by (auto simp: readable_def list_all_iff set)
  note ts = tables_of_objects [OF objs(2) this]
  obtain m where m: "merge_objects xs [] = (m, Returned)" "keyed m"
    using merge_objects_newest [OF ts, of "[]"] by (auto simp: keyed_def)
  let ?recs = "merged_records srtR m"
  have "distinct (map Key ?recs)" using merged_records_ok [OF srtR m(2)] by (simp add: strict_sorted_iff)
  moreover have "set ?recs \<subseteq> set (concat ?ts)"
    using merge_objects_members [OF ts, of "[]"] m(1)
    by (simp add: merged_records_def slice_sort.set_srt [OF srtR])
  moreover have "length (WriteRecords (concat ?ts)) < 2 ^ 63"
    using ws length_tables_perm [OF perm] by (simp add: readable_def)
  ultimately have len: "length (WriteRecords ?recs) < 2 ^ 63"
    using length_WriteRecords_le [of ?recs "concat ?ts"] by (auto simp: distinct_map)
  obtain r b' where up: "upload (run_path uuid) (WriteRecords ?recs) b1 = (r, b')" by fastforce
  then have "r = None" "serving b'" using serving_store.upload_serves [OF st b1 len, of "run_path uuid"] by simp_all
  then show ?thesis
    using r m up object_store.upload_stored [OF os] len
    by (fastforce simp: compact_objects_def small_object_def)
qed

locale serving_cluster =
  cluster_world upload fetch contents insert_tx complete_tx pending srtW srtR ocfg +
  serving_store upload fetch contents serving + serving_queue insert_tx complete_tx pending
  for upload :: "'b upload_fun" and fetch and contents and insert_tx :: "WriteAheadLog list \<Rightarrow> 'q \<Rightarrow> 'q result"
    and complete_tx and pending and srtW and srtR and ocfg and serving
begin

lemma first_job_done:
  assumes inv: "cluster_inv srtR contents pending c" and job: "pending (cl_queue c) = (i, ws) # js"
    and b: "serving (cl_store c)" and ws: "readable contents (cl_store c) ws"
  shows "\<exists>c'. (cluster_step srtW srtR fetch upload contents insert_tx complete_tx pending bcfg ocfg)\<^sup>*\<^sup>* c c' \<and>
    serving (cl_store c') \<and> pending (cl_queue c') = js \<and> cl_batches c' = cl_batches c \<and>
    write_ahead_logs (cl_db c) = map mark_row ws @ write_ahead_logs (cl_db c')"
proof -
  let ?step = "cluster_step srtW srtR fetch upload contents insert_tx complete_tx pending bcfg ocfg"
  let ?s = "cl_server c" and ?ns = "map SeqNo (srtW (\<lambda>a b. SeqNo a > SeqNo b) ws)"
  have rows: "rows_inv (cl_db c) (pending (cl_queue c))" by (rule inv_history(2) [OF inv])
  obtain uuid where fresh: "uuid \<notin> set (uuids ?s)"
    using ex_new_if_finite [OF infinite_UNIV_listI finite_set] by blast
  obtain b' where b': "compact_objects srtW srtR fetch upload uuid \<lparr>JobID = i, Args = \<lparr>WALs = ws\<rparr>\<rparr>
      (cl_store c) = (None, b')" "serving b'" "small_object contents b' (run_path uuid)"
    using compact_objects_serves [OF serving_store_axioms b sortW.slice_sort_axioms
        sortR.slice_sort_axioms, of "\<lparr>JobID = i, Args = \<lparr>WALs = ws\<rparr>\<rparr>" uuid] ws by auto
  define c1 where "c1 = cl_merge srtW srtR fetch upload uuid i ws c"
  have c1: "c1 = c\<lparr>cl_server := ?s\<lparr>store := b', uuids := uuid # uuids ?s\<rparr>,
      cl_merges := (uuid, i, ws) # cl_merges c\<rparr>"
    by (simp add: c1_def cl_merge_def b'(1))
  have s1: "?step c c1"
    by (rule cluster_step.merged [OF _ fresh c1_def]) (simp_all add: job c1 b'(3))
  obtain q' where q': "complete_tx i (cl_queue c) = Inr q'"
    using complete_serves [of i "cl_queue c"] job by auto
  let ?d = "compacted (run_path uuid) ?ns (cl_db c)"
  define c2 where "c2 = cl_commit srtW complete_tx no_faults (uuid, i, ws) c1"
  have d1: "cl_db c1 = cl_db c" "cl_queue c1 = cl_queue c" by (simp_all add: c1)
  have "compaction_tx complete_tx no_faults i (run_path uuid) ?ns (cl_db c, cl_queue c) = (None, (?d, q'))"
    using q' by (simp add: compaction_tx_def no_faults_def commit_def compacted_def split_beta)
  then have c2: "c2 = c1\<lparr>cl_server := set_db ?d (cl_server c1), cl_queue := q',
      cl_merges := remove1 (uuid, i, ws) (cl_merges c1)\<rparr>"
    by (simp only: c2_def cl_commit_def d1 prod.case)
  have s2: "?step c1 c2" unfolding c2_def by (rule cluster_step.committed) (simp_all add: c1 job)
  have "mset ?ns = mset (map SeqNo ws)" by (simp add: sortW.permutes)
  note com = rows_inv_commit [OF job_queue_axioms rows job q' this refl, of "run_path uuid"]
  have "i \<notin> fst ` set js" using rows by (auto simp: rows_inv_def job)
  then have "pending q' = js" using complete_pending [OF q'] by (auto simp: job filter_id_conv rev_image_eqI)
  then show ?thesis
    using s1 s2 com(2) b'(2) by (intro exI [of _ c2]) (auto simp: c2 c1)
qed

lemma logs_stay_readable:
  assumes "cluster_inv srtR contents pending c" and "later contents c c'"
    and "readable contents (cl_store c) ws" and "set (wal_paths ws) \<subseteq> set (wal_paths (write_ahead_logs (cl_db c)))"
  shows "readable contents (cl_store c') ws"
  using assms(3)
proof (rule readable_later)
  have "p \<in> used (uuids (cl_server c))" if "p \<in> set (wal_paths ws)" for p
    using assms(1,4) that log_paths_refs [of "cl_db c"]
    by (auto simp: cluster_inv_def Let_def objects_inv_def)
  then show "\<forall>p \<in> set (wal_paths ws). stored_table contents (cl_store c') p = stored_table contents (cl_store c) p"
    using assms(2) by (simp add: later_def)
qed

lemma pending_jobs_done:
  assumes "cluster_inv srtR contents pending c" and "pending (cl_queue c) = js" and "serving (cl_store c)"
    and "readable contents (cl_store c) (write_ahead_logs (cl_db c))"
  shows "\<exists>c'. (cluster_step srtW srtR fetch upload contents insert_tx complete_tx pending bcfg ocfg)\<^sup>*\<^sup>* c c' \<and>
    serving (cl_store c') \<and> pending (cl_queue c') = [] \<and> cl_batches c' = cl_batches c \<and>
    write_ahead_logs (cl_db c) = map mark_row (concat (map snd js)) @ write_ahead_logs (cl_db c')"
  using assms
proof (induction js arbitrary: c)
  case Nil
  then show ?case by (intro exI [of _ c]) simp
next
  case (Cons j js)
  obtain i ws where j: "j = (i, ws)" by fastforce
  obtain news where logs: "write_ahead_logs (cl_db c) = map mark_row ws @ news"
    using inv_history(2) [OF Cons.prems(1)] Cons.prems(2) by (auto simp: rows_inv_def j)
  have "readable contents (cl_store c) ws" "readable contents (cl_store c) news"
    using readable_sub [of contents "cl_store c" "[]" "map mark_row ws" news]
      readable_sub [of contents "cl_store c" "map mark_row ws" news "[]"] Cons.prems(4)
    by (simp_all add: logs readable_states [of mark_row])
  note r = this
  obtain c1 where c1: "(cluster_step srtW srtR fetch upload contents insert_tx complete_tx pending bcfg ocfg)\<^sup>*\<^sup>* c c1"
    "serving (cl_store c1)" "pending (cl_queue c1) = js" "cl_batches c1 = cl_batches c"
    "write_ahead_logs (cl_db c) = map mark_row ws @ write_ahead_logs (cl_db c1)"
    using first_job_done [OF Cons.prems(1) Cons.prems(2) [unfolded j] Cons.prems(3) r(1)] by blast
  have inv: "cluster_inv srtR contents pending c1" "later contents c c1"
    using run_keeps_inv [OF c1(1) Cons.prems(1)] by simp_all
  have news: "news = write_ahead_logs (cl_db c1)" using logs c1(5) by simp
  have "readable contents (cl_store c1) (write_ahead_logs (cl_db c1))"
    by (rule logs_stay_readable [OF Cons.prems(1) inv(2)]) (use r(2) c1(5) in \<open>auto simp: news wal_paths_def\<close>)
  from Cons.IH [OF inv(1) c1(3,2) this] obtain c' where
    "(cluster_step srtW srtR fetch upload contents insert_tx complete_tx pending bcfg ocfg)\<^sup>*\<^sup>* c1 c'"
    "serving (cl_store c')" "pending (cl_queue c') = []" "cl_batches c' = cl_batches c1"
    "write_ahead_logs (cl_db c1) = map mark_row (concat (map snd js)) @ write_ahead_logs (cl_db c')"
    by blast
  then show ?case using c1 by (intro exI [of _ c']) (auto simp: j)
qed

lemma schedule_rest:
  assumes inv: "cluster_inv srtR contents pending c" and q: "pending (cl_queue c) = []"
    and n: "MinWALsToCompact ocfg \<le> int (length (write_ahead_logs (cl_db c)))"
  shows "\<exists>c' i. cluster_step srtW srtR fetch upload contents insert_tx complete_tx pending bcfg ocfg c c' \<and>
    cl_store c' = cl_store c \<and> cl_batches c' = cl_batches c \<and>
    pending (cl_queue c') = [(i, write_ahead_logs (cl_db c))] \<and>
    (\<exists>g. write_ahead_logs (cl_db c') = map g (write_ahead_logs (cl_db c)) \<and> (\<forall>w. Attrs (g w) = Attrs w))"
proof -
  let ?ws = "write_ahead_logs (cl_db c)"
  have rows: "rows_inv (cl_db c) (pending (cl_queue c))" by (rule inv_history(2) [OF inv])
  have news: "GetWriteAheadLogsToCompact (cl_db c) = ?ws"
    using rows_inv_news [OF rows [unfolded q]] by force
  then have ws: "?ws = take (length ?ws) (GetWriteAheadLogsToCompact (cl_db c))" by simp
  obtain q' where q': "insert_tx ?ws (cl_queue c) = Inr q'" using insert_serves by blast
  let ?d = "snd (MarkWriteAheadLogsAsCompacting (map SeqNo ?ws) (cl_db c))"
  let ?c = "cl_schedule ocfg insert_tx no_faults ?ws c"
  have m: "maybeCompactWAL ocfg insert_tx no_faults ?ws (cl_db c, cl_queue c) = (None, (?d, q'))"
    using n q' by (rule maybeCompactWAL_no_faults)
  have c': "?c = c\<lparr>cl_server := set_db ?d (cl_server c), cl_queue := q'\<rparr>"
    by (simp only: cl_schedule_def m prod.case)
  obtain i where i: "pending q' = [(i, ?ws)]" using insert_pending [OF q'] q by auto
  obtain g where "?d = (cl_db c)\<lparr>write_ahead_logs := map g ?ws\<rparr>" "\<And>w. Attrs (g w) = Attrs w"
    using rows_inv_schedule [OF job_queue_axioms rows enough_logs ws m] by blast
  moreover have "cluster_step srtW srtR fetch upload contents insert_tx complete_tx pending bcfg ocfg c ?c"
    by (rule cluster_step.scheduled [OF ws])
  ultimately show ?thesis using i
    by (intro exI [of _ ?c] exI [of _ i]) (auto simp: c' intro!: exI [of _ g])
qed

lemma compaction_catches_up:
  assumes inv: "cluster_inv srtR contents pending c" and b: "serving (cl_store c)"
    and r: "readable contents (cl_store c) (write_ahead_logs (cl_db c))"
  shows "\<exists>c'. (cluster_step srtW srtR fetch upload contents insert_tx complete_tx pending bcfg ocfg)\<^sup>*\<^sup>* c c' \<and>
    pending (cl_queue c') = [] \<and> cl_batches c' = cl_batches c \<and>
    int (length (write_ahead_logs (cl_db c'))) < MinWALsToCompact ocfg"
proof -
  let ?run = "(cluster_step srtW srtR fetch upload contents insert_tx complete_tx pending bcfg ocfg)\<^sup>*\<^sup>*"
  obtain c1 where c1: "?run c c1" "serving (cl_store c1)" "pending (cl_queue c1) = []" "cl_batches c1 = cl_batches c"
    "write_ahead_logs (cl_db c) =
      map mark_row (concat (map snd (pending (cl_queue c)))) @ write_ahead_logs (cl_db c1)"
    using pending_jobs_done [OF inv refl b r] by blast
  show ?thesis
  proof (cases "MinWALsToCompact ocfg \<le> int (length (write_ahead_logs (cl_db c1)))")
    case False
    then show ?thesis using c1 by (intro exI [of _ c1]) simp
  next
    case True
    have inv1: "cluster_inv srtR contents pending c1" "later contents c c1"
      using run_keeps_inv [OF c1(1) inv] by simp_all
    obtain c2 i g where c2: "cluster_step srtW srtR fetch upload contents insert_tx complete_tx pending bcfg ocfg c1 c2"
      "cl_store c2 = cl_store c1" "cl_batches c2 = cl_batches c1"
      "pending (cl_queue c2) = [(i, write_ahead_logs (cl_db c1))]"
      "write_ahead_logs (cl_db c2) = map g (write_ahead_logs (cl_db c1))" "\<And>w. Attrs (g w) = Attrs w"
      using schedule_rest [OF inv1(1) c1(3) True] by blast
    have inv2: "cluster_inv srtR contents pending c2" using step_keeps_inv [OF inv1(1) c2(1)] by simp
    have "readable contents (cl_store c) (write_ahead_logs (cl_db c1))"
      using readable_sub [of contents _ "map mark_row (concat (map snd (pending (cl_queue c))))" _ "[]"] r
      by (simp add: c1(5))
    then have "readable contents (cl_store c1) (write_ahead_logs (cl_db c1))"
      by (rule logs_stay_readable [OF inv inv1(2)]) (simp add: c1(5) wal_paths_def)
    then have "readable contents (cl_store c2) (write_ahead_logs (cl_db c2))"
      by (simp add: c2(2,5) readable_states [of g] c2(6))
    from pending_jobs_done [OF inv2 c2(4) _ this] obtain c3 where c3: "?run c2 c3" "pending (cl_queue c3) = []"
      "cl_batches c3 = cl_batches c2" "write_ahead_logs (cl_db c2) =
        map mark_row (write_ahead_logs (cl_db c1)) @ write_ahead_logs (cl_db c3)"
      using c1(2) c2(2) by auto
    have "length (write_ahead_logs (cl_db c3)) = 0"
      using arg_cong [OF c3(4), of length] by (simp add: c2(5))
    then have "int (length (write_ahead_logs (cl_db c3))) < MinWALsToCompact ocfg"
      using enough_logs by simp
    then show ?thesis
      using c1 c2(1,3) c3(1-3) by (intro exI [of _ c3]) (auto intro: rtranclp_trans converse_rtranclp_into_rtranclp)
  qed
qed

end

interpretation demo_serves: serving_cluster mem_upload mem_fetch mem_contents queue_insert queue_complete
  queue_pending insertion_sort insertion_sort one_log_config mem_serving
  by unfold_locales

section \<open>Properties\<close>



end
