(* ===== verification/Messages.thy ===== *)
theory Messages
  imports BatchLoop Orchestrator
begin

text \<open>
  The JSON methods of the generated messages (\<^verbatim>\<open>gen/proto/*/v1/*.pb.json.go\<close>) and where the program
  uses them: the database keeps the attributes of a row as a JSON document (\<^verbatim>\<open>internal/database/*.sql.go\<close>,
  columns of type \<^verbatim>\<open>JSONB\<close>), written with \<^verbatim>\<open>MarshalJSON\<close> and read back with \<^verbatim>\<open>UnmarshalJSON\<close>.
  \<^verbatim>\<open>protojson\<close> and the column are parameters; what the code relies on of them is the locale
  \<open>json_column\<close>: what was written and accepted is read back.

  The lemmas: tables of documents implement the tables of the theory Database, statement by
  statement; they satisfy the batcher's contract; and since a JSON string with a NUL character is no
  \<^verbatim>\<open>JSONB\<close>, one key with a NUL at the end of a batch fails all of its requests.
\<close>

section \<open>Messages\<close>

datatype common_message = WALMessage WALAttrs | RunMessage RunAttrs | PartitionMessage PartitionAttrs

datatype batcher_message = BatchWriteRequestMessage BatchWriteRequest | WriteRequestMessage WriteRequest
  | BatchWriteResponseMessage

datatype cache_message = GetRequestMessage GetRequest | GetResponseMessage GetResponse

datatype index_message = BatchGetRequestMessage "string list"
  | BatchGetResponseMessage "(string \<times> bytes) list"

datatype orchestrator_message = ListWriteAheadLogsRequestMessage
  | ListWriteAheadLogsResponseMessage "ListedLog list" | ListedLogMessage ListedLog

datatype message = CommonMessage common_message | BatcherMessage batcher_message | CacheMessage cache_message
  | IndexMessage index_message | OrchestratorMessage orchestrator_message

text \<open>The full names of the messages, by which \<^verbatim>\<open>protojson\<close> tells their types.\<close>

fun full_name :: "message \<Rightarrow> string" where
  "full_name (CommonMessage (WALMessage _)) = ''common.v1.WriteAheadLog''"
| "full_name (CommonMessage (RunMessage _)) = ''common.v1.Run''"
| "full_name (CommonMessage (PartitionMessage _)) = ''common.v1.Partition''"
| "full_name (BatcherMessage (BatchWriteRequestMessage _)) = ''batcher.v1.BatchWriteRequest''"
| "full_name (BatcherMessage (WriteRequestMessage _)) = ''batcher.v1.WriteRequest''"
| "full_name (BatcherMessage BatchWriteResponseMessage) = ''batcher.v1.BatchWriteResponse''"
| "full_name (CacheMessage (GetRequestMessage _)) = ''cache.v1.GetRequest''"
| "full_name (CacheMessage (GetResponseMessage _)) = ''cache.v1.GetResponse''"
| "full_name (IndexMessage (BatchGetRequestMessage _)) = ''index.v1.BatchGetRequest''"
| "full_name (IndexMessage (BatchGetResponseMessage _)) = ''index.v1.BatchGetResponse''"
| "full_name (OrchestratorMessage ListWriteAheadLogsRequestMessage) = ''orchestrator.v1.ListWriteAheadLogsRequest''"
| "full_name (OrchestratorMessage (ListWriteAheadLogsResponseMessage _)) =
     ''orchestrator.v1.ListWriteAheadLogsResponse''"
| "full_name (OrchestratorMessage (ListedLogMessage _)) = ''orchestrator.v1.WriteAheadLog''"

text \<open>
  \<^verbatim>\<open>protojson.MarshalOptions{}.Marshal\<close> and \<^verbatim>\<open>protojson.UnmarshalOptions{}.Unmarshal\<close>: the latter
  fills in its receiver, which tells the type and is reset first.
\<close>

type_synonym marshaler = "message \<Rightarrow> bytes result"
type_synonym unmarshaler = "bytes \<Rightarrow> message \<Rightarrow> go_error option \<times> message"

fun common_MarshalJSON :: "marshaler \<Rightarrow> common_message \<Rightarrow> bytes result" where
  "common_MarshalJSON marshal (WALMessage msg) = marshal (CommonMessage (WALMessage msg))"
| "common_MarshalJSON marshal (RunMessage msg) = marshal (CommonMessage (RunMessage msg))"
| "common_MarshalJSON marshal (PartitionMessage msg) = marshal (CommonMessage (PartitionMessage msg))"

fun common_UnmarshalJSON :: "unmarshaler \<Rightarrow> common_message \<Rightarrow> bytes \<Rightarrow> go_error option \<times> message" where
  "common_UnmarshalJSON unmarshal (WALMessage msg) b = unmarshal b (CommonMessage (WALMessage msg))"
| "common_UnmarshalJSON unmarshal (RunMessage msg) b = unmarshal b (CommonMessage (RunMessage msg))"
| "common_UnmarshalJSON unmarshal (PartitionMessage msg) b = unmarshal b (CommonMessage (PartitionMessage msg))"

fun batcher_MarshalJSON :: "marshaler \<Rightarrow> batcher_message \<Rightarrow> bytes result" where
  "batcher_MarshalJSON marshal (BatchWriteRequestMessage msg) = marshal (BatcherMessage (BatchWriteRequestMessage msg))"
| "batcher_MarshalJSON marshal (WriteRequestMessage msg) = marshal (BatcherMessage (WriteRequestMessage msg))"
| "batcher_MarshalJSON marshal BatchWriteResponseMessage = marshal (BatcherMessage BatchWriteResponseMessage)"

fun batcher_UnmarshalJSON :: "unmarshaler \<Rightarrow> batcher_message \<Rightarrow> bytes \<Rightarrow> go_error option \<times> message" where
  "batcher_UnmarshalJSON unmarshal (BatchWriteRequestMessage msg) b =
     unmarshal b (BatcherMessage (BatchWriteRequestMessage msg))"
| "batcher_UnmarshalJSON unmarshal (WriteRequestMessage msg) b = unmarshal b (BatcherMessage (WriteRequestMessage msg))"
| "batcher_UnmarshalJSON unmarshal BatchWriteResponseMessage b = unmarshal b (BatcherMessage BatchWriteResponseMessage)"

fun cache_MarshalJSON :: "marshaler \<Rightarrow> cache_message \<Rightarrow> bytes result" where
  "cache_MarshalJSON marshal (GetRequestMessage msg) = marshal (CacheMessage (GetRequestMessage msg))"
| "cache_MarshalJSON marshal (GetResponseMessage msg) = marshal (CacheMessage (GetResponseMessage msg))"

fun cache_UnmarshalJSON :: "unmarshaler \<Rightarrow> cache_message \<Rightarrow> bytes \<Rightarrow> go_error option \<times> message" where
  "cache_UnmarshalJSON unmarshal (GetRequestMessage msg) b = unmarshal b (CacheMessage (GetRequestMessage msg))"
| "cache_UnmarshalJSON unmarshal (GetResponseMessage msg) b = unmarshal b (CacheMessage (GetResponseMessage msg))"

fun index_MarshalJSON :: "marshaler \<Rightarrow> index_message \<Rightarrow> bytes result" where
  "index_MarshalJSON marshal (BatchGetRequestMessage msg) = marshal (IndexMessage (BatchGetRequestMessage msg))"
| "index_MarshalJSON marshal (BatchGetResponseMessage msg) = marshal (IndexMessage (BatchGetResponseMessage msg))"

fun index_UnmarshalJSON :: "unmarshaler \<Rightarrow> index_message \<Rightarrow> bytes \<Rightarrow> go_error option \<times> message" where
  "index_UnmarshalJSON unmarshal (BatchGetRequestMessage msg) b = unmarshal b (IndexMessage (BatchGetRequestMessage msg))"
| "index_UnmarshalJSON unmarshal (BatchGetResponseMessage msg) b = unmarshal b (IndexMessage (BatchGetResponseMessage msg))"

fun orchestrator_MarshalJSON :: "marshaler \<Rightarrow> orchestrator_message \<Rightarrow> bytes result" where
  "orchestrator_MarshalJSON marshal ListWriteAheadLogsRequestMessage =
     marshal (OrchestratorMessage ListWriteAheadLogsRequestMessage)"
| "orchestrator_MarshalJSON marshal (ListWriteAheadLogsResponseMessage msg) =
     marshal (OrchestratorMessage (ListWriteAheadLogsResponseMessage msg))"
| "orchestrator_MarshalJSON marshal (ListedLogMessage msg) = marshal (OrchestratorMessage (ListedLogMessage msg))"

fun orchestrator_UnmarshalJSON ::
  "unmarshaler \<Rightarrow> orchestrator_message \<Rightarrow> bytes \<Rightarrow> go_error option \<times> message"
where
  "orchestrator_UnmarshalJSON unmarshal ListWriteAheadLogsRequestMessage b =
     unmarshal b (OrchestratorMessage ListWriteAheadLogsRequestMessage)"
| "orchestrator_UnmarshalJSON unmarshal (ListWriteAheadLogsResponseMessage msg) b =
     unmarshal b (OrchestratorMessage (ListWriteAheadLogsResponseMessage msg))"
| "orchestrator_UnmarshalJSON unmarshal (ListedLogMessage msg) b =
     unmarshal b (OrchestratorMessage (ListedLogMessage msg))"

text \<open>\<^verbatim>\<open>json.Marshal\<close> and \<^verbatim>\<open>json.Unmarshal\<close>, which call the method of the message.\<close>

fun MarshalJSON :: "marshaler \<Rightarrow> message \<Rightarrow> bytes result" where
  "MarshalJSON marshal (CommonMessage msg) = common_MarshalJSON marshal msg"
| "MarshalJSON marshal (BatcherMessage msg) = batcher_MarshalJSON marshal msg"
| "MarshalJSON marshal (CacheMessage msg) = cache_MarshalJSON marshal msg"
| "MarshalJSON marshal (IndexMessage msg) = index_MarshalJSON marshal msg"
| "MarshalJSON marshal (OrchestratorMessage msg) = orchestrator_MarshalJSON marshal msg"

fun UnmarshalJSON :: "unmarshaler \<Rightarrow> bytes \<Rightarrow> message \<Rightarrow> go_error option \<times> message" where
  "UnmarshalJSON unmarshal b (CommonMessage msg) = common_UnmarshalJSON unmarshal msg b"
| "UnmarshalJSON unmarshal b (BatcherMessage msg) = batcher_UnmarshalJSON unmarshal msg b"
| "UnmarshalJSON unmarshal b (CacheMessage msg) = cache_UnmarshalJSON unmarshal msg b"
| "UnmarshalJSON unmarshal b (IndexMessage msg) = index_UnmarshalJSON unmarshal msg b"
| "UnmarshalJSON unmarshal b (OrchestratorMessage msg) = orchestrator_UnmarshalJSON unmarshal msg b"

lemma common_json: "common_MarshalJSON marshal m = marshal (CommonMessage m)"
  "common_UnmarshalJSON unmarshal m b = unmarshal b (CommonMessage m)"
  by (cases m; simp)+

lemma batcher_json: "batcher_MarshalJSON marshal m1 = marshal (BatcherMessage m1)"
  "batcher_UnmarshalJSON unmarshal m1 b = unmarshal b (BatcherMessage m1)"
  by (cases m1; simp)+

lemma cache_json: "cache_MarshalJSON marshal m2 = marshal (CacheMessage m2)"
  "cache_UnmarshalJSON unmarshal m2 b = unmarshal b (CacheMessage m2)"
  by (cases m2; simp)+

lemma index_json: "index_MarshalJSON marshal m3 = marshal (IndexMessage m3)"
  "index_UnmarshalJSON unmarshal m3 b = unmarshal b (IndexMessage m3)"
  by (cases m3; simp)+

lemma orchestrator_json: "orchestrator_MarshalJSON marshal m4 = marshal (OrchestratorMessage m4)"
  "orchestrator_UnmarshalJSON unmarshal m4 b = unmarshal b (OrchestratorMessage m4)"
  by (cases m4; simp)+

lemmas messages_json = common_json batcher_json cache_json index_json orchestrator_json

text \<open>Every message goes to \<^verbatim>\<open>protojson\<close> as it is, under its own type.\<close>

lemma MarshalJSON_eq: "MarshalJSON marshal m = marshal m"
  by (cases m) (simp_all add: messages_json)

lemma UnmarshalJSON_eq: "UnmarshalJSON unmarshal b m = unmarshal b m"
  by (cases m) (simp_all add: messages_json)

section \<open>Documents\<close>

text \<open>
  The tables as the database has them: a row of the logs is its number, its state and a document, of
  the runs a number and a document, of the partitions a key and a document. The column takes a
  document or refuses it, and may give it back in another layout (\<open>jsonb\<close>).
\<close>

type_synonym column = "bytes \<Rightarrow> bytes result"

record doc_db =
  doc_logs :: "(int \<times> string \<times> bytes) list"
  doc_wal_seq :: int
  doc_runs :: "(int \<times> bytes) list"
  doc_run_seq :: int
  doc_partitions :: "(string \<times> bytes) list"

definition write_document :: "marshaler \<Rightarrow> column \<Rightarrow> message \<Rightarrow> bytes result" where
  "write_document marshal jsonb m =
     (case MarshalJSON marshal m of Inl e \<Rightarrow> Inl e | Inr doc \<Rightarrow> jsonb doc)"

definition doc_AddWriteAheadLog ::
  "marshaler \<Rightarrow> column \<Rightarrow> WALAttrs \<Rightarrow> doc_db \<Rightarrow> go_error option \<times> doc_db"
where
  "doc_AddWriteAheadLog marshal jsonb attrs d =
     (case write_document marshal jsonb (CommonMessage (WALMessage attrs)) of
        Inl e \<Rightarrow> (Some e, d)
      | Inr doc \<Rightarrow>
          (None, d\<lparr>doc_logs := doc_logs d @ [(doc_wal_seq d, ''NEW'', doc)],
                   doc_wal_seq := doc_wal_seq d + 1\<rparr>))"

definition doc_AddSharedRun ::
  "marshaler \<Rightarrow> column \<Rightarrow> RunAttrs \<Rightarrow> doc_db \<Rightarrow> go_error option \<times> doc_db"
where
  "doc_AddSharedRun marshal jsonb attrs d =
     (case write_document marshal jsonb (CommonMessage (RunMessage attrs)) of
        Inl e \<Rightarrow> (Some e, d)
      | Inr doc \<Rightarrow>
          (None, d\<lparr>doc_runs := doc_runs d @ [(doc_run_seq d, doc)], doc_run_seq := doc_run_seq d + 1\<rparr>))"

fun in_state :: "int list \<Rightarrow> string \<Rightarrow> int \<times> string \<times> bytes \<Rightarrow> bool" where
  "in_state seq_nos st (n, st', doc) = (n \<in> set seq_nos \<and> st' = st)"

fun set_state :: "string \<Rightarrow> int \<times> string \<times> bytes \<Rightarrow> int \<times> string \<times> bytes" where
  "set_state st (n, st', doc) = (n, st, doc)"

definition doc_MarkWriteAheadLogsAsCompacting :: "int list \<Rightarrow> doc_db \<Rightarrow> bool \<times> doc_db" where
  "doc_MarkWriteAheadLogsAsCompacting seq_nos d =
     (let matches = in_state seq_nos ''NEW'';
          rows = filter matches (doc_logs d);
          valid = all_exist rows seq_nos = Some True;
          updated = (if valid then rows else [])
      in (valid \<and> updated \<noteq> [],
          d\<lparr>doc_logs :=
               map (\<lambda>r. if valid \<and> matches r then set_state ''COMPACTING'' r else r) (doc_logs d)\<rparr>))"

definition doc_DeleteWriteAheadLogs :: "int list \<Rightarrow> doc_db \<Rightarrow> bool \<times> doc_db" where
  "doc_DeleteWriteAheadLogs seq_nos d =
     (let matches = in_state seq_nos ''COMPACTING'';
          rows = filter matches (doc_logs d);
          valid = all_exist rows seq_nos = Some True;
          deleted = (if valid then rows else [])
      in (valid \<and> deleted \<noteq> [],
          d\<lparr>doc_logs := filter (\<lambda>r. \<not> (valid \<and> matches r)) (doc_logs d)\<rparr>))"

definition doc_DeleteSharedRuns :: "int list \<Rightarrow> doc_db \<Rightarrow> bool \<times> doc_db" where
  "doc_DeleteSharedRuns seq_nos d =
     (let matches = (\<lambda>r. fst r \<in> set seq_nos);
          rows = filter matches (doc_runs d);
          valid = all_exist rows seq_nos = Some True;
          deleted = (if valid then rows else [])
      in (valid \<and> deleted \<noteq> [],
          d\<lparr>doc_runs := filter (\<lambda>r. \<not> (valid \<and> matches r)) (doc_runs d)\<rparr>))"

text \<open>
  Reading: a row is scanned into a new message, and the first row that cannot be scanned ends the
  loop with its error.
\<close>

fun wal_of :: "message \<Rightarrow> WALAttrs" where
  "wal_of (CommonMessage (WALMessage a)) = a"
| "wal_of _ = \<lparr>Path = [], CreatedAt = 0, SizeBytes = 0, MinKey = [], MaxKey = []\<rparr>"

fun run_of :: "message \<Rightarrow> RunAttrs" where
  "run_of (CommonMessage (RunMessage a)) = a"
| "run_of _ = \<lparr>RunPath = []\<rparr>"

fun partition_of :: "message \<Rightarrow> PartitionAttrs" where
  "partition_of (CommonMessage (PartitionMessage a)) = a"
| "partition_of _ = \<lparr>Runs = []\<rparr>"

definition new_wal :: message where
  "new_wal = CommonMessage (WALMessage \<lparr>Path = [], CreatedAt = 0, SizeBytes = 0, MinKey = [], MaxKey = []\<rparr>)"

definition scan_log :: "unmarshaler \<Rightarrow> int \<times> string \<times> bytes \<Rightarrow> WriteAheadLog result" where
  "scan_log unmarshal row =
     (case row of (n, st, doc) \<Rightarrow>
        (case UnmarshalJSON unmarshal doc new_wal of
           (Some e, _) \<Rightarrow> Inl e
         | (None, m) \<Rightarrow> Inr \<lparr>SeqNo = n, State = st, Attrs = wal_of m\<rparr>))"

definition scan_run :: "unmarshaler \<Rightarrow> int \<times> bytes \<Rightarrow> SharedRun result" where
  "scan_run unmarshal row =
     (case row of (n, doc) \<Rightarrow>
        (case UnmarshalJSON unmarshal doc (CommonMessage (RunMessage \<lparr>RunPath = []\<rparr>)) of
           (Some e, _) \<Rightarrow> Inl e
         | (None, m) \<Rightarrow> Inr \<lparr>RunSeqNo = n, RunRowAttrs = run_of m\<rparr>))"

definition scan_partition :: "unmarshaler \<Rightarrow> string \<times> bytes \<Rightarrow> Partition result" where
  "scan_partition unmarshal row =
     (case row of (k, doc) \<Rightarrow>
        (case UnmarshalJSON unmarshal doc (CommonMessage (PartitionMessage \<lparr>Runs = []\<rparr>)) of
           (Some e, _) \<Rightarrow> Inl e
         | (None, m) \<Rightarrow> Inr \<lparr>InclusiveStartKey = k, PartitionRowAttrs = partition_of m\<rparr>))"

fun scan_rows :: "('r \<Rightarrow> 'a result) \<Rightarrow> 'a list \<Rightarrow> 'r list \<Rightarrow> 'a list result" where
  "scan_rows scan items [] = Inr items"
| "scan_rows scan items (row # rows) =
     (case scan row of
        Inl e \<Rightarrow> Inl e
      | Inr i \<Rightarrow> scan_rows scan (items @ [i]) rows)"

definition doc_GetWriteAheadLogs :: "unmarshaler \<Rightarrow> doc_db \<Rightarrow> WriteAheadLog list result" where
  "doc_GetWriteAheadLogs unmarshal d = scan_rows (scan_log unmarshal) [] (doc_logs d)"

definition doc_GetWriteAheadLogsToCompact :: "unmarshaler \<Rightarrow> doc_db \<Rightarrow> WriteAheadLog list result" where
  "doc_GetWriteAheadLogsToCompact unmarshal d =
     scan_rows (scan_log unmarshal) [] (filter (\<lambda>(n, st, doc). st = ''NEW'') (doc_logs d))"

definition doc_GetSharedRuns :: "unmarshaler \<Rightarrow> doc_db \<Rightarrow> SharedRun list result" where
  "doc_GetSharedRuns unmarshal d = scan_rows (scan_run unmarshal) [] (doc_runs d)"

definition doc_GetPartitions :: "unmarshaler \<Rightarrow> doc_db \<Rightarrow> Partition list result" where
  "doc_GetPartitions unmarshal d = scan_rows (scan_partition unmarshal) [] (doc_partitions d)"

text \<open>The statements, with their errors and answers.\<close>

fun doc_exec :: "marshaler \<Rightarrow> column \<Rightarrow> db_call \<Rightarrow> doc_db \<Rightarrow> bool result \<times> doc_db" where
  "doc_exec marshal jsonb (AddWAL a) d =
     (case doc_AddWriteAheadLog marshal jsonb a d of
        (Some e, d) \<Rightarrow> (Inl e, d) | (None, d) \<Rightarrow> (Inr True, d))"
| "doc_exec marshal jsonb (MarkWALs ns) d =
     (case doc_MarkWriteAheadLogsAsCompacting ns d of (r, d) \<Rightarrow> (Inr r, d))"
| "doc_exec marshal jsonb (DeleteWALs ns) d = (case doc_DeleteWriteAheadLogs ns d of (r, d) \<Rightarrow> (Inr r, d))"
| "doc_exec marshal jsonb (AddRun a) d =
     (case doc_AddSharedRun marshal jsonb a d of
        (Some e, d) \<Rightarrow> (Inl e, d) | (None, d) \<Rightarrow> (Inr True, d))"
| "doc_exec marshal jsonb (DeleteRuns ns) d = (case doc_DeleteSharedRuns ns d of (r, d) \<Rightarrow> (Inr r, d))"

section \<open>Refinement\<close>

text \<open>Tables of documents stand for the tables that are read from them.\<close>

definition represents :: "unmarshaler \<Rightarrow> doc_db \<Rightarrow> DB \<Rightarrow> bool" where
  "represents unmarshal d D \<longleftrightarrow>
     doc_GetWriteAheadLogs unmarshal d = Inr (write_ahead_logs D) \<and> doc_wal_seq d = wal_seq D \<and>
     doc_GetSharedRuns unmarshal d = Inr (shared_runs D) \<and> doc_run_seq d = run_seq D \<and>
     doc_GetPartitions unmarshal d = Inr (partitions D)"

fun answer :: "db_call \<Rightarrow> DB \<Rightarrow> bool" where
  "answer (MarkWALs ns) D = fst (MarkWriteAheadLogsAsCompacting ns D)"
| "answer (DeleteWALs ns) D = fst (DeleteWriteAheadLogs ns D)"
| "answer (DeleteRuns ns) D = fst (DeleteSharedRuns ns D)"
| "answer _ D = True"

definition scans :: "('r \<Rightarrow> 'a result) \<Rightarrow> 'r list \<Rightarrow> 'a list \<Rightarrow> bool" where
  "scans scan rows vs \<longleftrightarrow> list_all2 (\<lambda>r v. scan r = Inr v) rows vs"

lemma scan_rows_scans: "scan_rows scan items rows = Inr ws \<longleftrightarrow> (\<exists>vs. ws = items @ vs \<and> scans scan rows vs)"
proof (induction rows arbitrary: items)
  case (Cons r rs)
  show ?case
    by (cases "scan r") (auto simp: Cons.IH scans_def list_all2_Cons1)
qed (auto simp: scans_def)

lemma scans_filter:
  assumes "scans scan rows vs" and "\<And>r v. scan r = Inr v \<Longrightarrow> P r = Q v"
  shows "scans scan (filter P rows) (filter Q vs)"
  using assms(1) unfolding scans_def
  by (induction rule: list_all2_induct) (use assms(2) in auto)

lemma scans_map:
  assumes "scans scan rows vs" and "\<And>r v. scan r = Inr v \<Longrightarrow> scan (f r) = Inr (g v)"
  shows "scans scan (map f rows) (map g vs)"
  using assms(1) unfolding scans_def
  by (induction rule: list_all2_induct) (use assms(2) in auto)

lemma scans_snoc: "scans scan rows vs \<Longrightarrow> scan r = Inr v \<Longrightarrow> scans scan (rows @ [r]) (vs @ [v])"
  by (simp add: scans_def list_all2_appendI)

lemma scans_length: "scans scan rows vs \<Longrightarrow> length rows = length vs"
  unfolding scans_def by (rule list_all2_lengthD)

lemma represents_scans:
  "represents unmarshal d D \<longleftrightarrow>
     scans (scan_log unmarshal) (doc_logs d) (write_ahead_logs D) \<and> doc_wal_seq d = wal_seq D \<and>
     scans (scan_run unmarshal) (doc_runs d) (shared_runs D) \<and> doc_run_seq d = run_seq D \<and>
     scans (scan_partition unmarshal) (doc_partitions d) (partitions D)"
  by (simp add: represents_def doc_GetWriteAheadLogs_def doc_GetSharedRuns_def doc_GetPartitions_def
      scan_rows_scans)

lemma scan_log_fields:
  assumes "scan_log unmarshal (n, st, doc) = Inr w"
  shows "SeqNo w = n" and "State w = st"
    and "scan_log unmarshal (n, st', doc) = Inr (w\<lparr>State := st'\<rparr>)"
  using assms by (auto simp: scan_log_def split: prod.splits option.splits)

lemma scan_run_fields: "scan_run unmarshal (n, doc) = Inr r \<Longrightarrow> RunSeqNo r = n"
  by (auto simp: scan_run_def split: prod.splits option.splits)

lemma doc_GetWriteAheadLogsToCompact:
  assumes "represents unmarshal d D"
  shows "doc_GetWriteAheadLogsToCompact unmarshal d = Inr (GetWriteAheadLogsToCompact D)"
proof -
  have "scans (scan_log unmarshal) (filter (\<lambda>(n, st, doc). st = ''NEW'') (doc_logs d))
      (filter (\<lambda>w. State w = ''NEW'') (write_ahead_logs D))"
    by (rule scans_filter) (use assms scan_log_fields(2) in \<open>auto simp: represents_scans\<close>)
  then show ?thesis
    by (simp add: doc_GetWriteAheadLogsToCompact_def GetWriteAheadLogsToCompact_def scan_rows_scans)
qed

lemma scan_log_in_state:
  "scan_log unmarshal r = Inr w \<Longrightarrow> in_state ns st r \<longleftrightarrow> SeqNo w \<in> set ns \<and> State w = st"
  "scan_log unmarshal r = Inr w \<Longrightarrow> scan_log unmarshal (set_state st r) = Inr (w\<lparr>State := st\<rparr>)"
  by (cases r; auto dest: scan_log_fields(1,2) intro: scan_log_fields(3))+

text \<open>The rows that match are the same on both sides.\<close>

lemma scans_matching:
  assumes "scans scan rows vs" and "\<And>r v. scan r = Inr v \<Longrightarrow> P r = Q v"
  shows "all_exist (filter P rows) ns = all_exist (filter Q vs) ns"
    and "filter P rows = [] \<longleftrightarrow> filter Q vs = []"
proof -
  have len: "length (filter P rows) = length (filter Q vs)"
    by (rule scans_length) (rule scans_filter [OF assms])
  then show "all_exist (filter P rows) ns = all_exist (filter Q vs) ns" by (simp add: all_exist_def)
  show "filter P rows = [] \<longleftrightarrow> filter Q vs = []" using len by (metis length_0_conv)
qed

lemma doc_Mark:
  assumes "represents unmarshal d D"
  shows "fst (doc_MarkWriteAheadLogsAsCompacting ns d) = fst (MarkWriteAheadLogsAsCompacting ns D)"
    and "represents unmarshal (snd (doc_MarkWriteAheadLogsAsCompacting ns d))
      (snd (MarkWriteAheadLogsAsCompacting ns D))"
proof -
  let ?Q = "\<lambda>w. SeqNo w \<in> set ns \<and> State w = ''NEW''"
  have logs: "scans (scan_log unmarshal) (doc_logs d) (write_ahead_logs D)"
    using assms by (simp add: represents_scans)
  have key: "in_state ns ''NEW'' r \<longleftrightarrow> ?Q w" if "scan_log unmarshal r = Inr w" for r w
    using that by (rule scan_log_in_state(1))
  note m = scans_matching [where P = "in_state ns ''NEW''" and Q = ?Q, OF logs key]
  have "scans (scan_log unmarshal)
      (map (\<lambda>r. if v \<and> in_state ns ''NEW'' r then set_state ''COMPACTING'' r else r) (doc_logs d))
      (map (\<lambda>w. if v \<and> ?Q w then w\<lparr>State := ''COMPACTING''\<rparr> else w) (write_ahead_logs D))" for v
    by (rule scans_map [OF logs]) (simp add: scan_log_in_state)
  from this [of "all_exist (filter ?Q (write_ahead_logs D)) ns = Some True"]
  show "represents unmarshal (snd (doc_MarkWriteAheadLogsAsCompacting ns d))
      (snd (MarkWriteAheadLogsAsCompacting ns D))"
    using assms m(1)
    by (simp add: represents_scans doc_MarkWriteAheadLogsAsCompacting_def MarkWriteAheadLogsAsCompacting_def Let_def)
  show "fst (doc_MarkWriteAheadLogsAsCompacting ns d) = fst (MarkWriteAheadLogsAsCompacting ns D)"
    using m by (simp add: doc_MarkWriteAheadLogsAsCompacting_def MarkWriteAheadLogsAsCompacting_def Let_def)
qed

lemma doc_Delete:
  assumes "represents unmarshal d D"
  shows "fst (doc_DeleteWriteAheadLogs ns d) = fst (DeleteWriteAheadLogs ns D)"
    and "represents unmarshal (snd (doc_DeleteWriteAheadLogs ns d)) (snd (DeleteWriteAheadLogs ns D))"
proof -
  let ?Q = "\<lambda>w. SeqNo w \<in> set ns \<and> State w = ''COMPACTING''"
  have logs: "scans (scan_log unmarshal) (doc_logs d) (write_ahead_logs D)"
    using assms by (simp add: represents_scans)
  have key: "in_state ns ''COMPACTING'' r \<longleftrightarrow> ?Q w" if "scan_log unmarshal r = Inr w" for r w
    using that by (rule scan_log_in_state(1))
  note m = scans_matching [where P = "in_state ns ''COMPACTING''" and Q = ?Q, OF logs key]
  have "scans (scan_log unmarshal) (filter (\<lambda>r. \<not> (v \<and> in_state ns ''COMPACTING'' r)) (doc_logs d))
      (filter (\<lambda>w. \<not> (v \<and> ?Q w)) (write_ahead_logs D))" for v
    by (rule scans_filter [OF logs]) (simp add: scan_log_in_state)
  then have "scans (scan_log unmarshal) (filter (\<lambda>r. \<not> (all_exist (filter ?Q (write_ahead_logs D)) ns = Some True \<and>
      in_state ns ''COMPACTING'' r)) (doc_logs d))
      (filter (\<lambda>w. \<not> (all_exist (filter ?Q (write_ahead_logs D)) ns = Some True \<and> ?Q w)) (write_ahead_logs D))" .
  then show "represents unmarshal (snd (doc_DeleteWriteAheadLogs ns d)) (snd (DeleteWriteAheadLogs ns D))"
    using assms
    by (simp only: represents_scans doc_DeleteWriteAheadLogs_def DeleteWriteAheadLogs_def Let_def m(1)
        snd_conv) simp
  show "fst (doc_DeleteWriteAheadLogs ns d) = fst (DeleteWriteAheadLogs ns D)"
    using m by (simp add: doc_DeleteWriteAheadLogs_def DeleteWriteAheadLogs_def Let_def)
qed

lemma doc_DeleteRuns:
  assumes "represents unmarshal d D"
  shows "fst (doc_DeleteSharedRuns ns d) = fst (DeleteSharedRuns ns D)"
    and "represents unmarshal (snd (doc_DeleteSharedRuns ns d)) (snd (DeleteSharedRuns ns D))"
proof -
  let ?Q = "\<lambda>w. RunSeqNo w \<in> set ns"
  have rows: "scans (scan_run unmarshal) (doc_runs d) (shared_runs D)"
    using assms by (simp add: represents_scans)
  have key: "fst r \<in> set ns \<longleftrightarrow> ?Q w" if "scan_run unmarshal r = Inr w" for r w
    using that by (cases r) (simp add: scan_run_fields)
  note m = scans_matching [where P = "\<lambda>r. fst r \<in> set ns" and Q = ?Q, OF rows key]
  have "scans (scan_run unmarshal) (filter (\<lambda>r. \<not> (v \<and> fst r \<in> set ns)) (doc_runs d))
      (filter (\<lambda>w. \<not> (v \<and> ?Q w)) (shared_runs D))" for v
    by (rule scans_filter [OF rows]) (simp add: key)
  then have "scans (scan_run unmarshal) (filter (\<lambda>r. \<not> (all_exist (filter ?Q (shared_runs D)) ns = Some True \<and>
      fst r \<in> set ns)) (doc_runs d))
      (filter (\<lambda>w. \<not> (all_exist (filter ?Q (shared_runs D)) ns = Some True \<and> ?Q w)) (shared_runs D))" .
  then show "represents unmarshal (snd (doc_DeleteSharedRuns ns d)) (snd (DeleteSharedRuns ns D))"
    using assms
    by (simp only: represents_scans doc_DeleteSharedRuns_def DeleteSharedRuns_def Let_def m(1) snd_conv) simp
  show "fst (doc_DeleteSharedRuns ns d) = fst (DeleteSharedRuns ns D)"
    using m by (simp add: doc_DeleteSharedRuns_def DeleteSharedRuns_def Let_def)
qed

text \<open>What the program relies on of \<^verbatim>\<open>protojson\<close> and the column.\<close>

locale json_column =
  fixes marshal :: marshaler and unmarshal :: unmarshaler and jsonb :: column
  assumes read_back: "marshal m = Inr doc \<Longrightarrow> jsonb doc = Inr doc' \<Longrightarrow> full_name m' = full_name m \<Longrightarrow>
      unmarshal doc' m' = (None, m)"
begin

lemma document_reads_back:
  "write_document marshal jsonb m = Inr doc \<Longrightarrow> full_name m' = full_name m \<Longrightarrow>
   UnmarshalJSON unmarshal doc m' = (None, m)"
  by (auto simp: write_document_def MarshalJSON_eq UnmarshalJSON_eq read_back split: sum.splits)

lemma add_log_represents:
  assumes "represents unmarshal d D" and "doc_AddWriteAheadLog marshal jsonb a d = (None, d')"
  shows "represents unmarshal d' (AddWriteAheadLog a D)"
proof -
  obtain doc where doc: "write_document marshal jsonb (CommonMessage (WALMessage a)) = Inr doc"
    "d' = d\<lparr>doc_logs := doc_logs d @ [(doc_wal_seq d, ''NEW'', doc)], doc_wal_seq := doc_wal_seq d + 1\<rparr>"
    using assms(2) by (auto simp: doc_AddWriteAheadLog_def split: sum.splits)
  have "scan_log unmarshal (wal_seq D, ''NEW'', doc) = Inr \<lparr>SeqNo = wal_seq D, State = ''NEW'', Attrs = a\<rparr>"
    using document_reads_back [OF doc(1), of new_wal] by (simp add: scan_log_def new_wal_def)
  then show ?thesis using assms(1) by (simp add: represents_scans AddWriteAheadLog_def scans_snoc doc(2))
qed

lemma add_run_represents:
  assumes "represents unmarshal d D" and "doc_AddSharedRun marshal jsonb a d = (None, d')"
  shows "represents unmarshal d' (AddSharedRun a D)"
proof -
  obtain doc where doc: "write_document marshal jsonb (CommonMessage (RunMessage a)) = Inr doc"
    "d' = d\<lparr>doc_runs := doc_runs d @ [(doc_run_seq d, doc)], doc_run_seq := doc_run_seq d + 1\<rparr>"
    using assms(2) by (auto simp: doc_AddSharedRun_def split: sum.splits)
  have "scan_run unmarshal (run_seq D, doc) = Inr \<lparr>RunSeqNo = run_seq D, RunRowAttrs = a\<rparr>"
    using document_reads_back [OF doc(1), of "CommonMessage (RunMessage \<lparr>RunPath = []\<rparr>)"]
    by (simp add: scan_run_def)
  then show ?thesis using assms(1) by (simp add: represents_scans AddSharedRun_def scans_snoc doc(2))
qed

lemma statement_refines:
  assumes "represents unmarshal d D" and "doc_exec marshal jsonb c d = (r, d')"
  shows "r = Inr (answer c D) \<and> represents unmarshal d' (exec c D) \<or> (\<exists>e. r = Inl e) \<and> d' = d"
proof (cases c)
  case (AddWAL a)
  then show ?thesis
    using assms add_log_represents [OF assms(1), of a d']
    by (auto simp: doc_AddWriteAheadLog_def split: sum.splits)
next
  case (AddRun a)
  then show ?thesis
    using assms add_run_represents [OF assms(1), of a d']
    by (auto simp: doc_AddSharedRun_def split: sum.splits)
next
  case (MarkWALs ns)
  then show ?thesis using assms(2) doc_Mark [OF assms(1), of ns] by (auto split: prod.splits)
next
  case (DeleteWALs ns)
  then show ?thesis using assms(2) doc_Delete [OF assms(1), of ns] by (auto split: prod.splits)
next
  case (DeleteRuns ns)
  then show ?thesis using assms(2) doc_DeleteRuns [OF assms(1), of ns] by (auto split: prod.splits)
qed

end

text \<open>Tables of documents are the batcher's log as well.\<close>

definition doc_rows :: "unmarshaler \<Rightarrow> doc_db \<Rightarrow> WriteAheadLog list" where
  "doc_rows unmarshal d = (case doc_GetWriteAheadLogs unmarshal d of Inr ws \<Rightarrow> ws | Inl _ \<Rightarrow> [])"

definition doc_ok :: "unmarshaler \<Rightarrow> doc_db \<Rightarrow> bool" where
  "doc_ok unmarshal d \<longleftrightarrow> (\<exists>D. represents unmarshal d D \<and> db_ok D)"

lemma doc_rows: "represents unmarshal d D \<Longrightarrow> doc_rows unmarshal d = write_ahead_logs D"
  by (simp add: doc_rows_def represents_def)

lemma doc_add_error: "doc_AddWriteAheadLog marshal jsonb a d = (Some e, d') \<Longrightarrow> d' = d"
  by (auto simp: doc_AddWriteAheadLog_def split: sum.splits)

sublocale json_column \<subseteq> docs: wal_log "doc_AddWriteAheadLog marshal jsonb" "doc_rows unmarshal" "doc_ok unmarshal"
proof
  fix a e d d'
  assume "doc_ok unmarshal d"
  then obtain D where D: "represents unmarshal d D" "db_ok D" by (auto simp: doc_ok_def)
  show "doc_AddWriteAheadLog marshal jsonb a d = (None, d') \<Longrightarrow>
      \<exists>n. doc_rows unmarshal d' = doc_rows unmarshal d @ [new_log n a] \<and>
        list_all (\<lambda>w. SeqNo w < n) (doc_rows unmarshal d)"
    using D doc_rows [OF D(1)] doc_rows [OF add_log_represents [OF D(1), of a d']]
    by (auto simp: AddWriteAheadLog_def new_log_def db_ok_def list_all_iff)
  show "doc_AddWriteAheadLog marshal jsonb a d = (Some e, d') \<Longrightarrow>
      doc_rows unmarshal d' = doc_rows unmarshal d \<or>
      (\<exists>n. doc_rows unmarshal d' = doc_rows unmarshal d @ [new_log n a])"
    using doc_add_error by blast
  show "doc_ok unmarshal (snd (doc_AddWriteAheadLog marshal jsonb a d))"
    using D add_log_represents [OF D(1), of a] db_ok_AddWriteAheadLog [OF D(2), of a] doc_add_error [of marshal jsonb a d]
    by (cases "doc_AddWriteAheadLog marshal jsonb a d"; cases "fst (doc_AddWriteAheadLog marshal jsonb a d)")
      (auto simp: doc_ok_def)
qed

text \<open>A \<^verbatim>\<open>JSONB\<close> string cannot hold the NUL character, which a message's string can: PostgreSQL refuses
  the document.\<close>

locale postgres_json = json_column +
  assumes nul_refused: "marshal (CommonMessage (WALMessage a)) = Inr doc \<Longrightarrow>
      CHR 0x00 \<in> set (MinKey a) \<union> set (MaxKey a) \<Longrightarrow> \<exists>e. jsonb doc = Inl e"
begin

lemma nul_attrs_refused:
  "CHR 0x00 \<in> set (MinKey a) \<union> set (MaxKey a) \<Longrightarrow> \<exists>e. doc_AddWriteAheadLog marshal jsonb a d = (Some e, d)"
  using nul_refused [of a]
  by (cases "marshal (CommonMessage (WALMessage a))")
    (fastforce simp: doc_AddWriteAheadLog_def write_document_def MarshalJSON_eq)+

end

lemma batch_attrs_extreme:
  assumes "slice_sort srt" and "r \<in> set records"
  shows "\<forall>r' \<in> set records. Key r \<le> Key r' \<Longrightarrow> MinKey (batch_attrs uuid now (batch_table srt records)) = Key r"
    and "\<forall>r' \<in> set records. Key r' \<le> Key r \<Longrightarrow> MaxKey (batch_attrs uuid now (batch_table srt records)) = Key r"
proof -
  let ?t = "batch_table srt records"
  have "?t \<noteq> []" using batch_table_Nil_iff [OF assms(1), of records] assms(2) by auto
  then have "?t ! 0 \<in> set ?t" "?t ! (length ?t - 1) \<in> set ?t" by (simp_all add: nth_mem)
  then have t: "?t ! 0 \<in> set records" "?t ! (length ?t - 1) \<in> set records"
    using batch_table_subset [OF assms(1)] by blast+
  note b = batch_attrs_bounds [OF assms, of uuid now]
  have m: "MinKey (batch_attrs uuid now ?t) = Key (?t ! 0)"
    "MaxKey (batch_attrs uuid now ?t) = Key (?t ! (length ?t - 1))"
    by (simp_all add: batch_attrs_def)
  show "MinKey (batch_attrs uuid now ?t) = Key r" if "\<forall>r' \<in> set records. Key r \<le> Key r'"
    using b that t(1) unfolding m by (intro antisym) simp_all
  show "MaxKey (batch_attrs uuid now ?t) = Key r" if "\<forall>r' \<in> set records. Key r' \<le> Key r"
    using b that t(2) unfolding m by (intro antisym) simp_all
qed

section \<open>Properties\<close>

text \<open>C13. The database keeps documents, the program sees messages: if tables of documents are read as
  tables of messages, every statement on the documents either answers what the statement on the
  messages answers and leaves tables that are read as its result, or reports an error and changes
  nothing; and the queries on the documents give the rows of the messages.\<close>

theorem documents_refine_rows:
  assumes "json_column marshal unmarshal jsonb" and "represents unmarshal d D"
    and "doc_exec marshal jsonb c d = (r, d')"
  shows "(r = Inr (answer c D) \<and> represents unmarshal d' (exec c D) \<or> (\<exists>e. r = Inl e) \<and> d' = d) \<and>
    doc_GetWriteAheadLogs unmarshal d = Inr (GetWriteAheadLogs D) \<and>
    doc_GetWriteAheadLogsToCompact unmarshal d = Inr (GetWriteAheadLogsToCompact D) \<and>
    doc_GetSharedRuns unmarshal d = Inr (GetSharedRuns D) \<and>
    doc_GetPartitions unmarshal d = Inr (GetPartitions D)"
  using json_column.statement_refines [OF assms] doc_GetWriteAheadLogsToCompact [OF assms(2)] assms(2)
  by (simp add: represents_def GetWriteAheadLogs_def GetSharedRuns_def GetPartitions_def)

text \<open>C35. One key can fail a batch: when the least or the greatest key of a batch has a NUL character,
  which the request's check lets through, the batch's row is refused after its upload, and all of
  the batch's requests get that error, whatever their keys.\<close>

theorem nul_key_fails_batch:
  assumes "postgres_json marshal unmarshal jsonb" and "slice_sort srt"
    and "r \<in> set (batch_records b)" and "CHR 0x00 \<in> set (Key r)"
    and "(\<forall>r' \<in> set (batch_records b). Key r \<le> Key r') \<or> (\<forall>r' \<in> set (batch_records b). Key r' \<le> Key r)"
  shows "\<exists>e. worker_insert srt (doc_AddWriteAheadLog marshal jsonb) i uuid now b s =
    notify b (Some e) (without_worker i s)"
proof -
  let ?a = "batch_attrs uuid now (batch_table srt (batch_records b))"
  have "CHR 0x00 \<in> set (MinKey ?a) \<union> set (MaxKey ?a)"
    using assms(4,5) batch_attrs_extreme [OF assms(2,3), of uuid now] by auto
  then obtain e where "doc_AddWriteAheadLog marshal jsonb ?a (db s) = (Some e, db s)"
    using postgres_json.nul_attrs_refused [OF assms(1)] by blast
  then show ?thesis by (auto simp: worker_insert_def insert_batch_def)
qed

section \<open>An instance\<close>

text \<open>
  Logs and runs as JSON objects whose fields are all strings, and a column that refuses escaped NUL
  characters and keeps the rest.
\<close>

fun escape :: "string \<Rightarrow> string" where
  "escape [] = []"
| "escape (c # s) =
     (if c = CHR 0x00 then CHR 0x5C # ''u0000''
      else if c = CHR 0x5C \<or> c = CHR 0x22 then [CHR 0x5C, c] else [c]) @ escape s"

fun unescape :: "string \<Rightarrow> (string \<times> string) option" where
  "unescape [] = None"
| "unescape (c # s) =
     (if c = CHR 0x22 then Some ([], s)
      else if c = CHR 0x5C then
        (case s of
           [] \<Rightarrow> None
         | d # s \<Rightarrow>
             if d = CHR ''u'' then map_option (apfst ((#) (CHR 0x00))) (unescape (drop 4 s))
             else map_option (apfst ((#) d)) (unescape s))
      else map_option (apfst ((#) c)) (unescape s))"

lemma unescape_escape [simp]: "unescape (escape s @ CHR 0x22 # rest) = Some (s, rest)"
  by (induction s) auto

definition field_start :: "string \<Rightarrow> string" where
  "field_start name = CHR 0x22 # name @ [CHR 0x22, CHR '':'', CHR 0x22]"

definition field :: "string \<Rightarrow> string \<Rightarrow> string" where
  "field name v = field_start name @ escape v @ [CHR 0x22]"

definition parse_field :: "string \<Rightarrow> string \<Rightarrow> (string \<times> string) option" where
  "parse_field name s =
     (if take (length (field_start name)) s = field_start name
      then unescape (drop (length (field_start name)) s) else None)"

lemma parse_field [simp]: "parse_field name (field name v @ rest) = Some (v, rest)"
  by (simp add: parse_field_def field_def)

definition parse_int :: "string \<Rightarrow> int" where
  "parse_int s =
     (if take 1 s = ''-'' then - int (decimal (drop 1 s)) else int (decimal s))"

lemma show_nat_no_minus: "CHR ''-'' \<notin> set (show_nat n)"
proof (induction n rule: show_nat.induct)
  case (1 n)
  have "char_of (48 + d) \<noteq> CHR ''-''" if "d < 10" for d :: nat
  proof
    assume "char_of (48 + d) = CHR ''-''"
    then have "(of_char (char_of (48 + d) :: char) :: nat) = of_char CHR ''-''" by simp
    then show False using that by simp
  qed
  then show ?case using 1 by (subst show_nat.simps) (auto simp del: char_of_def dest: sym)
qed

lemma parse_show_int [simp]: "parse_int (show_int i) = i"
proof -
  have "take 1 (show_nat n) \<noteq> ''-''" for n
    using show_nat_no_minus [of n] by (cases "show_nat n") auto
  then show ?thesis by (simp add: parse_int_def show_int_def)
qed

fun json_marshal :: marshaler where
  "json_marshal (CommonMessage (WALMessage a)) =
     Inr (bytes_of (''{'' @ field ''path'' (Path a) @ '','' @ field ''createdAt'' (show_int (CreatedAt a)) @ '','' @
       field ''sizeBytes'' (show_int (SizeBytes a)) @ '','' @ field ''minKey'' (MinKey a) @ '','' @
       field ''maxKey'' (MaxKey a) @ ''}''))"
| "json_marshal (CommonMessage (RunMessage a)) = Inr (bytes_of (''{'' @ field ''path'' (RunPath a) @ ''}''))"
| "json_marshal _ = Inl (ErrText ''not in this instance'')"

definition json_fields :: "string list \<Rightarrow> string \<Rightarrow> string list option" where
  "json_fields names s =
     map_option fst (fold (\<lambda>name p. Option.bind p (\<lambda>(vs, s).
       map_option (\<lambda>(v, s). (vs @ [v], s)) (parse_field name (drop 1 s)))) names (Some ([], s)))"

fun json_unmarshal :: unmarshaler where
  "json_unmarshal b (CommonMessage (WALMessage a)) =
     (case json_fields [''path'', ''createdAt'', ''sizeBytes'', ''minKey'', ''maxKey''] (string_of b) of
        Some [p, t, n, k, k'] \<Rightarrow>
          (None, CommonMessage (WALMessage \<lparr>Path = p, CreatedAt = parse_int t, SizeBytes = parse_int n,
             MinKey = k, MaxKey = k'\<rparr>))
      | _ \<Rightarrow> (Some (ErrText ''syntax error''), CommonMessage (WALMessage a)))"
| "json_unmarshal b (CommonMessage (RunMessage a)) =
     (case json_fields [''path''] (string_of b) of
        Some [p] \<Rightarrow> (None, CommonMessage (RunMessage \<lparr>RunPath = p\<rparr>))
      | _ \<Rightarrow> (Some (ErrText ''syntax error''), CommonMessage (RunMessage a)))"
| "json_unmarshal b m = (Some (ErrText ''not in this instance''), m)"

fun nul_escape :: "string \<Rightarrow> bool" where
  "nul_escape (c # d # s) =
     (if c = CHR 0x5C then take 5 (d # s) = ''u0000'' \<or> nul_escape s else nul_escape (d # s))"
| "nul_escape _ = False"

definition json_jsonb :: column where
  "json_jsonb doc =
     (if nul_escape (string_of doc) then Inl (ErrText ''unsupported Unicode escape sequence'') else Inr doc)"

lemma nul_escape_Cons: "c \<noteq> CHR 0x5C \<Longrightarrow> nul_escape (c # s) = nul_escape s"
  by (cases s) auto

lemma nul_escape_plain: "CHR 0x5C \<notin> set p \<Longrightarrow> nul_escape (p @ s) = nul_escape s"
  by (induction p) (auto simp: nul_escape_Cons)

lemma nul_escape_escape: "CHR 0x00 \<in> set v \<or> nul_escape s \<Longrightarrow> nul_escape (escape v @ CHR 0x22 # s)"
  by (induction v) (auto simp: nul_escape_Cons)

lemma nul_escape_field:
  assumes "CHR 0x5C \<notin> set name" and "CHR 0x00 \<in> set v \<or> nul_escape s"
  shows "nul_escape (field name v @ s)"
  using assms nul_escape_plain [of "field_start name"] nul_escape_escape [OF assms(2)]
  by (simp add: field_def field_start_def)

lemma json_read_back:
  assumes "json_marshal m = Inr doc" and "full_name m' = full_name m"
  shows "json_unmarshal doc m' = (None, m)"
proof (cases m rule: json_marshal.cases)
  case (1 a)
  then obtain a' where "m' = CommonMessage (WALMessage a')"
    using assms(2) by (cases m' rule: full_name.cases) auto
  then show ?thesis using assms(1) 1 by (auto simp: json_fields_def)
next
  case (2 a)
  then obtain a' where "m' = CommonMessage (RunMessage a')"
    using assms(2) by (cases m' rule: full_name.cases) auto
  then show ?thesis using assms(1) 2 by (auto simp: json_fields_def)
qed (use assms(1) in auto)

interpretation json: postgres_json json_marshal json_unmarshal json_jsonb
proof
  fix m m' doc doc'
  assume "json_marshal m = Inr doc" "json_jsonb doc = Inr doc'" "full_name m' = full_name m"
  then show "json_unmarshal doc' m' = (None, m)"
    using json_read_back by (auto simp: json_jsonb_def split: if_splits)
next
  fix a doc
  assume "json_marshal (CommonMessage (WALMessage a)) = Inr doc" "CHR 0x00 \<in> set (MinKey a) \<union> set (MaxKey a)"
  then have "nul_escape (string_of doc)"
    by (auto simp: nul_escape_Cons intro!: nul_escape_field)
  then show "\<exists>e. json_jsonb doc = Inl e" by (simp add: json_jsonb_def)
qed

section \<open>Witnesses\<close>

definition no_documents :: doc_db where
  "no_documents = \<lparr>doc_logs = [], doc_wal_seq = 1, doc_runs = [], doc_run_seq = 1, doc_partitions = []\<rparr>"

definition no_rows :: DB where
  "no_rows = \<lparr>write_ahead_logs = [], wal_seq = 1, shared_runs = [], run_seq = 1, partitions = []\<rparr>"

lemma no_documents: "represents json_unmarshal no_documents no_rows"
  by (simp add: represents_scans scans_def no_documents_def no_rows_def)

theorem documents_refine_rows_witness:
  "\<exists>d. doc_exec json_marshal json_jsonb (AddWAL (attrs_at ''wal/1'')) no_documents = (Inr True, d) \<and>
     doc_GetWriteAheadLogs json_unmarshal d = Inr [new_log 1 (attrs_at ''wal/1'')]"
proof -
  obtain r d where e: "doc_exec json_marshal json_jsonb (AddWAL (attrs_at ''wal/1'')) no_documents = (r, d)"
    by fastforce
  have "show_int 0 = ''0''" "show_int 1 = ''1''"
    by (simp_all add: show_int_def show_nat.simps char_of_def Let_def bit_0)
  then have "r = Inr True"
    using e by (simp add: doc_AddWriteAheadLog_def write_document_def MarshalJSON_eq json_jsonb_def attrs_at_def
        field_def field_start_def nul_escape_plain split: if_splits)
  then show ?thesis
    using documents_refine_rows [OF json.json_column_axioms no_documents e] e
    by (simp add: represents_def no_rows_def AddWriteAheadLog_def new_log_def)
qed

definition nul_batch :: batch where
  "nul_batch = add_request (add_request empty_batch 0 [\<lparr>wr_key = ''k'', wr_op = Put [1]\<rparr>]) 1
     [\<lparr>wr_key = [CHR 0x00], wr_op = Put [2]\<rparr>]"

definition nul_server :: "(unit, doc_db) server" where
  "nul_server = \<lparr>loop = Selecting, current = None, timer = TimerNil, processing = [],
     processing_closed = False, workers = [Uploaded ''x'' nul_batch], spawned = True, done_closed = True,
     store = (), db = no_documents, ctx_done = False, panicked = False, uuids = [''x''],
     accepted = [(0, [\<lparr>wr_key = ''k'', wr_op = Put [1]\<rparr>]), (1, [\<lparr>wr_key = [CHR 0x00], wr_op = Put [2]\<rparr>])],
     replies = []\<rparr>"

theorem nul_key_fails_batch_witness:
  "\<exists>e. replies (worker_insert insertion_sort (doc_AddWriteAheadLog json_marshal json_jsonb) 0 ''x'' 0 nul_batch
       nul_server) = [(0, Some e), (1, Some e)] \<and>
   check_request \<lparr>GetWrites = Some [\<lparr>wr_key = [CHR 0x00], wr_op = Put [2]\<rparr>]\<rparr> = None"
proof -
  let ?r = "\<lparr>Key = [CHR 0x00], Value = [2], Tombstone = False\<rparr>"
  have rs: "batch_records nul_batch = [\<lparr>Key = ''k'', Value = [1], Tombstone = False\<rparr>, ?r]"
    "callbacks nul_batch = [0, 1]"
    by (simp_all add: nul_batch_def empty_batch_def to_record_def GetKey_def GetPut_def GetDelete_def)
  have "\<forall>r' \<in> set (batch_records nul_batch). Key ?r \<le> Key r'" by (simp add: rs less_eq_char_def)
  then show ?thesis
    using nul_key_fails_batch [OF json.postgres_json_axioms insertion.slice_sort_axioms, of ?r nul_batch 0 "''x''" 0
        nul_server]
    by (auto simp: rs notify_def without_worker_def nul_server_def check_request_def GetKey_def)
qed

end
